(* ===== verification/Prelude.thy ===== *)
theory Prelude
  imports Complex_Main "HOL-Library.Word" "HOL-Library.Signed_Division"
    "HOL-Library.Log_Nat" "HOL-Library.Multiset" "HOL-Library.Char_ord" "HOL-Library.List_Lexorder"
begin

text \<open>
  What every component of the development shares: the two machine-integer widths the code uses
  (Go's \<^verbatim>\<open>int\<close>/\<^verbatim>\<open>int64\<close> as an
  \<open>int\<close> reduced by \<open>i64\<close>, Go's \<^verbatim>\<open>uint64\<close> as a 64-bit word), error results as
  sums, the string functions of Go's \<^verbatim>\<open>strings\<close> package the code calls, and the order in
  which a Go \<^verbatim>\<open>range\<close> over a map visits its keys, which the language leaves open and
  every theorem therefore quantifies over.
\<close>

named_theorems agg_simps "the bucket maps after an update or a pruning"

section \<open>Machine integers\<close>

type_synonym uint64 = "64 word"

text \<open>Two's-complement wrap-around of a signed 64-bit result.\<close>

definition i64 :: "int \<Rightarrow> int" where
  "i64 x = signed_take_bit 63 x"

abbreviation i64_range :: "int \<Rightarrow> bool" where
  "i64_range x \<equiv> - 9223372036854775808 \<le> x \<and> x < 9223372036854775808"

lemma i64_id [simp]: "i64_range x \<Longrightarrow> i64 x = x"
  by (simp add: i64_def signed_take_bit_int_eq_self)

lemma i64_bounds: "i64_range (i64 x)"
  using signed_take_bit_int_greater_eq_minus_exp [of 63 x] signed_take_bit_int_less_exp [of 63 x]
  by (simp add: i64_def)

lemma i64_idem [simp]: "i64 (i64 x) = i64 x"
  by (rule i64_id [OF i64_bounds])

section \<open>Error results\<close>

text \<open>\<open>Inl\<close> is a Go error, \<open>Inr\<close> a result with a nil error.\<close>

fun is_ok :: "'e + 'a \<Rightarrow> bool" where
  "is_ok (Inl _) = False"
| "is_ok (Inr _) = True"

lemma is_ok_iff: "is_ok r \<longleftrightarrow> (\<exists>x. r = Inr x)"
  by (cases r) auto

section \<open>Strings\<close>

text \<open>
  A Go string is a byte string: \<open>char list\<close>. \<^verbatim>\<open>strings.ToUpper\<close> and
  \<^verbatim>\<open>strings.ToLower\<close> map runes; the code only compares their result with ASCII
  constants. Besides the ASCII letters exactly two runes have an ASCII upper case (U+0131 and
  U+017F) and two an ASCII lower case (U+0130 and U+212A); the functions below map those and leave
  the bytes of every other rune alone, so that a comparison with an ASCII constant has the same
  answer as in Go.
\<close>

definition ascii_upper :: "char \<Rightarrow> char" where
  "ascii_upper c = (let n = of_char c :: nat in
     if 97 \<le> n \<and> n \<le> 122 then char_of (n - 32) else c)"

definition ascii_lower :: "char \<Rightarrow> char" where
  "ascii_lower c = (let n = of_char c :: nat in
     if 65 \<le> n \<and> n \<le> 90 then char_of (n + 32) else c)"

fun to_upper :: "string \<Rightarrow> string" where
  "to_upper [] = []"
| "to_upper [c] = [ascii_upper c]"
| "to_upper (c # d # s) =
     (if c = CHR 0xC4 \<and> d = CHR 0xB1 then CHR ''I'' # to_upper s
      else if c = CHR 0xC5 \<and> d = CHR 0xBF then CHR ''S'' # to_upper s
      else ascii_upper c # to_upper (d # s))"

fun to_lower :: "string \<Rightarrow> string" where
  "to_lower [] = []"
| "to_lower [c] = [ascii_lower c]"
| "to_lower [c, d] =
     (if c = CHR 0xC4 \<and> d = CHR 0xB0 then [CHR ''i''] else [ascii_lower c, ascii_lower d])"
| "to_lower (c # d # e # s) =
     (if c = CHR 0xC4 \<and> d = CHR 0xB0 then CHR ''i'' # to_lower (e # s)
      else if c = CHR 0xE2 \<and> d = CHR 0x84 \<and> e = CHR 0xAA then CHR ''k'' # to_lower s
      else ascii_lower c # to_lower (d # e # s))"

text \<open>\<^verbatim>\<open>strings.Contains(s, ":")\<close>, \<^verbatim>\<open>strings.HasPrefix\<close>,
  \<^verbatim>\<open>strings.TrimPrefix\<close> and \<^verbatim>\<open>strings.SplitN(s, ":", n)\<close> for
  \<open>n \<ge> 1\<close>.\<close>

definition contains_char :: "char \<Rightarrow> string \<Rightarrow> bool" where
  "contains_char c s \<longleftrightarrow> c \<in> set s"

fun has_prefix :: "string \<Rightarrow> string \<Rightarrow> bool" where
  "has_prefix s [] = True"
| "has_prefix [] (p # ps) = False"
| "has_prefix (c # s) (p # ps) = (c = p \<and> has_prefix s ps)"

definition trim_prefix :: "string \<Rightarrow> string \<Rightarrow> string" where
  "trim_prefix s p = (if has_prefix s p then drop (length p) s else s)"

fun split_n :: "char \<Rightarrow> nat \<Rightarrow> string \<Rightarrow> string list" where
  "split_n c 0 s = []"
| "split_n c (Suc 0) s = [s]"
| "split_n c (Suc (Suc n)) s =
     (if c \<in> set s
      then takeWhile (\<lambda>x. x \<noteq> c) s # split_n c (Suc n) (tl (dropWhile (\<lambda>x. x \<noteq> c) s))
      else [s])"

lemma has_prefix_append [simp]: "has_prefix (p @ s) p"
  by (induction p) auto

lemma has_prefix_iff: "has_prefix s p \<longleftrightarrow> (\<exists>t. s = p @ t)"
  by (induction s p rule: has_prefix.induct) auto

lemma trim_prefix_append [simp]: "trim_prefix (p @ s) p = s"
  by (simp add: trim_prefix_def)

lemma split_n_nonempty [simp]: "split_n c (Suc n) s \<noteq> []"
  by (cases n) auto

lemma contains_char_append [simp]:
  "contains_char c (s @ t) \<longleftrightarrow> contains_char c s \<or> contains_char c t"
  by (auto simp: contains_char_def)

lemma split_first:
  assumes "c \<notin> set a"
  shows "takeWhile (\<lambda>x. x \<noteq> c) (a @ c # s) = a"
    and "dropWhile (\<lambda>x. x \<noteq> c) (a @ c # s) = c # s"
proof -
  have *: "x \<in> set a \<Longrightarrow> x \<noteq> c" for x using assms by auto
  show "takeWhile (\<lambda>x. x \<noteq> c) (a @ c # s) = a"
    by (simp add: takeWhile_append2 [OF *])
  show "dropWhile (\<lambda>x. x \<noteq> c) (a @ c # s) = c # s"
    by (simp add: dropWhile_append2 [OF *])
qed

section \<open>The order of a range loop over a map\<close>

text \<open>
  Go visits the keys of a map in an order that is not specified and differs from run to run. A loop
  whose effect can depend on that order takes an enumeration as an argument: a function from the
  (finite) key set to a list of exactly those keys. Every theorem holds for every enumeration.
\<close>

type_synonym 'k enumeration = "'k set \<Rightarrow> 'k list"

definition enumerates :: "'k enumeration \<Rightarrow> bool" where
  "enumerates it \<longleftrightarrow> (\<forall>A. finite A \<longrightarrow> distinct (it A) \<and> set (it A) = A)"

lemma enumeratesD:
  assumes "enumerates it" "finite A"
  shows "distinct (it A)" "set (it A) = A"
  using assms by (auto simp: enumerates_def)

lemma enumerates_mset:
  assumes "enumerates it" "enumerates it'" "finite A"
  shows "mset (it A) = mset (it' A)"
  using enumeratesD [OF assms(1,3)] enumeratesD [OF assms(2,3)]
  by (simp add: set_eq_iff_mset_eq_distinct [symmetric])

lemma enumerates_sorted: "enumerates (sorted_list_of_set :: 'k::linorder enumeration)"
  by (simp add: enumerates_def)

text \<open>A deletion loop, \<^verbatim>\<open>for k := range m { if p { delete(m, k) } }\<close>.\<close>

definition map_delete_if :: "('k \<Rightarrow> 'v \<Rightarrow> bool) \<Rightarrow> ('k \<rightharpoonup> 'v) \<Rightarrow> ('k \<rightharpoonup> 'v)" where
  "map_delete_if p m = (\<lambda>k. case m k of None \<Rightarrow> None | Some v \<Rightarrow> if p k v then None else Some v)"

lemma dom_map_delete_if: "dom (map_delete_if p m) = {k. \<exists>v. m k = Some v \<and> \<not> p k v}"
  by (auto simp: map_delete_if_def split: option.splits if_splits)

lemma map_delete_if_Some:
  "map_delete_if p m k = Some v \<longleftrightarrow> m k = Some v \<and> \<not> p k v"
  by (auto simp: map_delete_if_def split: option.splits if_splits)

lemma dom_map_delete_if_subset: "dom (map_delete_if p m) \<subseteq> dom m"
  by (auto simp: dom_map_delete_if)

lemma finite_map_delete_if [intro]: "finite (dom m) \<Longrightarrow> finite (dom (map_delete_if p m))"
  by (rule finite_subset [OF dom_map_delete_if_subset])

end
