(* ===== verification/GoFloat.thy ===== *)
theory GoFloat
  imports Prelude
begin

text \<open>
  Go's \<^verbatim>\<open>float64\<close>: IEEE 754 binary64 with round-to-nearest-even, as an
  executable datatype, for the operations the engine uses (addition, division, the ordered
  comparisons, equality, conversion from integers). A finite value is a sign, a mantissa and an
  exponent of two. The lemmas relate it to the real it denotes: comparisons are those of the reals,
  and sums of integers are exact while they stay below \<open>2^53\<close>.
\<close>

section \<open>Values\<close>

datatype f64 =
    FNaN
  | FInf bool            \<comment> \<open>\<open>True\<close>: negative\<close>
  | FFin bool int int    \<comment> \<open>sign, mantissa, exponent: \<open>(-1)^s * m * 2^e\<close>\<close>

definition fzero :: f64 where
  "fzero = FFin False 0 (- 1074)"

text \<open>Every finite value that the operations build has a 53-bit mantissa, normalised or
  subnormal, and an exponent in range.\<close>

fun f64_wf :: "f64 \<Rightarrow> bool" where
  "f64_wf FNaN = True"
| "f64_wf (FInf s) = True"
| "f64_wf (FFin s m e) =
     (0 \<le> m \<and> m < 2 ^ 53 \<and> - 1074 \<le> e \<and> e \<le> 971 \<and> (e = - 1074 \<or> 2 ^ 52 \<le> m))"

fun fin :: "f64 \<Rightarrow> bool" where
  "fin (FFin s m e) = True"
| "fin _ = False"

fun fval :: "f64 \<Rightarrow> real" where
  "fval (FFin s m e) = (if s then - 1 else 1) * real_of_int m * 2 powi e"
| "fval _ = 0"

section \<open>Rounding\<close>

text \<open>
  \<open>round_gen p emin emax s n d\<close> is the nearest value to \<open>n/d\<close> (with sign \<open>s\<close>) in the binary
  format with \<open>p\<close> mantissa bits and least and greatest exponents \<open>emin\<close>, \<open>emax\<close>, ties to
  even, overflowing to infinity. binary64 is \<open>53, -1074, 971\<close>; binary32 is \<open>24, -149, 104\<close>.
\<close>

definition up2 :: "int \<Rightarrow> int" where
  "up2 k = 2 ^ nat k"

definition base_exp :: "int \<Rightarrow> int \<Rightarrow> int \<Rightarrow> int" where
  "base_exp p n d =
     (let e0 = bitlen n - bitlen d - p
      in if d * up2 p * up2 e0 \<le> n * up2 (- e0) then e0 + 1 else e0)"

definition round_exp :: "int \<Rightarrow> int \<Rightarrow> int \<Rightarrow> int \<Rightarrow> int" where
  "round_exp p emin n d = max (base_exp p n d) emin"

definition round_even :: "int \<Rightarrow> int \<Rightarrow> int" where
  "round_even num den =
     (let q = num div den; r = num mod den
      in if den < 2 * r \<or> (den = 2 * r \<and> odd q) then q + 1 else q)"

definition round_gen :: "int \<Rightarrow> int \<Rightarrow> int \<Rightarrow> bool \<Rightarrow> int \<Rightarrow> int \<Rightarrow> f64" where
  "round_gen p emin emax s n d =
     (if n = 0 then FFin s 0 emin
      else let e = round_exp p emin n d;
               q = round_even (n * up2 (- e)) (d * up2 e);
               (m, e') = (if q = up2 p then (up2 (p - 1), e + 1) else (q, e))
           in if emax < e' then FInf s else FFin s m e')"

definition round_f64 :: "bool \<Rightarrow> int \<Rightarrow> int \<Rightarrow> f64" where
  "round_f64 = round_gen 53 (- 1074) 971"

text \<open>The conversion \<^verbatim>\<open>float64(i)\<close> of an integer.\<close>

definition f64_of_int :: "int \<Rightarrow> f64" where
  "f64_of_int i = round_f64 (i < 0) \<bar>i\<bar> 1"

section \<open>Arithmetic and comparison\<close>

text \<open>The integer a finite value is at exponent \<open>E \<le> e\<close>.\<close>

definition at_exp :: "bool \<Rightarrow> int \<Rightarrow> int \<Rightarrow> int \<Rightarrow> int" where
  "at_exp s m e E = (if s then - m else m) * up2 (e - E)"

fun f64_add :: "f64 \<Rightarrow> f64 \<Rightarrow> f64" where
  "f64_add (FFin s1 m1 e1) (FFin s2 m2 e2) =
     (let E = min e1 e2; t = at_exp s1 m1 e1 E + at_exp s2 m2 e2 E
      in if t = 0 then FFin (s1 \<and> s2) 0 (- 1074)
         else round_f64 (t < 0) (\<bar>t\<bar> * up2 E) (up2 (- E)))"
| "f64_add (FInf s1) (FInf s2) = (if s1 = s2 then FInf s1 else FNaN)"
| "f64_add (FInf s) (FFin _ _ _) = FInf s"
| "f64_add (FFin _ _ _) (FInf s) = FInf s"
| "f64_add _ _ = FNaN"

fun f64_div :: "f64 \<Rightarrow> f64 \<Rightarrow> f64" where
  "f64_div (FFin s1 m1 e1) (FFin s2 m2 e2) =
     (if m2 = 0 then (if m1 = 0 then FNaN else FInf (s1 \<noteq> s2))
      else round_f64 (s1 \<noteq> s2) (m1 * up2 (e1 - e2)) (m2 * up2 (e2 - e1)))"
| "f64_div (FInf s1) (FFin s2 _ _) = FInf (s1 \<noteq> s2)"
| "f64_div (FFin s1 _ _) (FInf s2) = FFin (s1 \<noteq> s2) 0 (- 1074)"
| "f64_div _ _ = FNaN"

fun f64_lt :: "f64 \<Rightarrow> f64 \<Rightarrow> bool" where
  "f64_lt (FFin s1 m1 e1) (FFin s2 m2 e2) =
     (let E = min e1 e2 in at_exp s1 m1 e1 E < at_exp s2 m2 e2 E)"
| "f64_lt (FInf s1) (FInf s2) = (s1 \<and> \<not> s2)"
| "f64_lt (FInf s) (FFin _ _ _) = s"
| "f64_lt (FFin _ _ _) (FInf s) = (\<not> s)"
| "f64_lt _ _ = False"

fun f64_eq :: "f64 \<Rightarrow> f64 \<Rightarrow> bool" where
  "f64_eq (FFin s1 m1 e1) (FFin s2 m2 e2) =
     (let E = min e1 e2 in at_exp s1 m1 e1 E = at_exp s2 m2 e2 E)"
| "f64_eq (FInf s1) (FInf s2) = (s1 = s2)"
| "f64_eq _ _ = False"

text \<open>The Go operators on \<^verbatim>\<open>float64\<close>: \<open>+\<close>, \<open><\<close> and \<open>\<le>\<close> of the type;
  \<^verbatim>\<open>==\<close> is \<open>f64_eq\<close> (it tells neither \<open>0\<close> from \<open>-0\<close> nor a NaN equal to
  itself).\<close>

instantiation f64 :: "{ord, plus, zero}"
begin

definition zero_f64 :: f64 where
  "zero_f64 = fzero"

definition plus_f64 :: "f64 \<Rightarrow> f64 \<Rightarrow> f64" where
  "plus_f64 = f64_add"

definition less_f64 :: "f64 \<Rightarrow> f64 \<Rightarrow> bool" where
  "less_f64 = f64_lt"

definition less_eq_f64 :: "f64 \<Rightarrow> f64 \<Rightarrow> bool" where
  "less_eq_f64 a b \<longleftrightarrow> f64_lt a b \<or> f64_eq a b"

instance ..

end

lemmas f64_ops = zero_f64_def plus_f64_def less_f64_def less_eq_f64_def

section \<open>Powers of two\<close>

lemma up2_pos [simp]: "0 < up2 k"
  by (simp add: up2_def)

lemma up2_ge_0 [simp]: "0 \<le> up2 k"
  using up2_pos [of k] by linarith

lemma up2_neq_0 [simp]: "up2 k \<noteq> 0"
  using up2_pos [of k] by linarith

lemma up2_nonneg: "0 \<le> k \<Longrightarrow> real_of_int (up2 k) = 2 powi k"
  by (simp add: up2_def power_int_def)

lemma up2_neg [simp]: "k \<le> 0 \<Longrightarrow> up2 k = 1"
  by (simp add: up2_def)

lemma up2_add: "0 \<le> j \<Longrightarrow> 0 \<le> k \<Longrightarrow> up2 (j + k) = up2 j * up2 k"
  by (simp add: up2_def nat_add_distrib power_add)

lemma powi_up2: "2 powi k * real_of_int (up2 (- k)) = real_of_int (up2 k)"
proof (cases "0 \<le> k")
  case True
  then show ?thesis by (simp add: up2_nonneg)
next
  case False
  then have "2 powi k * (2 powi (- k) :: real) = 1"
    by (simp add: power_int_minus)
  with False show ?thesis by (simp add: up2_nonneg)
qed

lemma up2_quotient: "real_of_int (up2 k) / real_of_int (up2 (- k)) = 2 powi k"
  using powi_up2 [of k] by (simp add: divide_eq_eq)

section \<open>Comparison is the order of the reals\<close>

lemma at_exp_val: "E \<le> e \<Longrightarrow> real_of_int (at_exp s m e E) * 2 powi E = fval (FFin s m e)"
proof -
  assume "E \<le> e"
  then have "(2::real) powi (e - E) * 2 powi E = 2 powi e"
    by (simp flip: power_int_add)
  with \<open>E \<le> e\<close> show ?thesis
    by (simp add: at_exp_def up2_nonneg)
qed

lemma f64_lt_fin: "fin a \<Longrightarrow> fin b \<Longrightarrow> f64_lt a b \<longleftrightarrow> fval a < fval b"
proof (cases a; cases b)
  fix s1 m1 e1 s2 m2 e2
  assume ab: "a = FFin s1 m1 e1" "b = FFin s2 m2 e2"
  define E where "E = min e1 e2"
  have "fval a < fval b \<longleftrightarrow>
      real_of_int (at_exp s1 m1 e1 E) * 2 powi E < real_of_int (at_exp s2 m2 e2 E) * 2 powi E"
    by (simp add: ab at_exp_val E_def del: fval.simps)
  then show ?thesis by (simp add: ab E_def [symmetric])
qed auto

lemma f64_eq_fin: "fin a \<Longrightarrow> fin b \<Longrightarrow> f64_eq a b \<longleftrightarrow> fval a = fval b"
proof (cases a; cases b)
  fix s1 m1 e1 s2 m2 e2
  assume ab: "a = FFin s1 m1 e1" "b = FFin s2 m2 e2"
  define E where "E = min e1 e2"
  have "fval a = fval b \<longleftrightarrow>
      real_of_int (at_exp s1 m1 e1 E) * 2 powi E = real_of_int (at_exp s2 m2 e2 E) * 2 powi E"
    by (simp add: ab at_exp_val E_def del: fval.simps)
  then show ?thesis by (simp add: ab E_def [symmetric])
qed auto

lemma f64_lt_irrefl [simp]: "\<not> f64_lt a a"
  by (cases a) auto

lemma f64_lt_trans: "f64_lt a b \<Longrightarrow> f64_lt b c \<Longrightarrow> f64_lt a c"
proof -
  assume *: "f64_lt a b" "f64_lt b c"
  show ?thesis
  proof (cases "fin a \<and> fin b \<and> fin c")
    case True
    with * show ?thesis by (simp add: f64_lt_fin)
  next
    case False
    with * show ?thesis by (cases a; cases b; cases c) (auto split: if_splits)
  qed
qed

lemma f64_total: "a \<noteq> FNaN \<Longrightarrow> b \<noteq> FNaN \<Longrightarrow> f64_lt a b \<or> f64_eq a b \<or> f64_lt b a"
proof (cases "fin a \<and> fin b")
  case True
  then show ?thesis by (auto simp: f64_lt_fin f64_eq_fin)
next
  case False
  assume "a \<noteq> FNaN" "b \<noteq> FNaN"
  with False show ?thesis by (cases a; cases b) auto
qed

lemma f64_add_commute: "f64_add a b = f64_add b a"
  by (cases a; cases b) (auto simp: Let_def min.commute add.commute conj_commute)

section \<open>Rounding: canonical results, exact integers\<close>

lemma round_exp_base: "round_exp p emin n d = max (base_exp p n d) emin"
  by (simp add: round_exp_def)

lemma bitlen_real:
  assumes "0 < n"
  shows "2 powi (bitlen n - 1) \<le> real_of_int n" "real_of_int n < 2 powi bitlen n"
proof -
  have b: "1 \<le> bitlen n" using assms by (simp add: bitlen_def floorlog_def)
  have "2 ^ nat (bitlen n - 1) \<le> n \<and> n < 2 ^ nat (bitlen n)"
    by (rule bitlen_bounds [OF assms])
  then have "real_of_int (2 ^ nat (bitlen n - 1)) \<le> real_of_int n"
    "real_of_int n < real_of_int (2 ^ nat (bitlen n))"
    by (simp_all only: of_int_le_iff of_int_less_iff)
  with b show "2 powi (bitlen n - 1) \<le> real_of_int n" "real_of_int n < 2 powi bitlen n"
    by (simp_all add: power_int_def)
qed

lemma base_exp_bounds:
  assumes n: "0 < n" and d: "0 < d" and p: "0 \<le> p"
  shows "2 powi (p - 1 + base_exp p n d) \<le> real_of_int n / real_of_int d"
    and "real_of_int n / real_of_int d < 2 powi (p + base_exp p n d)"
proof -
  define e0 where "e0 = bitlen n - bitlen d - p"
  define x where "x = real_of_int n / real_of_int d"
  have lo: "2 powi (p - 1 + e0) < x"
  proof -
    have "2 powi (p - 1 + e0) = (2 powi (bitlen n - 1) / 2 powi bitlen d :: real)"
      by (simp add: e0_def algebra_simps flip: power_int_diff)
    also have "\<dots> < x"
      unfolding x_def using bitlen_real [OF n] bitlen_real [OF d] n d
      by (intro frac_less2) auto
    finally show ?thesis .
  qed
  have hi: "x < 2 powi (p + e0 + 1)"
  proof -
    have "x < 2 powi bitlen n / 2 powi (bitlen d - 1)"
      unfolding x_def using bitlen_real [OF n] bitlen_real [OF d] n d
      by (intro frac_less) auto
    also have "\<dots> = (2 powi (p + e0 + 1) :: real)"
      by (simp add: e0_def algebra_simps flip: power_int_diff)
    finally show ?thesis .
  qed
  have cond: "d * up2 p * up2 e0 \<le> n * up2 (- e0) \<longleftrightarrow> 2 powi (p + e0) \<le> x"
  proof -
    have "d * up2 p * up2 e0 \<le> n * up2 (- e0) \<longleftrightarrow>
        real_of_int (d * up2 p * up2 e0) \<le> real_of_int (n * up2 (- e0))"
      by (simp only: of_int_le_iff)
    also have "\<dots> \<longleftrightarrow> real_of_int (up2 p) * (real_of_int (up2 e0) / real_of_int (up2 (- e0))) \<le> x"
      using d by (simp add: x_def field_simps)
    also have "\<dots> \<longleftrightarrow> 2 powi p * 2 powi e0 \<le> x"
      by (simp add: up2_quotient up2_nonneg [OF p])
    finally show ?thesis by (simp add: power_int_add)
  qed
  have b: "base_exp p n d = (if 2 powi (p + e0) \<le> x then e0 + 1 else e0)"
    unfolding base_exp_def Let_def by (simp only: e0_def [symmetric] cond)
  show "2 powi (p - 1 + base_exp p n d) \<le> real_of_int n / real_of_int d"
    using lo by (simp add: b x_def [symmetric] algebra_simps)
  show "real_of_int n / real_of_int d < 2 powi (p + base_exp p n d)"
    using hi by (simp add: b x_def [symmetric] algebra_simps)
qed


lemma round_even_exact: "0 < den \<Longrightarrow> den dvd num \<Longrightarrow> round_even num den = num div den"
  by (auto simp: round_even_def Let_def)

lemma round_even_cases: "round_even num den = num div den \<or> round_even num den = num div den + 1"
  by (auto simp: round_even_def Let_def)

lemma scaled_real:
  assumes "0 < d"
  shows "real_of_int (n * up2 (- e)) / real_of_int (d * up2 e) = real_of_int n / real_of_int d / 2 powi e"
  using up2_quotient [of e] assms
  by (simp add: field_simps)

lemma div_real_bounds:
  assumes "0 < (b::int)"
  shows "real_of_int (a div b) \<le> real_of_int a / real_of_int b"
    and "real_of_int a / real_of_int b < real_of_int (a div b) + 1"
proof -
  show "real_of_int (a div b) \<le> real_of_int a / real_of_int b"
    by (rule real_of_int_div4)
  show "real_of_int a / real_of_int b < real_of_int (a div b) + 1"
    unfolding floor_divide_of_int_eq [symmetric, where 'a = real] by linarith
qed

lemma round_f64_unfold:
  assumes "0 < n" "e = round_exp 53 (- 1074) n d" "q = round_even (n * up2 (- e)) (d * up2 e)"
  shows "round_f64 s n d =
    (if q = 2 ^ 53 then if 971 < e + 1 then FInf s else FFin s (2 ^ 52) (e + 1)
     else if 971 < e then FInf s else FFin s q e)"
proof -
  have u: "up2 53 = 2 ^ 53" "up2 (53 - 1) = 2 ^ 52" by (simp_all add: up2_def)
  have "n \<noteq> 0" using assms(1) by simp
  then show ?thesis
    unfolding round_f64_def round_gen_def Let_def assms(2,3) u by simp
qed

lemma round_f64_wf:
  assumes n: "0 \<le> n" and d: "0 < d"
  shows "f64_wf (round_f64 s n d)"
proof (cases "n = 0")
  case True
  then show ?thesis by (simp add: round_f64_def round_gen_def)
next
  case False
  with n have n: "0 < n" by simp
  define b e where "b = base_exp 53 n d" and "e = round_exp 53 (- 1074) n d"
  define x where "x = real_of_int n / real_of_int d / 2 powi e"
  define q where "q = round_even (n * up2 (- e)) (d * up2 e)"
  have e: "e = max b (- 1074)" by (simp add: b_def e_def round_exp_base)
  have dpos: "0 < d * up2 e" using d by simp
  have hi: "x < 2 ^ 53"
  proof -
    have "real_of_int n / real_of_int d < 2 powi (53 + b)"
      using base_exp_bounds(2) [OF n d, of 53] by (simp add: b_def)
    also have "\<dots> \<le> 2 powi (53 + e)" by (rule power_int_increasing) (simp_all add: e)
    also have "\<dots> = 2 ^ 53 * 2 powi e" by (simp add: power_int_add)
    finally show ?thesis unfolding x_def by (subst pos_divide_less_eq) simp_all
  qed
  have lo: "2 ^ 52 \<le> x" if "e \<noteq> - 1074"
  proof -
    have eb: "e = b" using that e by (auto simp: max_def split: if_splits)
    have "2 ^ 52 * 2 powi e = (2 powi (52 + b) :: real)" by (simp add: eb power_int_add)
    also have "\<dots> \<le> real_of_int n / real_of_int d"
      using base_exp_bounds(1) [OF n d, of 53] by (simp add: b_def)
    finally show ?thesis unfolding x_def by (subst pos_le_divide_eq) simp_all
  qed
  have x: "real_of_int (n * up2 (- e) div (d * up2 e)) \<le> x"
    "x < real_of_int (n * up2 (- e) div (d * up2 e)) + 1"
    using div_real_bounds [OF dpos, of "n * up2 (- e)"] by (simp_all only: scaled_real [OF d] x_def)
  have nn: "0 \<le> n * up2 (- e) div (d * up2 e)"
    using n dpos by (simp add: pos_imp_zdiv_nonneg_iff less_imp_le)
  have q0: "0 \<le> q" using nn round_even_cases [of "n * up2 (- e)" "d * up2 e"] by (auto simp: q_def)
  have q1: "q \<le> 2 ^ 53"
    using x(1) hi round_even_cases [of "n * up2 (- e)" "d * up2 e"] by (auto simp: q_def)
  have q2: "2 ^ 52 \<le> q" if "e \<noteq> - 1074"
    using x(2) lo [OF that] round_even_cases [of "n * up2 (- e)" "d * up2 e"] by (auto simp: q_def)
  have "- 1074 \<le> e" by (simp add: e)
  then show ?thesis
    using q0 q1 q2 by (auto simp: round_f64_unfold [OF n e_def q_def])
qed

lemma round_f64_exact:
  assumes n: "0 \<le> n" and d: "0 < d" and dvd: "d dvd n" and small: "n div d < 2 ^ 53"
  shows "fin (round_f64 s n d)"
    and "fval (round_f64 s n d) = (if s then - 1 else 1) * real_of_int (n div d)"
proof -
  define e where "e = round_exp 53 (- 1074) n d"
  define q where "q = round_even (n * up2 (- e)) (d * up2 e)"
  obtain k where k: "n = d * k" using dvd by blast
  have goal: "fin (round_f64 s n d) \<and>
      fval (round_f64 s n d) = (if s then - 1 else 1) * real_of_int (n div d)"
  proof (cases "n = 0")
    case True
    then show ?thesis by (simp add: round_f64_def round_gen_def)
  next
    case False
    with n have n: "0 < n" by simp
    have x: "real_of_int n / real_of_int d = real_of_int k" using d by (simp add: k)
    have "2 powi (52 + base_exp 53 n d) \<le> real_of_int k"
      using base_exp_bounds(1) [OF n d, of 53] by (simp add: x)
    also have "\<dots> < 2 powi 53" using small d by (simp add: k)
    finally have "52 + base_exp 53 n d < (53::int)" using power_int_le_imp_less_exp [of "2::real" "52 + base_exp 53 n d" 53] by simp
    then have e: "e \<le> 0" by (simp add: e_def round_exp_base)
    have q: "q = k * up2 (- e)"
      using d e by (simp add: q_def k round_even_exact)
    have "2 powi e * real_of_int (up2 (- e)) = 1"
      using powi_up2 [of e] e by simp
    then have v: "real_of_int q * 2 powi e = real_of_int k"
      by (simp add: q mult.assoc mult.commute [of _ "2 powi e"])
    have v': "2 ^ 52 * 2 powi (e + 1) = real_of_int k" if "q = 2 ^ 53"
      using v that by (simp add: power_int_add)
    have "n div d = k" using d by (simp add: k)
    then show ?thesis
      using e v v' by (simp add: round_f64_unfold [OF n e_def q_def])
  qed
  from goal show "fin (round_f64 s n d)"
    and "fval (round_f64 s n d) = (if s then - 1 else 1) * real_of_int (n div d)" by simp_all
qed


lemma f64_of_int_exact:
  assumes "\<bar>i\<bar> < 2 ^ 53"
  shows "fin (f64_of_int i)" "fval (f64_of_int i) = real_of_int i"
  using round_f64_exact [of "\<bar>i\<bar>" 1 "i < 0"] assms by (auto simp: f64_of_int_def)

lemma f64_add_exact:
  assumes fin: "fin a" "fin b"
    and sum: "fval a + fval b = real_of_int k" and small: "\<bar>k\<bar> < 2 ^ 53"
  shows "fin (f64_add a b)" "fval (f64_add a b) = real_of_int k"
proof -
  from fin obtain s1 m1 e1 s2 m2 e2 where ab: "a = FFin s1 m1 e1" "b = FFin s2 m2 e2"
    by (cases a; cases b) auto
  define E where "E = min e1 e2"
  define t where "t = at_exp s1 m1 e1 E + at_exp s2 m2 e2 E"
  have tk: "real_of_int t * 2 powi E = real_of_int k"
    using sum by (simp add: t_def ab distrib_right at_exp_val E_def del: fval.simps)
  have add: "f64_add a b = (if t = 0 then FFin (s1 \<and> s2) 0 (- 1074)
      else round_f64 (t < 0) (\<bar>t\<bar> * up2 E) (up2 (- E)))"
    by (simp add: ab Let_def E_def t_def)
  have "real_of_int (\<bar>t\<bar> * up2 E) = real_of_int (\<bar>k\<bar> * up2 (- E))"
  proof -
    have "real_of_int \<bar>k\<bar> = \<bar>real_of_int t * 2 powi E\<bar>" by (simp add: tk)
    then have "real_of_int \<bar>k\<bar> = real_of_int \<bar>t\<bar> * 2 powi E" by (simp add: abs_mult)
    then show ?thesis using powi_up2 [of E] by simp
  qed
  then have n: "\<bar>t\<bar> * up2 E = \<bar>k\<bar> * up2 (- E)" by (simp only: of_int_eq_iff)
  have sgn: "t < 0 \<longleftrightarrow> k < 0" "t = 0 \<longleftrightarrow> k = 0"
  proof -
    have "\<not> (2::real) powi E < 0" by (simp add: not_less)
    then have "real_of_int t < 0 \<longleftrightarrow> real_of_int k < 0" "real_of_int t = 0 \<longleftrightarrow> real_of_int k = 0"
      by (auto simp: mult_less_0_iff simp flip: tk)
    then show "t < 0 \<longleftrightarrow> k < 0" "t = 0 \<longleftrightarrow> k = 0" by simp_all
  qed
  have *: "fin (f64_add a b) \<and> fval (f64_add a b) = real_of_int k"
  proof (cases "t = 0")
    case True
    then show ?thesis using sgn by (simp add: add)
  next
    case False
    then show ?thesis
      using round_f64_exact [of "\<bar>t\<bar> * up2 E" "up2 (- E)" "t < 0"] small sgn
      by (simp add: add n)
  qed
  then show "fin (f64_add a b)" "fval (f64_add a b) = real_of_int k" by simp_all
qed

lemma f64_add_wf: "f64_wf (f64_add a b)"
  by (cases a; cases b) (auto simp: Let_def intro!: round_f64_wf mult_nonneg_nonneg)

lemma f64_div_wf: "f64_wf a \<Longrightarrow> f64_wf b \<Longrightarrow> f64_wf (f64_div a b)"
  by (cases a; cases b)
    (auto intro!: round_f64_wf mult_pos_pos mult_nonneg_nonneg simp: less_le)

lemma f64_of_int_wf: "f64_wf (f64_of_int i)"
  by (simp add: f64_of_int_def round_f64_wf)

section \<open>Adding to zero\<close>

lemma bitlen_up2: "0 < n \<Longrightarrow> bitlen (n * up2 k) = bitlen n + max 0 k"
  by (cases "0 \<le> k") (simp_all add: up2_def bitlen_pow2)

lemma base_exp_scale: "0 < n \<Longrightarrow> 0 < d \<Longrightarrow> base_exp p (n * up2 k) (d * up2 k) = base_exp p n d"
proof -
  assume n: "0 < n" "0 < d"
  have "d * up2 k * up2 p * up2 e \<le> n * up2 k * up2 (- e) \<longleftrightarrow> d * up2 p * up2 e \<le> n * up2 (- e)" for e
  proof -
    have "d * up2 k * up2 p * up2 e = up2 k * (d * up2 p * up2 e)"
      "n * up2 k * up2 (- e) = up2 k * (n * up2 (- e))" by (simp_all add: ac_simps)
    then show ?thesis by (simp only: mult_le_cancel_left_pos up2_pos)
  qed
  then show ?thesis using n by (simp add: base_exp_def bitlen_up2)
qed

lemma round_even_scale: "0 < c \<Longrightarrow> round_even (c * n) (c * d) = round_even n d"
proof -
  assume c: "0 < c"
  have "c * d < 2 * (c * (n mod d)) \<longleftrightarrow> d < 2 * (n mod d)"
    using c mult_less_cancel_left_pos [OF c, of d "2 * (n mod d)"] by (simp add: ac_simps)
  then show ?thesis using c by (auto simp: round_even_def Let_def mult_mod_right [symmetric])
qed

lemma round_gen_scale:
  assumes "0 < n" "0 < d"
  shows "round_gen p emin emax s (n * up2 k) (d * up2 k) = round_gen p emin emax s n d"
proof -
  have "round_even (n * up2 k * up2 (- e)) (d * up2 k * up2 e) = round_even (n * up2 (- e)) (d * up2 e)" for e
    using round_even_scale [OF up2_pos, of k "n * up2 (- e)" "d * up2 e"] by (simp add: ac_simps)
  then show ?thesis
    using assms by (simp add: round_gen_def round_exp_base base_exp_scale)
qed

text \<open>A sum that starts from zero: the evaluation rule avoids scaling to the exponent of zero.\<close>

lemma f64_add_zero:
  assumes m: "0 < m" and e: "- 1074 \<le> e"
  shows "f64_add (FFin False 0 (- 1074)) (FFin s m e) = round_f64 s (m * up2 e) (up2 (- e))"
proof -
  have t: "at_exp False 0 (- 1074) (- 1074) = 0"
      "at_exp s m e (- 1074) = (if s then - 1 else 1) * (m * up2 (e + 1074))"
    by (simp_all add: at_exp_def)
  have pos: "0 < m * up2 (e + 1074)" using m by simp
  have "f64_add (FFin False 0 (- 1074)) (FFin s m e) = round_f64 s (m * up2 (e + 1074)) (up2 1074)"
    using pos e t m by (simp add: min_def Let_def abs_mult less_le_not_le)
  also have "\<dots> = round_f64 s (m * up2 e) (up2 (- e))"
  proof (cases "0 \<le> e")
    case True
    have "up2 (e + 1074) = up2 e * up2 1074" using True by (simp add: up2_add)
    then show ?thesis
      using round_gen_scale [of "m * up2 e" 1 53 "- 1074" 971 s 1074] m True
      by (simp add: round_f64_def mult.assoc)
  next
    case False
    have "up2 1074 = up2 (- e) * up2 (e + 1074)" using False e up2_add [of "- e" "e + 1074"] by simp
    then show ?thesis
      using round_gen_scale [of m "up2 (- e)" 53 "- 1074" 971 s "e + 1074"] m False
      by (simp add: round_f64_def)
  qed
  finally show ?thesis .
qed

lemma f64_add_code [code]:
  "f64_add (FFin s1 m1 e1) (FFin s2 m2 e2) =
     (if \<not> s1 \<and> m1 = 0 \<and> e1 = - 1074 \<and> 0 < m2 \<and> - 1074 \<le> e2
      then round_f64 s2 (m2 * up2 e2) (up2 (- e2))
      else let E = min e1 e2; t = at_exp s1 m1 e1 E + at_exp s2 m2 e2 E
      in if t = 0 then FFin (s1 \<and> s2) 0 (- 1074)
         else round_f64 (t < 0) (\<bar>t\<bar> * up2 E) (up2 (- E)))"
  "f64_add (FInf s1) (FInf s2) = (if s1 = s2 then FInf s1 else FNaN)"
  "f64_add (FInf s) (FFin s2 m2 e2) = FInf s"
  "f64_add (FFin s1 m1 e1) (FInf s) = FInf s"
  "f64_add FNaN x = FNaN"
  "f64_add (FInf s) FNaN = FNaN"
  "f64_add (FFin s1 m1 e1) FNaN = FNaN"
  subgoal
    by (cases "\<not> s1 \<and> m1 = 0 \<and> e1 = - 1074 \<and> 0 < m2 \<and> - 1074 \<le> e2")
      (simp only: f64_add_zero simp_thms if_True, simp only: if_False f64_add.simps)
  by simp_all

end
