(* ===== verification/GoValue.thy ===== *)
theory GoValue
  imports GoFloat
begin

text \<open>
  The dynamic values of Go's \<^verbatim>\<open>any\<close> that reach the rule engine (JSON values in event
  fields and rule literals, integers of every width in literals built in code), their
  \<^verbatim>\<open>fmt.Sprintf("%v")\<close> rendering, which the engine compares as strings, and the parts of
  the \<^verbatim>\<open>time\<close> package it uses.
\<close>

section \<open>Dynamic values\<close>

datatype ikind = KInt | KInt8 | KInt16 | KInt32 | KInt64 | KUint | KUint8 | KUint16 | KUint32 | KUint64

text \<open>A \<^verbatim>\<open>float32\<close> is held as the \<open>f64\<close> it converts to; a map lists its entries in
  the order of the keys, which is the order \<^verbatim>\<open>%v\<close> prints.\<close>

datatype gval =
    VNil
  | VBool bool
  | VStr string
  | VF64 f64
  | VF32 f64
  | VInt ikind int
  | VList "gval list"
  | VMap "(string \<times> gval) list"

section \<open>Decimal rendering\<close>

definition digit_char :: "int \<Rightarrow> char" where
  "digit_char d = char_of (48 + nat d)"

function dec_str :: "int \<Rightarrow> string" where
  "dec_str n = (if n < 10 then [digit_char n] else dec_str (n div 10) @ [digit_char (n mod 10)])"
  by pat_completeness auto
termination
  by (relation "measure nat") auto

declare dec_str.simps [simp del]

definition fmt_int :: "int \<Rightarrow> string" where
  "fmt_int i = (if i < 0 then CHR ''-'' # dec_str (- i) else dec_str i)"

text \<open>The number of zeros after the decimal point of \<open>n/d < 1\<close>.\<close>

function lead_zeros :: "int \<Rightarrow> int \<Rightarrow> int" where
  "lead_zeros n d = (if n \<le> 0 \<or> d \<le> 10 * n then 0 else 1 + lead_zeros (10 * n) d)"
  by pat_completeness auto
termination
  by (relation "measure (\<lambda>(n, d). nat (d - n))") auto

declare lead_zeros.simps [simp del]

definition up10 :: "int \<Rightarrow> int" where
  "up10 k = 10 ^ nat k"

definition dec_point :: "int \<Rightarrow> int \<Rightarrow> int" where
  "dec_point n d = (if d \<le> n then int (length (dec_str (n div d))) else - lead_zeros n d)"

text \<open>
  The shortest decimal that rounds to the value (\<^verbatim>\<open>strconv.AppendFloat\<close> with precision
  \<open>-1\<close>): with \<open>k\<close> digits, the candidates are the two \<open>k\<close>-digit decimals around \<open>n/d\<close>; the
  nearer one that rounds back wins, and the first \<open>k\<close> with a candidate is the answer. Seventeen
  digits always suffice for binary64.
\<close>

definition decimal_candidate :: "int \<Rightarrow> int \<Rightarrow> int \<Rightarrow> f64 \<Rightarrow> int \<Rightarrow> int \<Rightarrow> int \<Rightarrow> int \<Rightarrow> int option" where
  "decimal_candidate p emin emax x n d dp k =
     (let sc = k - dp; num = n * up10 sc; den = d * up10 (- sc);
          c = num div den; r = num mod den;
          back = (\<lambda>c. f64_eq (round_gen p emin emax False (c * up10 (- sc)) (up10 sc)) x)
      in if back c \<and> (2 * r \<le> den \<or> \<not> back (c + 1)) then Some c
         else if back (c + 1) then Some (c + 1) else None)"

fun shortest_digits :: "nat \<Rightarrow> int \<Rightarrow> int \<Rightarrow> int \<Rightarrow> f64 \<Rightarrow> int \<Rightarrow> int \<Rightarrow> int \<Rightarrow> int \<Rightarrow> string \<times> int" where
  "shortest_digits 0 p emin emax x n d dp k = (dec_str (n * up10 (k - dp) div (d * up10 (dp - k))), dp)"
| "shortest_digits (Suc fuel) p emin emax x n d dp k =
     (case decimal_candidate p emin emax x n d dp k of
        Some c \<Rightarrow> (let s = dec_str c in (s, dp + int (length s) - k))
      | None \<Rightarrow> shortest_digits fuel p emin emax x n d dp (k + 1))"

definition strip_zeros :: "string \<Rightarrow> string" where
  "strip_zeros s = rev (dropWhile (\<lambda>c. c = CHR ''0'') (rev s))"

text \<open>The \<^verbatim>\<open>%g\<close> layout of the digits with the decimal point after the first \<open>dp\<close> of
  them: exponent form for a decimal exponent below \<open>-4\<close> or from 6 on.\<close>

definition fmt_g :: "string \<Rightarrow> int \<Rightarrow> string" where
  "fmt_g ds dp =
     (let e = dp - 1; nd = int (length ds) in
      if e < - 4 \<or> 6 \<le> e
      then hd ds # (if tl ds = [] then [] else CHR ''.'' # tl ds) @
           CHR ''e'' # (if e < 0 then CHR ''-'' else CHR ''+'') #
           (if \<bar>e\<bar> < 10 then CHR ''0'' # dec_str \<bar>e\<bar> else dec_str \<bar>e\<bar>)
      else if dp \<le> 0 then ''0.'' @ replicate (nat (- dp)) CHR ''0'' @ ds
      else if nd \<le> dp then ds @ replicate (nat (dp - nd)) CHR ''0''
      else take (nat dp) ds @ CHR ''.'' # drop (nat dp) ds)"

fun fmt_float :: "int \<Rightarrow> int \<Rightarrow> int \<Rightarrow> f64 \<Rightarrow> string" where
  "fmt_float p emin emax FNaN = ''NaN''"
| "fmt_float p emin emax (FInf s) = (if s then ''-Inf'' else ''+Inf'')"
| "fmt_float p emin emax (FFin s m e) =
     (if s then ''-'' else []) @
     (if m = 0 then ''0''
      else let n = m * up2 e; d = up2 (- e);
               (ds, dp) = shortest_digits 17 p emin emax (FFin False m e) n d (dec_point n d) 1
           in fmt_g (strip_zeros ds) dp)"

text \<open>\<^verbatim>\<open>fmt.Sprintf("%v", v)\<close>.\<close>

fun join_sp :: "string list \<Rightarrow> string" where
  "join_sp [] = []"
| "join_sp [s] = s"
| "join_sp (s # t # r) = s @ CHR '' '' # join_sp (t # r)"

fun fmt_v :: "gval \<Rightarrow> string" where
  "fmt_v VNil = ''<nil>''"
| "fmt_v (VBool b) = (if b then ''true'' else ''false'')"
| "fmt_v (VStr s) = s"
| "fmt_v (VF64 x) = fmt_float 53 (- 1074) 971 x"
| "fmt_v (VF32 x) = fmt_float 24 (- 149) 104 x"
| "fmt_v (VInt k i) = fmt_int i"
| "fmt_v (VList vs) = CHR ''['' # join_sp (map fmt_v vs) @ '']''"
| "fmt_v (VMap kvs) = ''map['' @ join_sp (map (\<lambda>kv. fst kv @ CHR '':'' # fmt_v (snd kv)) kvs) @ '']''"

section \<open>Decimal numerals determine their number\<close>

definition char_digit :: "char \<Rightarrow> int" where
  "char_digit c = int (of_char c) - 48"

definition undec :: "string \<Rightarrow> int" where
  "undec s = foldl (\<lambda>a c. 10 * a + char_digit c) 0 s"

lemma char_digit_inv: "0 \<le> d \<Longrightarrow> d < 10 \<Longrightarrow> char_digit (digit_char d) = d"
  by (simp add: char_digit_def digit_char_def)

lemma undec_dec_str: "0 \<le> n \<Longrightarrow> undec (dec_str n) = n"
proof (induction n rule: dec_str.induct)
  case (1 n)
  show ?case
  proof (cases "n < 10")
    case True
    with 1 show ?thesis by (simp add: dec_str.simps [of n] undec_def char_digit_inv)
  next
    case False
    with 1 have "undec (dec_str (n div 10)) = n div 10" by simp
    with False show ?thesis
      by (simp add: dec_str.simps [of n] undec_def char_digit_inv)
  qed
qed

lemma dec_str_digits: "0 \<le> n \<Longrightarrow> c \<in> set (dec_str n) \<Longrightarrow> \<exists>d. 0 \<le> d \<and> d < 10 \<and> c = digit_char d"
proof (induction n arbitrary: c rule: dec_str.induct)
  case (1 n)
  show ?case
  proof (cases "n < 10")
    case True
    with 1 show ?thesis by (auto simp: dec_str.simps [of n])
  next
    case False
    with "1.prems" consider "c \<in> set (dec_str (n div 10))" | "c = digit_char (n mod 10)"
      by (auto simp: dec_str.simps [of n])
    then show ?thesis
      using 1 False by cases (auto intro!: exI [of _ "n mod 10"])
  qed
qed

lemma dec_str_nonempty [simp]: "dec_str n \<noteq> []"
  by (subst dec_str.simps) simp

section \<open>Instants and durations\<close>

text \<open>
  A \<^verbatim>\<open>time.Time\<close> is an instant: its nanoseconds since the Unix epoch, as an integer (the
  engine never looks at the location). A \<^verbatim>\<open>time.Duration\<close> is an \<^verbatim>\<open>int64\<close> number of
  nanoseconds. \<^verbatim>\<open>UnixNano\<close> wraps around outside the years 1678 to 2262; \<^verbatim>\<open>Sub\<close>
  saturates.
\<close>

type_synonym time = int
type_synonym duration = int

definition zero_time :: time where
  "zero_time = - 62135596800000000000"

definition Second :: duration where "Second = 1000000000"
definition Minute :: duration where "Minute = 60000000000"
definition Hour :: duration where "Hour = 3600000000000"

definition is_zero_time :: "time \<Rightarrow> bool" where
  "is_zero_time t \<longleftrightarrow> t = zero_time"

definition time_add :: "time \<Rightarrow> duration \<Rightarrow> time" where
  "time_add t d = t + d"

definition time_sub :: "time \<Rightarrow> time \<Rightarrow> duration" where
  "time_sub t u = max (- 9223372036854775808) (min 9223372036854775807 (t - u))"

definition unix_nano :: "time \<Rightarrow> int" where
  "unix_nano t = i64 t"

definition unix_sec :: "time \<Rightarrow> int" where
  "unix_sec t = t div 1000000000"

text \<open>\<^verbatim>\<open>t.Truncate(d)\<close> rounds down to a multiple of \<open>d\<close> since the zero time.\<close>

definition time_truncate :: "time \<Rightarrow> duration \<Rightarrow> time" where
  "time_truncate t d = (if d \<le> 0 then t else t - (t - zero_time) mod d)"

lemma truncate_minute: "time_truncate t Minute = (t div Minute) * Minute"
proof -
  have "(t - zero_time) mod Minute = (t + 1035593280 * Minute) mod Minute"
    by (simp add: zero_time_def Minute_def)
  then have "(t - zero_time) mod Minute = t mod Minute" by simp
  moreover have "0 < Minute" by (simp add: Minute_def)
  ultimately show ?thesis
    by (simp add: time_truncate_def minus_mod_eq_div_mult)
qed

end
