(* ===== verification/RuleModel.thy ===== *)
theory RuleModel
  imports GoValue
begin

text \<open>
  \<^verbatim>\<open>service/base/rule/model\<close>: the rule AST, time windows, aggregate keys and their cache
  keys, the collection of the aggregate keys of a rule, the validation of a rule, and the
  \<^verbatim>\<open>MapContext\<close> evaluation context.
\<close>

section \<open>Rule nodes and windows (entity.go, const.go)\<close>

record time_window =
  tw_Value :: int
  tw_Unit :: string

datatype rule_node = RuleNode
  (nd_Type: string)
  (nd_Children: "rule_node list")
  (nd_Field: string)
  (nd_Operator: string)
  (nd_Value: gval)
  (nd_Window: "time_window option")

definition NodeAnd :: string where "NodeAnd = ''AND''"
definition NodeOr :: string where "NodeOr = ''OR''"
definition NodeNot :: string where "NodeNot = ''NOT''"
definition NodeCondition :: string where "NodeCondition = ''CONDITION''"

lemmas node_types = NodeAnd_def NodeOr_def NodeNot_def NodeCondition_def

text \<open>The method has a nil receiver case; the products are \<^verbatim>\<open>int64\<close> products.\<close>

fun Duration :: "time_window option \<Rightarrow> duration" where
  "Duration None = 0"
| "Duration (Some w) =
     (let u = to_lower (tw_Unit w) in
      if u = ''minutes'' then i64 (tw_Value w * Minute)
      else if u = ''hours'' then i64 (tw_Value w * Hour)
      else if u = ''days'' then i64 (i64 (tw_Value w * 24) * Hour)
      else i64 (tw_Value w * Minute))"

section \<open>Aggregate keys (entity.go)\<close>

record agg_key =
  ak_Field :: string
  ak_Window :: "time_window option"

definition CacheKey :: "agg_key \<Rightarrow> string" where
  "CacheKey k = (case ak_Window k of
     None \<Rightarrow> ak_Field k
   | Some w \<Rightarrow> ak_Field k @ ''|'' @ fmt_int (tw_Value w) @ tw_Unit w)"

text \<open>One key joins the list unless its cache key was seen before.\<close>

definition add_key :: "agg_key \<Rightarrow> string set \<times> agg_key list \<Rightarrow> string set \<times> agg_key list" where
  "add_key k st = (if CacheKey k \<in> fst st then st
                   else (insert (CacheKey k) (fst st), snd st @ [k]))"

fun collectKeys :: "rule_node \<Rightarrow> string set \<times> agg_key list \<Rightarrow> string set \<times> agg_key list"
and collectKeys_children :: "rule_node list \<Rightarrow> string set \<times> agg_key list \<Rightarrow> string set \<times> agg_key list"
where
  "collectKeys (RuleNode ty children field op val window) st =
     (if ty = NodeCondition then
        (if contains_char CHR '':'' field
         then add_key \<lparr>ak_Field = field, ak_Window = window\<rparr> st
         else st)
      else collectKeys_children children st)"
| "collectKeys_children [] st = st"
| "collectKeys_children (c # cs) st = collectKeys_children cs (collectKeys c st)"

definition CollectAggregateKeys :: "rule_node \<Rightarrow> agg_key list" where
  "CollectAggregateKeys node = snd (collectKeys node ({}, []))"

section \<open>Errors of the rule package\<close>

datatype rule_error =
    EInvalidAggregation string
  | EInvalidFieldPath string
  | EAggregateShape string
  | EField string rule_error        \<comment> \<open>wrapped with the field\<close>
  | EValue rule_error               \<comment> \<open>wrapped as the condition's value\<close>
  | ECompileNodeType string
  | ECompileNotArity nat
  | ECompileOperator string
  | EEvaluateNodeType string
  | EEvaluateNotArity nat
  | EEvaluateNumericOperator string
  | EEvaluateStringOperator string
  | ENumericOperands
  | EInNeedsList
  | EResolve string                 \<comment> \<open>an error of the context\<close>

section \<open>Validation (validate.go)\<close>

definition allowedAggregations :: "string set" where
  "allowedAggregations = {''COUNT'', ''SUM'', ''AVG'', ''MAX'', ''MIN''}"

definition ValidateAggregation :: "string \<Rightarrow> rule_error option" where
  "ValidateAggregation agg =
     (if to_upper agg \<in> allowedAggregations then None else Some (EInvalidAggregation agg))"

definition letter_or_underscore :: "char \<Rightarrow> bool" where
  "letter_or_underscore c \<longleftrightarrow>
     (let n = of_char c :: nat in (97 \<le> n \<and> n \<le> 122) \<or> (65 \<le> n \<and> n \<le> 90) \<or> n = 95)"

definition decimal_digit :: "char \<Rightarrow> bool" where
  "decimal_digit c \<longleftrightarrow> (let n = of_char c :: nat in 48 \<le> n \<and> n \<le> 57)"

text \<open>The regular expression \<^verbatim>\<open>^[a-zA-Z_][a-zA-Z0-9_]*$\<close>.\<close>

fun identifierRe :: "string \<Rightarrow> bool" where
  "identifierRe [] = False"
| "identifierRe (c # s) =
     (letter_or_underscore c \<and> list_all (\<lambda>x. letter_or_underscore x \<or> decimal_digit x) s)"

definition ValidateFieldPath :: "string \<Rightarrow> rule_error option" where
  "ValidateFieldPath fieldPath =
     (if fieldPath = [] then None
      else if \<not> identifierRe fieldPath then Some (EInvalidFieldPath fieldPath)
      else None)"

definition ValidateCondition :: "string \<Rightarrow> rule_error option" where
  "ValidateCondition field =
     (if contains_char CHR '':'' field then
        (let parts = split_n CHR '':'' 3 field in
         if length parts < 2 then Some (EAggregateShape field)
         else case ValidateAggregation (parts ! 1) of
           Some e \<Rightarrow> Some (EField field e)
         | None \<Rightarrow>
             (if length parts = 3 then
                (case ValidateFieldPath (parts ! 2) of
                   Some e \<Rightarrow> Some (EField field e)
                 | None \<Rightarrow> None)
              else None))
      else None)"

fun ValidateRuleNode :: "rule_node \<Rightarrow> rule_error option"
and ValidateRuleNode_children :: "rule_node list \<Rightarrow> rule_error option"
where
  "ValidateRuleNode (RuleNode ty children field op val window) =
     (if ty = NodeCondition then ValidateCondition field else ValidateRuleNode_children children)"
| "ValidateRuleNode_children [] = None"
| "ValidateRuleNode_children (c # cs) =
     (case ValidateRuleNode c of Some e \<Rightarrow> Some e | None \<Rightarrow> ValidateRuleNode_children cs)"

section \<open>Evaluation contexts (interface.go, context.go)\<close>

record eval_ctx =
  Resolve :: "string \<Rightarrow> time_window option \<Rightarrow> rule_error + gval"
  GetVariable :: "string \<Rightarrow> gval option"

record map_context =
  mc_fields :: "string \<rightharpoonup> gval"
  mc_variables :: "string \<rightharpoonup> gval"

definition NewMapContext :: "(string \<rightharpoonup> gval) \<Rightarrow> map_context" where
  "NewMapContext fs = \<lparr>mc_fields = fs, mc_variables = Map.empty\<rparr>"

definition WithVariables :: "map_context \<Rightarrow> (string \<rightharpoonup> gval) \<Rightarrow> map_context" where
  "WithVariables c vars = \<lparr>mc_fields = mc_fields c, mc_variables = mc_variables c ++ vars\<rparr>"

definition MapContext_Resolve :: "map_context \<Rightarrow> string \<Rightarrow> time_window option \<Rightarrow> rule_error + gval" where
  "MapContext_Resolve c field w = (case mc_fields c field of None \<Rightarrow> Inr VNil | Some v \<Rightarrow> Inr v)"

definition MapContext_GetVariable :: "map_context \<Rightarrow> string \<Rightarrow> gval option" where
  "MapContext_GetVariable c name = mc_variables c name"

definition MapContext_ctx :: "map_context \<Rightarrow> eval_ctx" where
  "MapContext_ctx c = \<lparr>Resolve = MapContext_Resolve c, GetVariable = MapContext_GetVariable c\<rparr>"

section \<open>The aggregate conditions of a rule\<close>

text \<open>The conditions \<^verbatim>\<open>collectKeys\<close> reaches: its own walk, as a list.\<close>

fun conditions :: "rule_node \<Rightarrow> rule_node list" where
  "conditions (RuleNode ty children field op val window) =
     (if ty = NodeCondition then [RuleNode ty children field op val window]
      else concat (map conditions children))"

definition aggregate_keys_of :: "rule_node \<Rightarrow> agg_key list" where
  "aggregate_keys_of node =
     map (\<lambda>c. \<lparr>ak_Field = nd_Field c, ak_Window = nd_Window c\<rparr>)
       (filter (\<lambda>c. contains_char CHR '':'' (nd_Field c)) (conditions node))"

definition add_keys :: "agg_key list \<Rightarrow> string set \<times> agg_key list \<Rightarrow> string set \<times> agg_key list" where
  "add_keys ks st = fold add_key ks st"

lemma add_keys_simps [simp]:
  "add_keys [] st = st"
  "add_keys (k # ks) st = add_keys ks (add_key k st)"
  "add_keys (ks @ ls) st = add_keys ls (add_keys ks st)"
  by (simp_all add: add_keys_def)

lemma collectKeys_add_keys:
  "collectKeys node st = add_keys (aggregate_keys_of node) st"
  "collectKeys_children cs st = add_keys (concat (map aggregate_keys_of cs)) st"
proof (induction node st and cs st rule: collectKeys_collectKeys_children.induct)
  case (1 ty children field op val window st)
  then show ?case
    by (auto simp: aggregate_keys_of_def filter_concat map_concat comp_def)
qed (auto simp: aggregate_keys_of_def)

text \<open>What the deduplicated list holds: distinct cache keys, and for every key offered one with
  the same cache key.\<close>

definition keys_inv :: "string set \<times> agg_key list \<Rightarrow> bool" where
  "keys_inv st \<longleftrightarrow> fst st = CacheKey ` set (snd st) \<and> distinct (map CacheKey (snd st))"

lemma add_key_inv: "keys_inv st \<Longrightarrow> keys_inv (add_key k st)"
  by (auto simp: keys_inv_def add_key_def)

lemma add_key_mono: "set (snd st) \<subseteq> set (snd (add_key k st))"
  and add_key_subset: "set (snd (add_key k st)) \<subseteq> insert k (set (snd st))"
  and add_key_covers: "keys_inv st \<Longrightarrow> CacheKey k \<in> CacheKey ` set (snd (add_key k st))"
  by (auto simp: add_key_def keys_inv_def)

lemma add_keys_inv: "keys_inv st \<Longrightarrow> keys_inv (add_keys ks st)"
  by (induction ks arbitrary: st) (simp_all add: add_key_inv del: split_paired_All)

lemma add_keys_mono: "set (snd st) \<subseteq> set (snd (add_keys ks st))"
proof (induction ks arbitrary: st)
  case (Cons k ks)
  from add_key_mono [of st k] Cons [of "add_key k st"] show ?case by (simp add: order_trans)
qed simp

lemma add_keys_subset: "set (snd (add_keys ks st)) \<subseteq> set ks \<union> set (snd st)"
proof (induction ks arbitrary: st)
  case (Cons k ks)
  from Cons [of "add_key k st"] add_key_subset [of k st] show ?case by auto
qed simp

lemma add_keys_covers:
  "keys_inv st \<Longrightarrow> k \<in> set ks \<Longrightarrow> CacheKey k \<in> CacheKey ` set (snd (add_keys ks st))"
proof (induction ks arbitrary: st)
  case (Cons k' ks)
  show ?case
  proof (cases "k = k'")
    case True
    with add_key_covers [OF Cons.prems(1), of k] add_keys_mono [of "add_key k st" ks] show ?thesis
      by auto
  next
    case False
    with Cons.prems Cons.IH [OF add_key_inv] show ?thesis by simp
  qed
qed simp

lemma keys_inv_empty [simp]: "keys_inv ({}, [])"
  by (simp add: keys_inv_def)

lemma CollectAggregateKeys_eq:
  "CollectAggregateKeys node = snd (add_keys (aggregate_keys_of node) ({}, []))"
  by (simp add: CollectAggregateKeys_def collectKeys_add_keys)

lemma CollectAggregateKeys_distinct: "distinct (map CacheKey (CollectAggregateKeys node))"
  using add_keys_inv [OF keys_inv_empty] by (simp add: CollectAggregateKeys_eq keys_inv_def)

lemma CollectAggregateKeys_covers:
  "k \<in> set (aggregate_keys_of node) \<Longrightarrow> CacheKey k \<in> CacheKey ` set (CollectAggregateKeys node)"
  unfolding CollectAggregateKeys_eq by (rule add_keys_covers [OF keys_inv_empty])

lemma CollectAggregateKeys_sound:
  "set (CollectAggregateKeys node) \<subseteq> set (aggregate_keys_of node)"
  using add_keys_subset [of "aggregate_keys_of node" "({}, [])"] by (simp add: CollectAggregateKeys_eq)

end
