(* ===== verification/RuleEval.thy ===== *)
theory RuleEval
  imports RuleModel
begin

text \<open>
  \<^verbatim>\<open>service/base/rule/usecase\<close>: the tree-walking evaluator (rule.go), the compiler of a rule
  into closures (compile.go), the preloaded evaluation context (preloaded_context.go) and the
  aggregate-key helpers (aggregate.go). The interface \<^verbatim>\<open>EvalContext\<close> is the locale
  \<open>eval_context\<close>; under its law the compiled closure and the evaluator agree on every node.
\<close>

section \<open>Values (rule.go)\<close>

fun toFloat64 :: "gval \<Rightarrow> f64 option" where
  "toFloat64 (VF64 n) = Some n"
| "toFloat64 (VF32 n) = Some n"
| "toFloat64 (VInt k n) = Some (f64_of_int n)"
| "toFloat64 _ = None"

section \<open>The evaluator (rule.go)\<close>

definition resolveRHS :: "gval \<Rightarrow> eval_ctx \<Rightarrow> rule_error + gval" where
  "resolveRHS val ctx = (case val of
     VStr s \<Rightarrow>
       (if \<not> has_prefix s ''$'' then Inr val
        else case GetVariable ctx (drop 1 s) of None \<Rightarrow> Inr val | Some v \<Rightarrow> Inr v)
   | _ \<Rightarrow> Inr val)"

definition resolveValue :: "string \<Rightarrow> time_window option \<Rightarrow> eval_ctx \<Rightarrow> rule_error + gval" where
  "resolveValue field window ctx =
     (if has_prefix field ''$'' then
        (case GetVariable ctx (drop 1 field) of None \<Rightarrow> Inr VNil | Some v \<Rightarrow> Inr v)
      else Resolve ctx field window)"

definition compareNumbers :: "string \<Rightarrow> f64 \<Rightarrow> f64 \<Rightarrow> rule_error + bool" where
  "compareNumbers op lhs rhs =
     (if op = ''>'' then Inr (rhs < lhs)
      else if op = ''<'' then Inr (lhs < rhs)
      else if op = ''>='' then Inr (rhs \<le> lhs)
      else if op = ''<='' then Inr (lhs \<le> rhs)
      else if op = ''='' \<or> op = ''=='' then Inr (f64_eq lhs rhs)
      else if op = ''!='' then Inr (\<not> f64_eq lhs rhs)
      else Inl (EEvaluateNumericOperator op))"

definition compareStrings :: "string \<Rightarrow> string \<Rightarrow> string \<Rightarrow> rule_error + bool" where
  "compareStrings op lhs rhs =
     (if op = ''='' \<or> op = ''=='' then Inr (lhs = rhs)
      else if op = ''!='' then Inr (lhs \<noteq> rhs)
      else Inl (EEvaluateStringOperator op))"

fun evalIn :: "gval \<Rightarrow> gval \<Rightarrow> rule_error + bool" where
  "evalIn actual (VList items) = Inr (list_ex (\<lambda>item. fmt_v actual = fmt_v item) items)"
| "evalIn actual _ = Inl EInNeedsList"

definition evalCondition :: "rule_node \<Rightarrow> eval_ctx \<Rightarrow> rule_error + bool" where
  "evalCondition node ctx =
     (case resolveValue (nd_Field node) (nd_Window node) ctx of
        Inl e \<Rightarrow> Inl (EField (nd_Field node) e)
      | Inr actual \<Rightarrow>
          (case resolveRHS (nd_Value node) ctx of
             Inl e \<Rightarrow> Inl (EValue e)
           | Inr expected \<Rightarrow>
               (let op = to_upper (nd_Operator node) in
                if op = ''IN'' then evalIn actual expected
                else if op = ''NOT_IN'' then map_sum id Not (evalIn actual expected)
                else case (toFloat64 actual, toFloat64 expected) of
                  (Some l, Some r) \<Rightarrow> compareNumbers op l r
                | _ \<Rightarrow> compareStrings op (fmt_v actual) (fmt_v expected))))"

fun Evaluate :: "rule_node \<Rightarrow> eval_ctx \<Rightarrow> rule_error + bool"
and evalAnd :: "rule_node list \<Rightarrow> eval_ctx \<Rightarrow> rule_error + bool"
and evalOr :: "rule_node list \<Rightarrow> eval_ctx \<Rightarrow> rule_error + bool"
and evalNot :: "rule_node list \<Rightarrow> eval_ctx \<Rightarrow> rule_error + bool"
where
  "Evaluate (RuleNode ty children field op val window) ctx =
     (if ty = NodeAnd then evalAnd children ctx
      else if ty = NodeOr then evalOr children ctx
      else if ty = NodeNot then evalNot children ctx
      else if ty = NodeCondition then evalCondition (RuleNode ty children field op val window) ctx
      else Inl (EEvaluateNodeType ty))"
| "evalAnd [] ctx = Inr True"
| "evalAnd (c # cs) ctx =
     (case Evaluate c ctx of Inl e \<Rightarrow> Inl e | Inr ok \<Rightarrow> if \<not> ok then Inr False else evalAnd cs ctx)"
| "evalOr [] ctx = Inr False"
| "evalOr (c # cs) ctx =
     (case Evaluate c ctx of Inl e \<Rightarrow> Inl e | Inr ok \<Rightarrow> if ok then Inr True else evalOr cs ctx)"
| "evalNot [c] ctx = (case Evaluate c ctx of Inl e \<Rightarrow> Inl e | Inr ok \<Rightarrow> Inr (\<not> ok))"
| "evalNot cs ctx = Inl (EEvaluateNotArity (length cs))"

section \<open>The compiler (compile.go)\<close>

type_synonym compiled_rule = "eval_ctx \<Rightarrow> rule_error + bool"
type_synonym value_resolver = "eval_ctx \<Rightarrow> rule_error + gval"
type_synonym comparator = "gval \<Rightarrow> gval \<Rightarrow> rule_error + bool"

definition buildLHSResolver :: "string \<Rightarrow> bool \<Rightarrow> bool \<Rightarrow> time_window option \<Rightarrow> value_resolver" where
  "buildLHSResolver field isVar isAggregate window =
     (if isVar then (\<lambda>ctx. Inr (case GetVariable ctx (drop 1 field) of None \<Rightarrow> VNil | Some v \<Rightarrow> v))
      else if isAggregate then (\<lambda>ctx. Resolve ctx field window)
      else (\<lambda>ctx. Resolve ctx field None))"

definition buildRHSResolver :: "gval \<Rightarrow> bool \<Rightarrow> string \<Rightarrow> value_resolver" where
  "buildRHSResolver val isVar varRef =
     (if isVar then
        (\<lambda>ctx. case GetVariable ctx (drop 1 varRef) of None \<Rightarrow> Inr (VStr varRef) | Some v \<Rightarrow> Inr v)
      else (\<lambda>ctx. Inr val))"

fun cmpIn :: "gval \<Rightarrow> gval \<Rightarrow> rule_error + bool" where
  "cmpIn actual (VList items) = Inr (list_ex (\<lambda>item. fmt_v actual = fmt_v item) items)"
| "cmpIn actual _ = Inl EInNeedsList"

definition numericOrStringCmp ::
    "(f64 \<Rightarrow> f64 \<Rightarrow> bool) \<Rightarrow> (string \<Rightarrow> string \<Rightarrow> bool) option \<Rightarrow> comparator" where
  "numericOrStringCmp numFn strFn lhs rhs =
     (case (toFloat64 lhs, toFloat64 rhs) of
        (Some l, Some r) \<Rightarrow> Inr (numFn l r)
      | _ \<Rightarrow> (case strFn of
                Some f \<Rightarrow> Inr (f (fmt_v lhs) (fmt_v rhs))
              | None \<Rightarrow> Inl ENumericOperands))"

definition buildComparator :: "string \<Rightarrow> rule_error + comparator" where
  "buildComparator op =
     (if op = ''IN'' then Inr cmpIn
      else if op = ''NOT_IN'' then Inr (\<lambda>lhs rhs. map_sum id Not (cmpIn lhs rhs))
      else if op = ''>'' then Inr (numericOrStringCmp (\<lambda>l r. r < l) None)
      else if op = ''<'' then Inr (numericOrStringCmp (\<lambda>l r. l < r) None)
      else if op = ''>='' then Inr (numericOrStringCmp (\<lambda>l r. r \<le> l) None)
      else if op = ''<='' then Inr (numericOrStringCmp (\<lambda>l r. l \<le> r) None)
      else if op = ''='' \<or> op = ''=='' then Inr (numericOrStringCmp f64_eq (Some (\<lambda>l r. l = r)))
      else if op = ''!='' then
        Inr (numericOrStringCmp (\<lambda>l r. \<not> f64_eq l r) (Some (\<lambda>l r. l \<noteq> r)))
      else Inl (ECompileOperator op))"

definition compileCondition :: "rule_node \<Rightarrow> rule_error + compiled_rule" where
  "compileCondition node =
     (let op = to_upper (nd_Operator node); field = nd_Field node; window = nd_Window node;
          val = nd_Value node;
          fieldIsVar = has_prefix field ''$'';
          fieldIsAggregate = (\<not> fieldIsVar \<and> contains_char CHR '':'' field);
          (rhsStr, rhsIsVarRef) = (case val of VStr s \<Rightarrow> (s, True) | _ \<Rightarrow> ([], False));
          rhsIsVar = (rhsIsVarRef \<and> has_prefix rhsStr ''$'');
          lhs = buildLHSResolver field fieldIsVar fieldIsAggregate window;
          rhs = buildRHSResolver val rhsIsVar rhsStr
      in case buildComparator op of
           Inl e \<Rightarrow> Inl e
         | Inr cmp \<Rightarrow>
             Inr (\<lambda>ctx. case lhs ctx of
                Inl e \<Rightarrow> Inl (EField field e)
              | Inr l \<Rightarrow> (case rhs ctx of Inl e \<Rightarrow> Inl (EValue e) | Inr r \<Rightarrow> cmp l r)))"

text \<open>The closures built for AND, OR and NOT.\<close>

fun run_and :: "compiled_rule list \<Rightarrow> compiled_rule" where
  "run_and [] ctx = Inr True"
| "run_and (f # fs) ctx =
     (case f ctx of Inl e \<Rightarrow> Inl e | Inr ok \<Rightarrow> if \<not> ok then Inr False else run_and fs ctx)"

fun run_or :: "compiled_rule list \<Rightarrow> compiled_rule" where
  "run_or [] ctx = Inr False"
| "run_or (f # fs) ctx =
     (case f ctx of Inl e \<Rightarrow> Inl e | Inr ok \<Rightarrow> if ok then Inr True else run_or fs ctx)"

fun Compile :: "rule_node \<Rightarrow> rule_error + compiled_rule"
and compileAll :: "rule_node list \<Rightarrow> rule_error + compiled_rule list"
and compileAnd :: "rule_node list \<Rightarrow> rule_error + compiled_rule"
and compileOr :: "rule_node list \<Rightarrow> rule_error + compiled_rule"
and compileNot :: "rule_node list \<Rightarrow> rule_error + compiled_rule"
where
  "Compile (RuleNode ty children field op val window) =
     (if ty = NodeAnd then compileAnd children
      else if ty = NodeOr then compileOr children
      else if ty = NodeNot then compileNot children
      else if ty = NodeCondition then compileCondition (RuleNode ty children field op val window)
      else Inl (ECompileNodeType ty))"
| "compileAll [] = Inr []"
| "compileAll (c # cs) =
     (case Compile c of
        Inl e \<Rightarrow> Inl e
      | Inr f \<Rightarrow> (case compileAll cs of Inl e \<Rightarrow> Inl e | Inr fs \<Rightarrow> Inr (f # fs)))"
| "compileAnd children =
     (case compileAll children of Inl e \<Rightarrow> Inl e | Inr fs \<Rightarrow> Inr (run_and fs))"
| "compileOr children =
     (case compileAll children of Inl e \<Rightarrow> Inl e | Inr fs \<Rightarrow> Inr (run_or fs))"
| "compileNot [c] =
     (case Compile c of
        Inl e \<Rightarrow> Inl e
      | Inr f \<Rightarrow> Inr (\<lambda>ctx. case f ctx of Inl e \<Rightarrow> Inl e | Inr ok \<Rightarrow> Inr (\<not> ok)))"
| "compileNot cs = Inl (ECompileNotArity (length cs))"

section \<open>Preloaded context and key helpers (preloaded\_context.go, aggregate.go)\<close>

record preloaded_context =
  pc_fields :: "string \<rightharpoonup> gval"
  pc_cache :: "string \<rightharpoonup> gval"
  pc_variables :: "string \<rightharpoonup> gval"

definition NewPreloadedEvalContext :: "(string \<rightharpoonup> gval) \<Rightarrow> (string \<rightharpoonup> gval) \<Rightarrow> preloaded_context" where
  "NewPreloadedEvalContext fs cache =
     \<lparr>pc_fields = fs, pc_cache = cache, pc_variables = Map.empty\<rparr>"

text \<open>A missing key of a Go map reads as the zero value, here \<^verbatim>\<open>nil\<close>.\<close>

definition Preloaded_Resolve :: "preloaded_context \<Rightarrow> string \<Rightarrow> time_window option \<Rightarrow> rule_error + gval" where
  "Preloaded_Resolve c field window =
     (if \<not> contains_char CHR '':'' field
      then Inr (case pc_fields c field of None \<Rightarrow> VNil | Some v \<Rightarrow> v)
      else Inr (case pc_cache c (CacheKey \<lparr>ak_Field = field, ak_Window = window\<rparr>) of
                  None \<Rightarrow> VNil | Some v \<Rightarrow> v))"

definition Preloaded_GetVariable :: "preloaded_context \<Rightarrow> string \<Rightarrow> gval option" where
  "Preloaded_GetVariable c name = pc_variables c name"

definition Preloaded_ctx :: "preloaded_context \<Rightarrow> eval_ctx" where
  "Preloaded_ctx c = \<lparr>Resolve = Preloaded_Resolve c, GetVariable = Preloaded_GetVariable c\<rparr>"

record compiled_strategy =
  cs_ID :: uint64
  cs_Name :: string
  cs_Eval :: compiled_rule
  cs_AggregateKeys :: "agg_key list"

record compiled_rule_set =
  rs_Strategies :: "compiled_strategy list"
  rs_MaxWindow :: duration

text \<open>The two nested loops share the set \<^verbatim>\<open>seen\<close>.\<close>

definition CollectUniqueAggregateKeys :: "compiled_strategy list \<Rightarrow> agg_key list" where
  "CollectUniqueAggregateKeys strategies =
     snd (fold (\<lambda>cs st. fold add_key (cs_AggregateKeys cs) st) strategies ({}, []))"

definition MaxWindowFromKeys :: "agg_key list \<Rightarrow> duration" where
  "MaxWindowFromKeys keys =
     fold (\<lambda>k mx. let d = Duration (ak_Window k) in if mx < d then d else mx) keys 0"

section \<open>The context interface and compiled equals evaluated\<close>

text \<open>The boolean or the fact of an error: what the engine looks at.\<close>

fun outcome :: "'e + 'a \<Rightarrow> 'a option" where
  "outcome (Inl e) = None"
| "outcome (Inr x) = Some x"

text \<open>
  \<^verbatim>\<open>EvalContext\<close>: the window is part of the question only for an aggregate field (one
  with a colon). The compiler passes a nil window for every other field, the evaluator passes
  whatever the node says.
\<close>

locale eval_context =
  fixes ctx :: eval_ctx
  assumes window_only_for_aggregates:
    "\<not> contains_char CHR '':'' field \<Longrightarrow> Resolve ctx field w = Resolve ctx field None"
begin

lemma resolve_lhs:
  "buildLHSResolver f (has_prefix f ''$'') (\<not> has_prefix f ''$'' \<and> contains_char CHR '':'' f) w ctx
    = resolveValue f w ctx"
  using window_only_for_aggregates [of f w]
  by (auto simp: buildLHSResolver_def resolveValue_def split: option.splits)

lemma resolve_rhs:
  "(case v of VStr s \<Rightarrow> (s, True) | _ \<Rightarrow> ([], False)) = (s, b) \<Longrightarrow>
    buildRHSResolver v (b \<and> has_prefix s ''$'') s ctx = resolveRHS v ctx"
  by (cases v) (auto simp: buildRHSResolver_def resolveRHS_def split: option.splits)

lemma cmpIn_evalIn: "cmpIn l r = evalIn l r"
  by (cases r) auto

lemma comparator_agrees:
  assumes "buildComparator op = Inr cmp"
  shows "outcome (cmp l r) = outcome
    (if op = ''IN'' then evalIn l r
     else if op = ''NOT_IN'' then map_sum id Not (evalIn l r)
     else case (toFloat64 l, toFloat64 r) of
       (Some x, Some y) \<Rightarrow> compareNumbers op x y
     | _ \<Rightarrow> compareStrings op (fmt_v l) (fmt_v r))"
proof -
  have "op = ''IN'' \<or> op = ''NOT_IN'' \<or> op = ''>'' \<or> op = ''<'' \<or> op = ''>='' \<or>
      op = ''<='' \<or> op = ''='' \<or> op = ''=='' \<or> op = ''!=''"
    using assms by (auto simp: buildComparator_def split: if_splits)
  then show ?thesis
    using assms
    by (elim disjE) (auto simp: buildComparator_def numericOrStringCmp_def compareNumbers_def
        compareStrings_def cmpIn_evalIn split: option.splits)
qed

lemma condition_agrees:
  assumes "compileCondition node = Inr f"
  shows "outcome (f ctx) = outcome (evalCondition node ctx)"
proof -
  obtain s b where sb: "(case nd_Value node of VStr s \<Rightarrow> (s, True) | _ \<Rightarrow> ([], False)) = (s, b)"
    by fastforce
  obtain cmp where cmp: "buildComparator (to_upper (nd_Operator node)) = Inr cmp"
    using assms by (auto simp: compileCondition_def Let_def sb split: sum.splits)
  have f: "f ctx = (case resolveValue (nd_Field node) (nd_Window node) ctx of
      Inl e \<Rightarrow> Inl (EField (nd_Field node) e)
    | Inr l \<Rightarrow> (case resolveRHS (nd_Value node) ctx of Inl e \<Rightarrow> Inl (EValue e) | Inr r \<Rightarrow> cmp l r))"
    using assms unfolding compileCondition_def Let_def sb cmp
    by (auto simp only: prod.case sum.case resolve_lhs resolve_rhs [OF sb] sum.inject)
  show ?thesis
    unfolding f evalCondition_def Let_def using comparator_agrees [OF cmp]
    by (auto split: sum.splits)
qed

lemma outcome_NoneD: "outcome r = None \<Longrightarrow> \<exists>e. r = Inl e"
  and outcome_SomeD: "outcome r = Some x \<Longrightarrow> r = Inr x"
  by (cases r; simp)+

lemma compile_agrees:
  "Compile node = Inr f \<Longrightarrow> outcome (f ctx) = outcome (Evaluate node ctx)"
  "compileAll cs = Inr fs \<Longrightarrow> outcome (run_and fs ctx) = outcome (evalAnd cs ctx) \<and>
     outcome (run_or fs ctx) = outcome (evalOr cs ctx)"
  "compileAnd cs = Inr f \<Longrightarrow> outcome (f ctx) = outcome (evalAnd cs ctx)"
  "compileOr cs = Inr f \<Longrightarrow> outcome (f ctx) = outcome (evalOr cs ctx)"
  "compileNot cs = Inr f \<Longrightarrow> outcome (f ctx) = outcome (evalNot cs ctx)"
proof (induction node and cs and cs and cs and cs arbitrary: f and fs and f and f and f
    rule: Compile_compileAll_compileAnd_compileOr_compileNot.induct)
  case (1 ty children field op val window)
  consider "ty = NodeAnd" | "ty = NodeOr" | "ty = NodeNot" | "ty = NodeCondition"
    using "1.prems" by (auto split: if_splits)
  then show ?case
    using 1 by cases (simp_all add: node_types condition_agrees)
next
  case (3 c cs)
  then obtain g gs where g: "Compile c = Inr g" "compileAll cs = Inr gs" "fs = g # gs"
    by (auto split: sum.splits)
  have c: "outcome (g ctx) = outcome (Evaluate c ctx)"
    and cs: "outcome (run_and gs ctx) = outcome (evalAnd cs ctx)"
      "outcome (run_or gs ctx) = outcome (evalOr cs ctx)"
    using 3 g by auto
  show ?case
    using c cs unfolding g by (cases "g ctx"; cases "Evaluate c ctx") auto
next
  case (6 c)
  then obtain g where g: "Compile c = Inr g"
      "f = (\<lambda>ctx. case g ctx of Inl e \<Rightarrow> Inl e | Inr ok \<Rightarrow> Inr (\<not> ok))"
    by (auto split: sum.splits)
  have "outcome (g ctx) = outcome (Evaluate c ctx)" using 6 g by auto
  then show ?case unfolding g by (cases "g ctx"; cases "Evaluate c ctx") auto
qed (auto split: sum.splits)

end

interpretation map_ctx: eval_context "MapContext_ctx c" for c
  by unfold_locales (simp add: MapContext_ctx_def MapContext_Resolve_def)

interpretation preloaded_ctx: eval_context "Preloaded_ctx c" for c
  by unfold_locales (simp add: Preloaded_ctx_def Preloaded_Resolve_def)

end
