(* ===== verification/State.thy ===== *)
theory State
  imports RuleEval
begin

text \<open>
  The data of the engine: the CEP model (\<^verbatim>\<open>service/base/cep/model/entity.go\<close>), the
  behavioural event (\<^verbatim>\<open>service/base/behavior/model/entity.go\<close>) and a member's state
  (\<^verbatim>\<open>service/engine/core/state.go\<close>), as values. How members are shared between the live
  state and a snapshot is in \<^verbatim>\<open>MemberStore\<close>.
\<close>

section \<open>Events\<close>

record behavior_event =
  ev_EventID :: string
  ev_MemberID :: string
  ev_Behavior :: string
  ev_Fields :: "string \<rightharpoonup> gval"
  ev_OccurredAt :: time

record cep_event =
  ce_EventID :: string
  ce_MemberID :: string
  ce_Behavior :: string
  ce_Fields :: "string \<rightharpoonup> gval"
  ce_OccurredAt :: time

section \<open>CEP patterns, progresses and matches\<close>

text \<open>A pattern's bindings are a map from variable names to \<^verbatim>\<open>"$event.field"\<close> sources.\<close>

record pattern_state =
  st_Name :: string
  st_Condition :: rule_node
  st_MaxWait :: "time_window option"
  st_IsNegative :: bool
  st_ContextBinding :: "string \<rightharpoonup> string"

record cep_pattern =
  pt_ID :: string
  pt_Name :: string
  pt_States :: "pattern_state list"

record progress =
  pg_ID :: string
  pg_PatternID :: string
  pg_MemberID :: string
  pg_CurrentStep :: nat
  pg_Variables :: "string \<rightharpoonup> gval"
  pg_StartedAt :: time
  pg_ExpiresAt :: time
  pg_ProcessedEvents :: "string list"
  pg_NegativeDeadline :: time

record match_result =
  mr_PatternID :: string
  mr_PatternName :: string
  mr_MemberID :: string
  mr_Variables :: "string \<rightharpoonup> gval"
  mr_MatchedAt :: time

section \<open>Member state\<close>

text \<open>\<^verbatim>\<open>ProcessedEventIDs\<close> is a map to the empty struct: a set.\<close>

record bucket_data =
  bk_Count :: uint64
  bk_Sums :: "string \<rightharpoonup> f64"
  bk_Maxs :: "string \<rightharpoonup> f64"
  bk_Mins :: "string \<rightharpoonup> f64"
  bk_ProcessedEventIDs :: "string set"

definition newBucketData :: bucket_data where
  "newBucketData = \<lparr>bk_Count = 0, bk_Sums = Map.empty, bk_Maxs = Map.empty, bk_Mins = Map.empty,
     bk_ProcessedEventIDs = {}\<rparr>"

record behavior_agg =
  ag_Buckets :: "int \<rightharpoonup> bucket_data"

definition newBehaviorAgg :: behavior_agg where
  "newBehaviorAgg = \<lparr>ag_Buckets = Map.empty\<rparr>"

record member_state =
  ms_MemberID :: string
  ms_Aggregations :: "string \<rightharpoonup> behavior_agg"
  ms_Progresses :: "string \<rightharpoonup> progress"
  ms_LastSeenAt :: time
  ms_version :: uint64

definition newMemberState :: "string \<Rightarrow> member_state" where
  "newMemberState memberID =
     \<lparr>ms_MemberID = memberID, ms_Aggregations = Map.empty, ms_Progresses = Map.empty,
      ms_LastSeenAt = zero_time, ms_version = 0\<rparr>"

end
