(* ===== verification/NegQueue.thy ===== *)
theory NegQueue
  imports State
begin

text \<open>
  \<^verbatim>\<open>service/engine/core/negative_queue.go\<close>, the queue: the binary min-heap of pending
  negative deadlines, with Go's \<^verbatim>\<open>container/heap\<close> sifting it up and down. The locale
  \<open>deadline_queue\<close> is the interface the engine drains it through; the array heap is proved to
  implement it.
\<close>

section \<open>The heap (negative\_queue.go, container/heap)\<close>

record negDeadlineEntry =
  nd_Deadline :: time
  nd_MemberID :: string
  nd_ProgressID :: string

type_synonym negDeadlineHeap = "negDeadlineEntry list"

definition Less :: "negDeadlineHeap \<Rightarrow> nat \<Rightarrow> nat \<Rightarrow> bool" where
  "Less h i j \<longleftrightarrow> nd_Deadline (h ! i) < nd_Deadline (h ! j)"

definition Swap :: "negDeadlineHeap \<Rightarrow> nat \<Rightarrow> nat \<Rightarrow> negDeadlineHeap" where
  "Swap h i j = h[i := h ! j, j := h ! i]"

text \<open>\<^verbatim>\<open>Push\<close> and \<^verbatim>\<open>Pop\<close> of the slice: at its end.\<close>

definition slicePush :: "negDeadlineHeap \<Rightarrow> negDeadlineEntry \<Rightarrow> negDeadlineHeap" where
  "slicePush h x = h @ [x]"

definition slicePop :: "negDeadlineHeap \<Rightarrow> negDeadlineEntry \<times> negDeadlineHeap" where
  "slicePop h = (h ! (length h - 1), take (length h - 1) h)"

text \<open>The index \<open>(j - 1) / 2\<close> of the parent is 0 for \<open>j = 0\<close>, in Go's division as for \<open>nat\<close>.\<close>

definition parent :: "nat \<Rightarrow> nat" where
  "parent j = (j - 1) div 2"

function heap_up :: "negDeadlineHeap \<Rightarrow> nat \<Rightarrow> negDeadlineHeap" where
  "heap_up h j = (if parent j = j \<or> \<not> Less h j (parent j) then h
     else heap_up (Swap h (parent j) j) (parent j))"
  by pat_completeness auto
termination
  by (relation "measure snd") (auto simp: parent_def)

definition smaller_child :: "negDeadlineHeap \<Rightarrow> nat \<Rightarrow> nat \<Rightarrow> nat" where
  "smaller_child h i n = (let j1 = 2 * i + 1; j2 = j1 + 1 in if j2 < n \<and> Less h j2 j1 then j2 else j1)"

function heap_down :: "negDeadlineHeap \<Rightarrow> nat \<Rightarrow> nat \<Rightarrow> negDeadlineHeap" where
  "heap_down h i n = (if n \<le> 2 * i + 1 then h
     else let j = smaller_child h i n in if \<not> Less h j i then h else heap_down (Swap h i j) j n)"
  by pat_completeness auto
termination
  by (relation "measure (\<lambda>(h, i, n). n - i)") (auto simp: smaller_child_def Let_def)

declare heap_up.simps [simp del] heap_down.simps [simp del]

definition heap_Push :: "negDeadlineHeap \<Rightarrow> negDeadlineEntry \<Rightarrow> negDeadlineHeap" where
  "heap_Push h x = (let h = slicePush h x in heap_up h (length h - 1))"

definition heap_Pop :: "negDeadlineHeap \<Rightarrow> negDeadlineEntry \<times> negDeadlineHeap" where
  "heap_Pop h = (let n = length h - 1 in slicePop (heap_down (Swap h 0 n) 0 n))"

text \<open>The loop from \<open>n/2 - 1\<close> down to 0.\<close>

definition heap_Init :: "negDeadlineHeap \<Rightarrow> negDeadlineHeap" where
  "heap_Init h = fold (\<lambda>i h. heap_down h i (length h)) (rev [0..<length h div 2]) h"

section \<open>The heap order\<close>

text \<open>Every index from \<open>lo\<close> on, except \<open>ex\<close>, is at most its children below \<open>n\<close>.\<close>

definition ordered_except :: "negDeadlineHeap \<Rightarrow> nat \<Rightarrow> nat \<Rightarrow> (nat \<Rightarrow> bool) \<Rightarrow> bool" where
  "ordered_except h n lo ex \<longleftrightarrow> (\<forall>c. 0 < c \<longrightarrow> c < n \<longrightarrow> lo \<le> parent c \<longrightarrow> \<not> ex (parent c) \<longrightarrow>
     nd_Deadline (h ! parent c) \<le> nd_Deadline (h ! c))"

definition heap_inv :: "negDeadlineHeap \<Rightarrow> bool" where
  "heap_inv h \<longleftrightarrow> ordered_except h (length h) 0 (\<lambda>_. False)"

text \<open>The children of a misplaced index are not before its parent.\<close>

definition grand_ok :: "negDeadlineHeap \<Rightarrow> nat \<Rightarrow> nat \<Rightarrow> nat \<Rightarrow> bool" where
  "grand_ok h n lo i \<longleftrightarrow> (\<forall>c. 0 < c \<longrightarrow> c < n \<longrightarrow> parent c = i \<longrightarrow> 0 < i \<longrightarrow> lo \<le> parent i \<longrightarrow>
     nd_Deadline (h ! parent i) \<le> nd_Deadline (h ! c))"

lemma parent_less: "0 < c \<Longrightarrow> parent c < c"
  by (auto simp: parent_def)

lemma parent_eq_iff: "0 < c \<Longrightarrow> parent c = i \<longleftrightarrow> c = 2 * i + 1 \<or> c = 2 * i + 2"
  by (auto simp: parent_def)

lemma nth_Swap:
  "i < length h \<Longrightarrow> j < length h \<Longrightarrow>
    Swap h i j ! k = (if k = j then h ! i else if k = i then h ! j else h ! k)"
  by (auto simp: Swap_def nth_list_update)

lemma length_Swap [simp]: "length (Swap h i j) = length h"
  by (simp add: Swap_def)

lemma mset_Swap: "i < length h \<Longrightarrow> j < length h \<Longrightarrow> mset (Swap h i j) = mset h"
  unfolding Swap_def by (cases "i = j") (simp_all add: mset_swap)

lemma smaller_child:
  assumes "2 * i + 1 < n"
  shows "smaller_child h i n < n" "0 < smaller_child h i n" "parent (smaller_child h i n) = i"
    and "c < n \<Longrightarrow> 0 < c \<Longrightarrow> parent c = i \<Longrightarrow>
      nd_Deadline (h ! smaller_child h i n) \<le> nd_Deadline (h ! c)"
proof -
  show "smaller_child h i n < n" "0 < smaller_child h i n" "parent (smaller_child h i n) = i"
    using assms by (auto simp: smaller_child_def Let_def parent_def)
  assume "c < n" "0 < c" "parent c = i"
  then have "c < n" "c = 2 * i + 1 \<or> c = 2 * i + 2" by (simp_all add: parent_eq_iff)
  then show "nd_Deadline (h ! smaller_child h i n) \<le> nd_Deadline (h ! c)"
    by (auto simp: smaller_child_def Let_def Less_def)
qed

lemma heap_down_props:
  assumes "i < n" "n \<le> length h"
  shows "length (heap_down h i n) = length h \<and> mset (heap_down h i n) = mset h \<and>
    (\<forall>k. n \<le> k \<or> k < i \<longrightarrow> heap_down h i n ! k = h ! k)"
  using assms
proof (induction h i n rule: heap_down.induct)
  case (1 h i n)
  let ?j = "smaller_child h i n"
  show ?case
  proof (cases "n \<le> 2 * i + 1 \<or> \<not> Less h ?j i")
    case True
    then show ?thesis by (subst (1 2 3) heap_down.simps) (auto simp: Let_def)
  next
    case False
    then have n: "2 * i + 1 < n" by simp
    note j = smaller_child [OF n, where h = h]
    have ij: "i < ?j" using parent_less [OF j(2)] j(3) by simp
    have e: "heap_down h i n = heap_down (Swap h i ?j) ?j n"
      using False by (subst heap_down.simps) (simp add: Let_def)
    have "length (heap_down (Swap h i ?j) ?j n) = length (Swap h i ?j) \<and>
        mset (heap_down (Swap h i ?j) ?j n) = mset (Swap h i ?j) \<and>
        (\<forall>k. n \<le> k \<or> k < ?j \<longrightarrow> heap_down (Swap h i ?j) ?j n ! k = Swap h i ?j ! k)"
      using "1.IH" [OF _ refl] False j(1) "1.prems" by simp
    then show ?thesis
      using ij j(1) "1.prems" mset_Swap [of i h ?j] by (auto simp: e nth_Swap)
  qed
qed

lemma heap_down_ordered:
  assumes "i < n" "n \<le> length h" "lo \<le> i"
    and "ordered_except h n lo (\<lambda>k. k = i)" "grand_ok h n lo i"
  shows "ordered_except (heap_down h i n) n lo (\<lambda>_. False)"
  using assms
proof (induction h i n rule: heap_down.induct)
  case (1 h i n)
  let ?j = "smaller_child h i n"
  show ?case
  proof (cases "n \<le> 2 * i + 1 \<or> \<not> Less h ?j i")
    case True
    have e: "heap_down h i n = h" using True by (subst heap_down.simps) (auto simp: Let_def)
    have "nd_Deadline (h ! i) \<le> nd_Deadline (h ! c)" if c: "0 < c" "c < n" "parent c = i" for c
    proof -
      have n: "2 * i + 1 < n" using c by (auto simp: parent_eq_iff)
      then have "nd_Deadline (h ! i) \<le> nd_Deadline (h ! ?j)" using True by (auto simp: Less_def)
      then show ?thesis using smaller_child(4) [OF n c(2,1,3), where h = h] by simp
    qed
    then show ?thesis using "1.prems"(4) by (auto simp: e ordered_except_def)
  next
    case False
    then have n: "2 * i + 1 < n" and less: "nd_Deadline (h ! ?j) < nd_Deadline (h ! i)"
      by (simp_all add: Less_def)
    note j = smaller_child [OF n, where h = h]
    have ij: "i < ?j" using parent_less [OF j(2)] j(3) by simp
    let ?h = "Swap h i ?j"
    have nth: "?h ! k = (if k = ?j then h ! i else if k = i then h ! ?j else h ! k)" for k
      using j(1) ij "1.prems"(2) by (intro nth_Swap) auto
    have e: "heap_down h i n = heap_down ?h ?j n"
      using False by (subst heap_down.simps) (simp add: Let_def)
    have "ordered_except ?h n lo (\<lambda>k. k = ?j)"
      unfolding ordered_except_def
    proof (intro allI impI)
      fix c assume c: "0 < c" "c < n" "lo \<le> parent c" "parent c \<noteq> ?j"
      show "nd_Deadline (?h ! parent c) \<le> nd_Deadline (?h ! c)"
      proof (cases "parent c = i")
        case True
        then show ?thesis using j(4) [OF c(2,1)] less c parent_less [OF c(1)] by (auto simp: nth)
      next
        case pi: False
        have old: "nd_Deadline (h ! parent c) \<le> nd_Deadline (h ! c)"
          using "1.prems"(4) c pi by (simp add: ordered_except_def)
        show ?thesis
        proof (cases "c = i")
          case True
          then have "nd_Deadline (h ! parent i) \<le> nd_Deadline (h ! ?j)"
            using "1.prems"(5) j c by (auto simp: grand_ok_def)
          then show ?thesis using True c pi ij by (simp add: nth)
        next
          case False
          have "c \<noteq> ?j" using j(3) pi by auto
          then show ?thesis using old c False pi by (simp add: nth)
        qed
      qed
    qed
    moreover have "grand_ok ?h n lo ?j"
      unfolding grand_ok_def
    proof (intro allI impI)
      fix c assume c: "0 < c" "c < n" "parent c = ?j"
      have "nd_Deadline (h ! ?j) \<le> nd_Deadline (h ! c)"
        using "1.prems"(3) "1.prems"(4) [unfolded ordered_except_def, rule_format, of c] c ij by simp
      then show "nd_Deadline (?h ! parent ?j) \<le> nd_Deadline (?h ! c)"
        using parent_less [OF c(1)] c(3) ij j(3) by (simp add: nth)
    qed
    ultimately show ?thesis
      using "1.IH" [OF _ refl] False j(1) ij "1.prems"(2,3) by (simp add: e)
  qed
qed

lemma heap_up_props: "j < length h \<Longrightarrow> length (heap_up h j) = length h \<and> mset (heap_up h j) = mset h"
proof (induction h j rule: heap_up.induct)
  case (1 h j)
  have "parent j \<le> j" by (simp add: parent_def)
  then show ?case
    using 1 mset_Swap [of "parent j" h j] by (subst (1 2) heap_up.simps) auto
qed

lemma heap_up_ordered:
  assumes "j < length h"
    and "\<And>c. 0 < c \<Longrightarrow> c < length h \<Longrightarrow> c \<noteq> j \<Longrightarrow> nd_Deadline (h ! parent c) \<le> nd_Deadline (h ! c)"
    and "\<And>c. 0 < c \<Longrightarrow> c < length h \<Longrightarrow> parent c = j \<Longrightarrow> 0 < j \<Longrightarrow>
      nd_Deadline (h ! parent j) \<le> nd_Deadline (h ! c)"
  shows "heap_inv (heap_up h j)"
  using assms
proof (induction h j rule: heap_up.induct)
  case (1 h j)
  show ?case
  proof (cases "parent j = j \<or> \<not> Less h j (parent j)")
    case True
    have "0 < c \<Longrightarrow> c < length h \<Longrightarrow> nd_Deadline (h ! parent c) \<le> nd_Deadline (h ! c)" for c
      using True "1.prems"(2) [of c] parent_less [of j] by (cases "c = j") (auto simp: Less_def)
    then show ?thesis using True by (subst heap_up.simps) (auto simp: heap_inv_def ordered_except_def)
  next
    case False
    then have less: "nd_Deadline (h ! j) < nd_Deadline (h ! parent j)" by (simp add: Less_def)
    have j: "0 < j" using False by (cases j) (auto simp: parent_def)
    let ?p = "parent j" and ?h = "Swap h (parent j) j"
    have p: "?p < j" by (rule parent_less [OF j])
    have nth: "?h ! k = (if k = j then h ! ?p else if k = ?p then h ! j else h ! k)" for k
      using p "1.prems"(1) by (intro nth_Swap) auto
    have old: "0 < c \<Longrightarrow> c < length h \<Longrightarrow> c \<noteq> j \<Longrightarrow> nd_Deadline (h ! parent c) \<le> nd_Deadline (h ! c)" for c
      by (rule "1.prems"(2))
    have "heap_inv (heap_up ?h ?p)"
    proof (rule "1.IH" [OF False])
      show "?p < length ?h" using p "1.prems"(1) by simp
    next
      fix c assume c: "0 < c" "c < length ?h" "c \<noteq> ?p"
      show "nd_Deadline (?h ! parent c) \<le> nd_Deadline (?h ! c)"
      proof (cases "c = j")
        case True
        then show ?thesis using p less by (simp add: nth)
      next
        case False
        then have "nd_Deadline (h ! parent c) \<le> nd_Deadline (h ! c)" using old c by simp
        moreover have "parent c = j \<Longrightarrow> nd_Deadline (h ! ?p) \<le> nd_Deadline (h ! c)"
          using "1.prems"(3) [of c] c j by simp
        ultimately show ?thesis using False c less by (auto simp: nth)
      qed
    next
      fix c assume c: "0 < c" "c < length ?h" "parent c = ?p" "0 < ?p"
      have pp: "parent ?p < ?p" by (rule parent_less [OF c(4)])
      have "nd_Deadline (h ! parent ?p) \<le> nd_Deadline (h ! ?p)"
        using old [of ?p] c p "1.prems"(1) by simp
      moreover have "c \<noteq> j \<Longrightarrow> nd_Deadline (h ! ?p) \<le> nd_Deadline (h ! c)" using old [of c] c by simp
      moreover have "c \<noteq> ?p" using parent_less [OF c(1)] c(3) by simp
      ultimately show "nd_Deadline (?h ! parent ?p) \<le> nd_Deadline (?h ! c)"
        using pp p by (auto simp: nth)
    qed
    then show ?thesis using False by (subst heap_up.simps) simp
  qed
qed

lemma heap_inv_top: "heap_inv h \<Longrightarrow> k < length h \<Longrightarrow> nd_Deadline (h ! 0) \<le> nd_Deadline (h ! k)"
proof (induction k rule: less_induct)
  case (less k)
  show ?case
  proof (cases "k = 0")
    case False
    then have p: "parent k < k" by (simp add: parent_less)
    then have "nd_Deadline (h ! 0) \<le> nd_Deadline (h ! parent k)" using less by simp
    also have "\<dots> \<le> nd_Deadline (h ! k)"
      using less.prems False by (simp add: heap_inv_def ordered_except_def)
    finally show ?thesis .
  qed simp
qed

lemma heap_Push_ok:
  assumes "heap_inv h"
  shows "heap_inv (heap_Push h x)" "mset (heap_Push h x) = add_mset x (mset h)"
proof -
  let ?h = "h @ [x]"
  show "mset (heap_Push h x) = add_mset x (mset h)"
    using heap_up_props [of "length h" ?h] by (simp add: heap_Push_def slicePush_def Let_def)
  have "heap_inv (heap_up ?h (length h))"
  proof (rule heap_up_ordered)
    fix c assume c: "0 < c" "c < length ?h" "c \<noteq> length h"
    then show "nd_Deadline (?h ! parent c) \<le> nd_Deadline (?h ! c)"
      using assms parent_less [OF c(1)] by (simp add: nth_append heap_inv_def ordered_except_def)
  next
    fix c assume "0 < c" "c < length ?h" "parent c = length h"
    then show "nd_Deadline (?h ! parent (length h)) \<le> nd_Deadline (?h ! c)"
      using parent_less [of c] by simp
  qed simp
  then show "heap_inv (heap_Push h x)" by (simp add: heap_Push_def slicePush_def Let_def)
qed

lemma heap_Pop_ok:
  assumes "heap_inv h" "h \<noteq> []"
  shows "fst (heap_Pop h) = h ! 0" "heap_inv (snd (heap_Pop h))"
    "mset h = add_mset (h ! 0) (mset (snd (heap_Pop h)))"
proof -
  define n where "n = length h - 1"
  define s where "s = Swap h 0 n"
  define d where "d = heap_down s 0 n"
  have n: "n < length h" using assms(2) by (simp add: n_def)
  have s: "length s = length h" "mset s = mset h"
    "\<And>k. s ! k = (if k = n then h ! 0 else if k = 0 then h ! n else h ! k)"
    using n assms(2) mset_Swap [of 0 h n] nth_Swap [of 0 h n] by (auto simp: s_def)
  have d: "length d = length h \<and> mset d = mset h \<and> d ! n = h ! 0 \<and> ordered_except d n 0 (\<lambda>_. False)"
  proof (cases "n = 0")
    case True
    then have "d = s" by (simp add: d_def heap_down.simps)
    then show ?thesis using s True by (simp add: ordered_except_def)
  next
    case False
    have "ordered_except s n 0 (\<lambda>k. k = 0)"
      using assms(1) n parent_less unfolding ordered_except_def heap_inv_def
      by (auto simp: s) (metis less_irrefl less_trans)
    then have "ordered_except d n 0 (\<lambda>_. False)"
      unfolding d_def using False n s(1) by (intro heap_down_ordered) (auto simp: grand_ok_def)
    then show ?thesis
      using heap_down_props [of 0 n s] False n s by (simp add: d_def)
  qed
  have p: "heap_Pop h = (d ! n, take n d)"
    using d n by (simp add: heap_Pop_def slicePop_def Let_def d_def s_def n_def)
  show "fst (heap_Pop h) = h ! 0" using p d by simp
  show "heap_inv (snd (heap_Pop h))"
    using p d n parent_less unfolding heap_inv_def ordered_except_def
    by (auto simp: min_def) (metis less_trans nth_take)
  have "d = take n d @ [d ! n]"
    using d n by (metis id_take_nth_drop n_def Suc_pred' append_Nil2 drop_all length_greater_0_conv assms(2)
        order_refl take_Suc_conv_app_nth take_all)
  then have "mset d = mset (take n d) + {#d ! n#}" by (metis mset.simps mset_append add_mset_add_single)
  then show "mset h = add_mset (h ! 0) (mset (snd (heap_Pop h)))" using p d by simp
qed

lemma heap_Init_ok: "heap_inv (heap_Init h)" "mset (heap_Init h) = mset h"
proof -
  have "ordered_except (fold (\<lambda>i h. heap_down h i (length h)) (rev [lo..<length h div 2]) h) (length h) lo (\<lambda>_. False) \<and>
      length (fold (\<lambda>i h. heap_down h i (length h)) (rev [lo..<length h div 2]) h) = length h \<and>
      mset (fold (\<lambda>i h. heap_down h i (length h)) (rev [lo..<length h div 2]) h) = mset h"
    if "lo \<le> length h div 2" for lo
    using that
  proof (induction lo rule: inc_induct)
    case base
    have "\<not> (0 < c \<and> c < length h \<and> length h div 2 \<le> parent c)" for c by (auto simp: parent_def)
    then show ?case by (auto simp: ordered_except_def)
  next
    case (step lo)
    define d where "d = fold (\<lambda>i h. heap_down h i (length h)) (rev [Suc lo..<length h div 2]) h"
    have d: "ordered_except d (length h) (Suc lo) (\<lambda>_. False)" "length d = length h" "mset d = mset h"
      using step.IH by (simp_all add: d_def)
    have e: "fold (\<lambda>i h. heap_down h i (length h)) (rev [lo..<length h div 2]) h = heap_down d lo (length h)"
      using step.hyps d(2) by (simp add: upt_conv_Cons d_def)
    have lt: "lo < length h" using step.hyps by linarith
    have "ordered_except d (length h) lo (\<lambda>k. k = lo)"
      using d(1) by (auto simp: ordered_except_def)
    moreover have "\<not> lo \<le> parent lo" if "0 < lo" using parent_less [OF that] by simp
    then have "grand_ok d (length h) lo lo" unfolding grand_ok_def by blast
    ultimately show ?case
      using heap_down_ordered [OF lt _ order_refl, of d] heap_down_props [OF lt, of d] d by (simp add: e)
  qed
  from this [of 0] show "heap_inv (heap_Init h)" "mset (heap_Init h) = mset h"
    by (simp_all add: heap_Init_def heap_inv_def)
qed

section \<open>The queue interface\<close>

text \<open>
  Draining, as a client of the interface sees it: pop while the least deadline is before the
  watermark. \<open>fuel\<close> bounds the number of pops.
\<close>

fun drain_due :: "('q \<Rightarrow> bool) \<Rightarrow> ('q \<Rightarrow> 'e) \<Rightarrow> ('q \<Rightarrow> 'e \<times> 'q) \<Rightarrow> ('e \<Rightarrow> time) \<Rightarrow> nat \<Rightarrow> time \<Rightarrow> 'q \<Rightarrow> 'e list \<times> 'q" where
  "drain_due emp peek pop key 0 wm q = ([], q)"
| "drain_due emp peek pop key (Suc fuel) wm q =
     (if emp q \<or> \<not> key (peek q) < wm then ([], q)
      else let (x, q') = pop q; (xs, r) = drain_due emp peek pop key fuel wm q' in (x # xs, r))"

locale deadline_queue =
  fixes emp :: "'q \<Rightarrow> bool" and peek :: "'q \<Rightarrow> 'e" and pop :: "'q \<Rightarrow> 'e \<times> 'q"
    and push :: "'q \<Rightarrow> 'e \<Rightarrow> 'q" and build :: "'e list \<Rightarrow> 'q"
    and key :: "'e \<Rightarrow> time" and elems :: "'q \<Rightarrow> 'e multiset" and ok :: "'q \<Rightarrow> bool"
  assumes emp_iff: "emp q \<longleftrightarrow> elems q = {#}"
    and ok_push: "ok q \<Longrightarrow> ok (push q x)"
    and elems_push: "ok q \<Longrightarrow> elems (push q x) = add_mset x (elems q)"
    and ok_build: "ok (build xs)"
    and elems_build: "elems (build xs) = mset xs"
    and ok_pop: "ok q \<Longrightarrow> \<not> emp q \<Longrightarrow> ok (snd (pop q))"
    and elems_pop: "ok q \<Longrightarrow> \<not> emp q \<Longrightarrow> elems q = add_mset (fst (pop q)) (elems (snd (pop q)))"
    and pop_peek: "ok q \<Longrightarrow> \<not> emp q \<Longrightarrow> fst (pop q) = peek q"
    and peek_least: "ok q \<Longrightarrow> x \<in># elems q \<Longrightarrow> key (peek q) \<le> key x"
begin

lemma drain_ok:
  assumes "ok q" "size (elems q) \<le> fuel"
  shows "case drain_due emp peek pop key fuel wm q of (xs, r) \<Rightarrow>
    ok r \<and> mset xs = filter_mset (\<lambda>x. key x < wm) (elems q) \<and>
    elems r = filter_mset (\<lambda>x. \<not> key x < wm) (elems q) \<and> sorted (map key xs)"
  using assms
proof (induction fuel arbitrary: q)
  case (Suc fuel)
  show ?case
  proof (cases "emp q \<or> \<not> key (peek q) < wm")
    case True
    have "filter_mset (\<lambda>x. key x < wm) (elems q) = {#} \<and> filter_mset (\<lambda>x. \<not> key x < wm) (elems q) = elems q"
    proof (cases "emp q")
      case False
      then have "\<forall>x\<in>#elems q. \<not> key x < wm" using True peek_least [OF Suc.prems(1)] by fastforce
      then show ?thesis by (simp cong: filter_mset_cong)
    qed (simp add: emp_iff)
    then show ?thesis using True Suc.prems(1) by auto
  next
    case False
    then have ne: "\<not> emp q" by simp
    obtain x q' where p: "pop q = (x, q')" by fastforce
    note P = ok_pop [OF Suc.prems(1) ne] elems_pop [OF Suc.prems(1) ne] pop_peek [OF Suc.prems(1) ne]
    obtain xs r where d: "drain_due emp peek pop key fuel wm q' = (xs, r)" by fastforce
    have "size (elems q') \<le> fuel" using Suc.prems(2) P(2) by (simp add: p)
    then have IH: "ok r \<and> mset xs = filter_mset (\<lambda>x. key x < wm) (elems q') \<and>
        elems r = filter_mset (\<lambda>x. \<not> key x < wm) (elems q') \<and> sorted (map key xs)"
      using Suc.IH [of q'] P(1) by (simp add: p d)
    have "key x \<le> key y" if "y \<in> set xs" for y
    proof -
      have "y \<in># mset xs" using that by simp
      then have "y \<in># elems q" using IH P(2) by (auto simp: p)
      then show ?thesis using peek_least [OF Suc.prems(1)] P(3) by (simp add: p)
    qed
    then show ?thesis using False IH P(2,3) by (simp add: p d)
  qed
qed simp

end

interpretation heap: deadline_queue "\<lambda>h. h = []" "\<lambda>h. h ! 0" heap_Pop heap_Push heap_Init nd_Deadline mset heap_inv
proof unfold_locales
  show "heap_inv q \<Longrightarrow> x \<in># mset q \<Longrightarrow> nd_Deadline (q ! 0) \<le> nd_Deadline x" for q x
    using heap_inv_top [of q] by (auto simp: in_set_conv_nth)
qed (simp_all add: heap_Push_ok heap_Init_ok heap_Pop_ok)

text \<open>The entries the watermark has passed, in the order the engine pops them, and the heap left.\<close>

definition due_entries :: "time \<Rightarrow> negDeadlineHeap \<Rightarrow> negDeadlineEntry list \<times> negDeadlineHeap" where
  "due_entries wm h = drain_due (\<lambda>h. h = []) (\<lambda>h. h ! 0) heap_Pop nd_Deadline (length h) wm h"

lemma due_entries_ok:
  assumes "heap_inv h" "due_entries wm h = (xs, r)"
  shows "heap_inv r" "mset xs = filter_mset (\<lambda>x. nd_Deadline x < wm) (mset h)"
    "mset r = filter_mset (\<lambda>x. \<not> nd_Deadline x < wm) (mset h)" "sorted (map nd_Deadline xs)"
  using heap.drain_ok [OF assms(1), of "length h" wm] assms(2) by (simp_all add: due_entries_def)

lemma length_heap_down [simp]: "length (heap_down h i n) = length h"
  by (induction h i n rule: heap_down.induct) (subst heap_down.simps, simp add: Let_def)

lemma length_heap_Pop: "length (snd (heap_Pop h)) = length h - 1"
  by (simp add: heap_Pop_def slicePop_def Let_def)

end
