(* ===== verification/Aggregation.thy ===== *)
theory Aggregation
  imports State
begin

text \<open>
  \<^verbatim>\<open>service/engine/core/aggregation.go\<close>: the one-minute buckets of a member, their
  idempotent update, the pruning of buckets no window reaches, and the windowed aggregates
  computed from them. The lemmas relate the buckets to the history of events that was folded in.
\<close>

section \<open>Definitions\<close>

definition bucketSize :: duration where
  "bucketSize = Minute"

definition alignBucket :: "time \<Rightarrow> int" where
  "alignBucket t = unix_sec (time_truncate t bucketSize)"

text \<open>The engine's own numeric coercion: fewer integer types than the rule evaluator's.\<close>

fun core_toFloat64 :: "gval \<Rightarrow> f64 option" where
  "core_toFloat64 (VF64 n) = Some n"
| "core_toFloat64 (VF32 n) = Some n"
| "core_toFloat64 (VInt KInt n) = Some (f64_of_int n)"
| "core_toFloat64 (VInt KInt64 n) = Some (f64_of_int n)"
| "core_toFloat64 (VInt KInt32 n) = Some (f64_of_int n)"
| "core_toFloat64 (VInt KUint64 n) = Some (f64_of_int n)"
| "core_toFloat64 _ = None"

definition numericFieldsOf :: "(string \<rightharpoonup> gval) \<Rightarrow> (string \<rightharpoonup> f64)" where
  "numericFieldsOf fs = (\<lambda>k. case fs k of None \<Rightarrow> None | Some v \<Rightarrow> core_toFloat64 v)"

text \<open>The loop over the numeric fields: each field's entries are updated on their own, so the
  order of the loop does not matter.\<close>

definition addSums :: "(string \<rightharpoonup> f64) \<Rightarrow> (string \<rightharpoonup> f64) \<Rightarrow> (string \<rightharpoonup> f64)" where
  "addSums nf sm = (\<lambda>f. case nf f of
     None \<Rightarrow> sm f
   | Some v \<Rightarrow> Some ((case sm f of None \<Rightarrow> fzero | Some s \<Rightarrow> s) + v))"

definition addMaxs :: "(string \<rightharpoonup> f64) \<Rightarrow> (string \<rightharpoonup> f64) \<Rightarrow> (string \<rightharpoonup> f64)" where
  "addMaxs nf maxs = (\<lambda>f. case nf f of
     None \<Rightarrow> maxs f
   | Some v \<Rightarrow> (case maxs f of None \<Rightarrow> Some v | Some cur \<Rightarrow> if cur < v then Some v else Some cur))"

definition addMins :: "(string \<rightharpoonup> f64) \<Rightarrow> (string \<rightharpoonup> f64) \<Rightarrow> (string \<rightharpoonup> f64)" where
  "addMins nf mins = (\<lambda>f. case nf f of
     None \<Rightarrow> mins f
   | Some v \<Rightarrow> (case mins f of None \<Rightarrow> Some v | Some cur \<Rightarrow> if v < cur then Some v else Some cur))"

definition addEvent :: "string \<Rightarrow> (string \<rightharpoonup> f64) \<Rightarrow> bucket_data \<Rightarrow> bucket_data" where
  "addEvent eventID nf b =
     \<lparr>bk_Count = bk_Count b + 1, bk_Sums = addSums nf (bk_Sums b), bk_Maxs = addMaxs nf (bk_Maxs b),
      bk_Mins = addMins nf (bk_Mins b),
      bk_ProcessedEventIDs = insert eventID (bk_ProcessedEventIDs b)\<rparr>"

definition pruneExpiredBuckets :: "behavior_agg \<Rightarrow> time \<Rightarrow> duration \<Rightarrow> behavior_agg" where
  "pruneExpiredBuckets agg occurredAt maxWindow =
     (let cutoff = alignBucket (time_add occurredAt (i64 (- maxWindow)))
      in agg\<lparr>ag_Buckets := map_delete_if (\<lambda>ts b. ts < cutoff) (ag_Buckets agg)\<rparr>)"

definition updateAggregations ::
    "member_state \<Rightarrow> string \<Rightarrow> string \<Rightarrow> time \<Rightarrow> (string \<rightharpoonup> f64) \<Rightarrow> duration \<Rightarrow> member_state" where
  "updateAggregations ms behavior eventID occurredAt numericFields maxWindow =
     (let agg = (case ms_Aggregations ms behavior of None \<Rightarrow> newBehaviorAgg | Some a \<Rightarrow> a);
          bucketTs = alignBucket occurredAt;
          bucket = (case ag_Buckets agg bucketTs of None \<Rightarrow> newBucketData | Some b \<Rightarrow> b);
          put = (\<lambda>a. ms\<lparr>ms_Aggregations := (ms_Aggregations ms)(behavior \<mapsto> a)\<rparr>)
      in if eventID \<in> bk_ProcessedEventIDs bucket
         then put (agg\<lparr>ag_Buckets := (ag_Buckets agg)(bucketTs \<mapsto> bucket)\<rparr>)
         else put (pruneExpiredBuckets
                (agg\<lparr>ag_Buckets := (ag_Buckets agg)(bucketTs \<mapsto> addEvent eventID numericFields bucket)\<rparr>)
                occurredAt maxWindow))"

definition parseAggregateField :: "string \<Rightarrow> string \<times> string \<times> string" where
  "parseAggregateField field =
     (let parts = split_n CHR '':'' 3 field in
      if length parts < 2 then ([], [], [])
      else (parts ! 0, to_upper (parts ! 1), if length parts = 3 then parts ! 2 else []))"

text \<open>The local variables of the bucket loop.\<close>

record agg_acc =
  totalCount :: uint64
  totalSum :: f64
  maxVal :: f64
  minVal :: f64
  haveMax :: bool
  haveMin :: bool

definition acc0 :: agg_acc where
  "acc0 = \<lparr>totalCount = 0, totalSum = fzero, maxVal = fzero, minVal = fzero,
     haveMax = False, haveMin = False\<rparr>"

definition accMax :: "f64 option \<Rightarrow> agg_acc \<Rightarrow> agg_acc" where
  "accMax mv acc = (case mv of
     Some v \<Rightarrow> if \<not> haveMax acc \<or> maxVal acc < v then acc\<lparr>maxVal := v, haveMax := True\<rparr> else acc
   | None \<Rightarrow> acc)"

definition accMin :: "f64 option \<Rightarrow> agg_acc \<Rightarrow> agg_acc" where
  "accMin mv acc = (case mv of
     Some v \<Rightarrow> if \<not> haveMin acc \<or> v < minVal acc then acc\<lparr>minVal := v, haveMin := True\<rparr> else acc
   | None \<Rightarrow> acc)"

definition accBucket :: "string \<Rightarrow> bucket_data \<Rightarrow> agg_acc \<Rightarrow> agg_acc" where
  "accBucket fieldPath b acc =
     accMin (bk_Mins b fieldPath) (accMax (bk_Maxs b fieldPath)
       (acc\<lparr>totalCount := totalCount acc + bk_Count b,
            totalSum := totalSum acc + (case bk_Sums b fieldPath of None \<Rightarrow> fzero | Some s \<Rightarrow> s)\<rparr>))"

definition accStep :: "string \<Rightarrow> (int \<rightharpoonup> bucket_data) \<Rightarrow> int \<Rightarrow> int \<Rightarrow> int \<Rightarrow> agg_acc \<Rightarrow> agg_acc" where
  "accStep fieldPath buckets since upper ts acc =
     (if ts < since \<or> upper < ts then acc
      else case buckets ts of None \<Rightarrow> acc | Some b \<Rightarrow> accBucket fieldPath b acc)"

definition finishAggregation :: "string \<Rightarrow> agg_acc \<Rightarrow> f64" where
  "finishAggregation agg acc =
     (if agg = ''COUNT'' then f64_of_int (uint (totalCount acc))
      else if agg = ''SUM'' then totalSum acc
      else if agg = ''AVG'' then
        (if totalCount acc = 0 then fzero
         else f64_div (totalSum acc) (f64_of_int (uint (totalCount acc))))
      else if agg = ''MAX'' then maxVal acc
      else if agg = ''MIN'' then minVal acc
      else fzero)"

definition windowSince :: "time_window option \<Rightarrow> time \<Rightarrow> int" where
  "windowSince window now = (case window of
     None \<Rightarrow> 0
   | Some w \<Rightarrow> alignBucket (time_add now (i64 (- Duration (Some w)))))"

definition computeBucketAggregation ::
    "int enumeration \<Rightarrow> member_state \<Rightarrow> agg_key \<Rightarrow> time \<Rightarrow> f64" where
  "computeBucketAggregation it ms key now =
     (let (behavior, agg, fieldPath) = parseAggregateField (ak_Field key) in
      case ms_Aggregations ms behavior of
        None \<Rightarrow> fzero
      | Some behaviorAgg \<Rightarrow>
          (let since = windowSince (ak_Window key) now; upper = alignBucket now;
               buckets = ag_Buckets behaviorAgg
           in finishAggregation agg
                (fold (accStep fieldPath buckets since upper) (it (dom buckets)) acc0)))"

section \<open>Bucket boundaries\<close>

lemma alignBucket_eq: "alignBucket t = (t div Minute) * 60"
proof -
  have "(t div Minute) * Minute = ((t div Minute) * 60) * 1000000000"
    by (simp add: Minute_def)
  then show ?thesis
    by (simp only: alignBucket_def bucketSize_def truncate_minute unix_sec_def)
qed

lemma alignBucket_mono: "t \<le> u \<Longrightarrow> alignBucket t \<le> alignBucket u"
  by (simp add: alignBucket_eq Minute_def zdiv_mono1)

lemma alignBucket_bounds:
  "alignBucket t * Second \<le> t" "t < (alignBucket t + 60) * Second"
proof -
  have "0 \<le> t mod Minute" "t mod Minute < Minute" by (simp_all add: Minute_def)
  moreover have "(t div Minute) * Minute + t mod Minute = t" by simp
  ultimately show "alignBucket t * Second \<le> t" "t < (alignBucket t + 60) * Second"
    unfolding alignBucket_eq by (simp_all add: Minute_def Second_def)
qed

text \<open>A window that the rule set can hold: not negative, and an \<^verbatim>\<open>int64\<close>.\<close>

definition window_ok :: "duration \<Rightarrow> bool" where
  "window_ok w \<longleftrightarrow> 0 \<le> w \<and> w < 9223372036854775808"

lemma neg_window [simp]: "window_ok w \<Longrightarrow> i64 (- w) = - w"
  by (simp add: window_ok_def)

section \<open>One behaviour's buckets\<close>

definition buckets_of :: "member_state \<Rightarrow> string \<Rightarrow> (int \<rightharpoonup> bucket_data)" where
  "buckets_of ms behavior =
     (case ms_Aggregations ms behavior of None \<Rightarrow> Map.empty | Some a \<Rightarrow> ag_Buckets a)"

definition cutoff :: "time \<Rightarrow> duration \<Rightarrow> int" where
  "cutoff t w = alignBucket (time_add t (i64 (- w)))"

definition bucket_at :: "(int \<rightharpoonup> bucket_data) \<Rightarrow> int \<Rightarrow> bucket_data" where
  "bucket_at B ts = (case B ts of None \<Rightarrow> newBucketData | Some b \<Rightarrow> b)"

definition put_event :: "string \<Rightarrow> (string \<rightharpoonup> f64) \<Rightarrow> bucket_data \<Rightarrow> bucket_data" where
  "put_event eventID nf b =
     (if eventID \<in> bk_ProcessedEventIDs b then b else addEvent eventID nf b)"

definition upd_buckets ::
    "string \<Rightarrow> time \<Rightarrow> (string \<rightharpoonup> f64) \<Rightarrow> duration \<Rightarrow> (int \<rightharpoonup> bucket_data) \<Rightarrow> (int \<rightharpoonup> bucket_data)" where
  "upd_buckets eventID t nf w B =
     (let ts = alignBucket t; B' = B(ts \<mapsto> put_event eventID nf (bucket_at B ts))
      in if eventID \<in> bk_ProcessedEventIDs (bucket_at B ts) then B'
         else map_delete_if (\<lambda>k b. k < cutoff t w) B')"

lemma updateAggregations_eq:
  "updateAggregations ms behavior eventID t nf w =
     ms\<lparr>ms_Aggregations := (ms_Aggregations ms)(behavior \<mapsto>
          \<lparr>ag_Buckets = upd_buckets eventID t nf w (buckets_of ms behavior)\<rparr>)\<rparr>"
proof -
  define a where "a = (case ms_Aggregations ms behavior of None \<Rightarrow> newBehaviorAgg | Some a \<Rightarrow> a)"
  have "ag_Buckets a = buckets_of ms behavior"
    by (simp add: a_def buckets_of_def newBehaviorAgg_def split: option.split)
  then have "a = \<lparr>ag_Buckets = buckets_of ms behavior\<rparr>" by simp
  then show ?thesis
    unfolding updateAggregations_def a_def [symmetric]
    by (simp add: Let_def pruneExpiredBuckets_def upd_buckets_def put_event_def bucket_at_def
        cutoff_def split: option.split)
qed

lemma buckets_of_update [agg_simps]:
  "buckets_of (updateAggregations ms behavior eventID t nf w) b =
     (if b = behavior then upd_buckets eventID t nf w (buckets_of ms behavior) else buckets_of ms b)"
  by (simp add: updateAggregations_eq buckets_of_def)

lemma update_frame [simp]:
  "ms_MemberID (updateAggregations ms behavior eventID t nf w) = ms_MemberID ms"
  "ms_Progresses (updateAggregations ms behavior eventID t nf w) = ms_Progresses ms"
  "ms_LastSeenAt (updateAggregations ms behavior eventID t nf w) = ms_LastSeenAt ms"
  "ms_version (updateAggregations ms behavior eventID t nf w) = ms_version ms"
  by (simp_all add: updateAggregations_eq)

lemma dom_upd_buckets: "dom (upd_buckets eventID t nf w B) \<subseteq> insert (alignBucket t) (dom B)"
  using dom_map_delete_if_subset [of _ "B(alignBucket t \<mapsto> b)" for b]
  by (auto simp: upd_buckets_def Let_def)

lemma finite_upd_buckets: "finite (dom B) \<Longrightarrow> finite (dom (upd_buckets eventID t nf w B))"
  by (rule finite_subset [OF dom_upd_buckets]) simp

lemma cutoff_le: "window_ok w \<Longrightarrow> cutoff t w \<le> alignBucket t"
  by (simp add: cutoff_def time_add_def alignBucket_mono window_ok_def)

lemma upd_buckets_own:
  "window_ok w \<Longrightarrow>
    upd_buckets eventID t nf w B (alignBucket t) = Some (put_event eventID nf (bucket_at B (alignBucket t)))"
  using cutoff_le [of w t]
  by (simp add: upd_buckets_def Let_def map_delete_if_def)

lemma upd_buckets_kept:
  assumes "cutoff t w \<le> ts" "ts \<noteq> alignBucket t"
  shows "upd_buckets eventID t nf w B ts = B ts"
  using assms by (simp add: upd_buckets_def Let_def map_delete_if_def split: option.splits)

lemma put_event_seen [simp]: "eventID \<in> bk_ProcessedEventIDs (put_event eventID nf b)"
  by (simp add: put_event_def addEvent_def)

lemma upd_buckets_dup:
  assumes "B (alignBucket t) = Some b" "eventID \<in> bk_ProcessedEventIDs b"
  shows "upd_buckets eventID t nf w B = B"
  using assms by (auto simp: upd_buckets_def Let_def bucket_at_def put_event_def)

lemma update_seen:
  assumes a: "ms_Aggregations ms behavior = Some a"
    and b: "ag_Buckets a (alignBucket t) = Some b" and i: "eventID \<in> bk_ProcessedEventIDs b"
  shows "updateAggregations ms behavior eventID t nf w = ms"
proof -
  have B: "buckets_of ms behavior = ag_Buckets a" by (simp add: buckets_of_def a)
  have "upd_buckets eventID t nf w (buckets_of ms behavior) = ag_Buckets a"
    unfolding B by (rule upd_buckets_dup [where b = b]) (rule b, rule i)
  then have "(ms_Aggregations ms)(behavior \<mapsto>
      \<lparr>ag_Buckets = upd_buckets eventID t nf w (buckets_of ms behavior)\<rparr>) = ms_Aggregations ms"
    using a by (auto simp: fun_eq_iff)
  then show ?thesis by (simp add: updateAggregations_eq)
qed

lemma update_twice:
  assumes "window_ok w"
  shows "updateAggregations (updateAggregations ms behavior eventID t nf w) behavior eventID t nf' w'
    = updateAggregations ms behavior eventID t nf w"
proof (rule update_seen)
  show "ms_Aggregations (updateAggregations ms behavior eventID t nf w) behavior =
      Some \<lparr>ag_Buckets = upd_buckets eventID t nf w (buckets_of ms behavior)\<rparr>"
    by (simp add: updateAggregations_eq)
  show "ag_Buckets \<lparr>ag_Buckets = upd_buckets eventID t nf w (buckets_of ms behavior)\<rparr> (alignBucket t) =
      Some (put_event eventID nf (bucket_at (buckets_of ms behavior) (alignBucket t)))"
    by (simp add: upd_buckets_own [OF assms])
qed simp

section \<open>The buckets are the history\<close>

text \<open>One folded event: its behaviour, ID, time and numeric fields.\<close>

record agg_event =
  ae_behavior :: string
  ae_id :: string
  ae_time :: time
  ae_nums :: "string \<rightharpoonup> f64"

definition feed :: "duration \<Rightarrow> agg_event list \<Rightarrow> member_state \<Rightarrow> member_state" where
  "feed w evs ms = fold (\<lambda>e m. updateAggregations m (ae_behavior e) (ae_id e) (ae_time e) (ae_nums e) w) evs ms"

text \<open>The events that count: the first one of every key, in order of arrival.\<close>

fun firsts_by :: "('e \<Rightarrow> 'k) \<Rightarrow> 'k set \<Rightarrow> 'e list \<Rightarrow> 'e list" where
  "firsts_by key seen [] = []"
| "firsts_by key seen (e # es) =
     (if key e \<in> seen then firsts_by key seen es else e # firsts_by key (insert (key e) seen) es)"

text \<open>What a bucket should hold: the events of the bucket, each ID once, added in order of arrival
  to an empty bucket.\<close>

definition bucket_events :: "string \<Rightarrow> int \<Rightarrow> agg_event list \<Rightarrow> agg_event list" where
  "bucket_events behavior ts evs = filter (\<lambda>e. ae_behavior e = behavior \<and> alignBucket (ae_time e) = ts) evs"

definition add_events :: "agg_event list \<Rightarrow> bucket_data \<Rightarrow> bucket_data" where
  "add_events es b = fold (\<lambda>e. addEvent (ae_id e) (ae_nums e)) es b"

definition bucket_spec :: "string \<Rightarrow> agg_event list \<Rightarrow> int \<Rightarrow> bucket_data option" where
  "bucket_spec behavior evs ts =
     (let es = bucket_events behavior ts evs
      in if es = [] then None else Some (add_events (firsts_by ae_id {} es) newBucketData))"

lemma firsts_by_append:
  "firsts_by key seen (xs @ ys) = firsts_by key seen xs @ firsts_by key (seen \<union> key ` set xs) ys"
  by (induction xs arbitrary: seen) (auto simp: insert_absorb)

lemma key_firsts_by: "key ` set (firsts_by key seen es) = key ` set es - seen"
  by (induction es arbitrary: seen) auto

lemma distinct_firsts_by: "distinct (map key (firsts_by key seen es))"
  by (induction es arbitrary: seen) (auto simp: key_firsts_by simp flip: image_image)

lemma firsts_by_subset: "set (firsts_by key seen es) \<subseteq> set es"
  by (induction es arbitrary: seen) auto

lemma firsts_by_filter:
  "filter (\<lambda>e. g e = ts) (firsts_by (\<lambda>e. (g e, key e)) seen es) =
     firsts_by key {i. (ts, i) \<in> seen} (filter (\<lambda>e. g e = ts) es)"
proof (induction es arbitrary: seen)
  case (Cons e es)
  have "{i. (ts, i) \<in> insert (g e, key e) seen} =
      (if g e = ts then insert (key e) {i. (ts, i) \<in> seen} else {i. (ts, i) \<in> seen})" by auto
  then show ?case using Cons by auto
qed simp

lemma feed_snoc [simp]:
  "feed w (evs @ [e]) ms =
    updateAggregations (feed w evs ms) (ae_behavior e) (ae_id e) (ae_time e) (ae_nums e) w"
  by (simp add: feed_def)

lemma feed_nil [simp]: "feed w [] ms = ms"
  by (simp add: feed_def)

lemma buckets_of_new [simp]: "buckets_of (newMemberState m) b = Map.empty"
  by (simp add: buckets_of_def newMemberState_def)

lemma add_events_ids:
  "bk_ProcessedEventIDs (add_events es b) = bk_ProcessedEventIDs b \<union> ae_id ` set es"
  by (induction es arbitrary: b) (auto simp: add_events_def addEvent_def)

lemma add_events_snoc:
  "put_event (ae_id e) (ae_nums e) (add_events (firsts_by ae_id {} es) newBucketData) =
     add_events (firsts_by ae_id {} (es @ [e])) newBucketData"
proof -
  have "bk_ProcessedEventIDs (add_events (firsts_by ae_id {} es) newBucketData) = ae_id ` set es"
    by (simp add: add_events_ids key_firsts_by newBucketData_def)
  then show ?thesis
    by (auto simp: put_event_def firsts_by_append add_events_def)
qed

lemma buckets_are_history:
  assumes w: "window_ok w"
    and kept: "\<And>e. e \<in> set evs \<Longrightarrow> ae_behavior e = behavior \<Longrightarrow> cutoff (ae_time e) w \<le> ts"
  shows "buckets_of (feed w evs (newMemberState m)) behavior ts = bucket_spec behavior evs ts"
  using kept
proof (induction evs rule: rev_induct)
  case Nil
  then show ?case by (simp add: bucket_spec_def bucket_events_def)
next
  case (snoc e evs)
  let ?B = "buckets_of (feed w evs (newMemberState m)) behavior"
  have IH: "?B ts = bucket_spec behavior evs ts" using snoc by simp
  consider (other) "ae_behavior e \<noteq> behavior"
    | (here) "ae_behavior e = behavior" "alignBucket (ae_time e) = ts"
    | (elsewhere) "ae_behavior e = behavior" "alignBucket (ae_time e) \<noteq> ts"
    by blast
  then show ?case
  proof cases
    case other
    then show ?thesis
      using IH by (simp add: agg_simps bucket_spec_def bucket_events_def)
  next
    case here
    have "bucket_at ?B ts = add_events (firsts_by ae_id {} (bucket_events behavior ts evs)) newBucketData"
      using IH by (simp add: bucket_at_def bucket_spec_def add_events_def Let_def)
    then have "upd_buckets (ae_id e) (ae_time e) (ae_nums e) w ?B ts =
        Some (add_events (firsts_by ae_id {} (bucket_events behavior ts evs @ [e])) newBucketData)"
      using upd_buckets_own [OF w, of "ae_id e" "ae_time e" "ae_nums e" ?B] here
      by (simp add: add_events_snoc)
    then show ?thesis
      using here by (simp add: agg_simps bucket_spec_def bucket_events_def)
  next
    case elsewhere
    have "upd_buckets (ae_id e) (ae_time e) (ae_nums e) w ?B ts = ?B ts"
      using elsewhere snoc.prems [of e] by (intro upd_buckets_kept) auto
    then show ?thesis
      using elsewhere IH by (simp add: agg_simps bucket_spec_def bucket_events_def)
  qed
qed

lemma finite_feed: "finite (dom (buckets_of (feed w evs (newMemberState m)) b))"
  by (induction evs rule: rev_induct) (auto simp: agg_simps intro: finite_upd_buckets)

section \<open>Running extrema\<close>

text \<open>
  The maxima and minima of the code, in a bucket and across the buckets of a window, are one loop:
  keep the first value, replace it when a later one is strictly better. The locale states what the
  comparison must satisfy and what the loop then returns.
\<close>

definition best_step :: "(f64 \<Rightarrow> f64 \<Rightarrow> bool) \<Rightarrow> f64 option \<Rightarrow> f64 option \<Rightarrow> f64 option" where
  "best_step better mv cur = (case mv of
     None \<Rightarrow> cur
   | Some v \<Rightarrow> (case cur of None \<Rightarrow> Some v | Some c \<Rightarrow> if better v c then Some v else Some c))"

text \<open>\<open>r\<close> is the best of the values \<open>S\<close>, or absent when there is none.\<close>

definition is_best :: "(f64 \<Rightarrow> f64 \<Rightarrow> bool) \<Rightarrow> f64 option \<Rightarrow> f64 set \<Rightarrow> bool" where
  "is_best better r S \<longleftrightarrow> (case r of None \<Rightarrow> S = {} | Some m \<Rightarrow> m \<in> S \<and> (\<forall>v\<in>S. \<not> better v m))"

locale running_best =
  fixes better :: "f64 \<Rightarrow> f64 \<Rightarrow> bool"
  assumes better_irrefl: "\<not> better v v"
    and better_trans: "better a b \<Longrightarrow> better b c \<Longrightarrow> better a c"
    and better_cotrans: "a \<noteq> FNaN \<Longrightarrow> b \<noteq> FNaN \<Longrightarrow> c \<noteq> FNaN \<Longrightarrow> better a c \<Longrightarrow>
      better a b \<or> better b c"
begin

lemma best_step: "is_best better cur S \<Longrightarrow> is_best better (best_step better mv cur) (S \<union> set_option mv)"
  using better_irrefl better_trans
  by (auto simp: is_best_def best_step_def split: option.splits)

lemma best_fold:
  "is_best better cur S \<Longrightarrow>
    is_best better (fold (best_step better) mvs cur) (S \<union> (\<Union>mv\<in>set mvs. set_option mv))"
proof (induction mvs arbitrary: cur S)
  case (Cons mv mvs)
  from Cons.IH [OF best_step [OF Cons.prems, of mv]] show ?case by (simp add: Un_assoc)
qed simp

lemma best_of_best:
  assumes "is_best better r (\<Union>x\<in>X. set_option (g x))"
    and inner: "\<And>x. x \<in> X \<Longrightarrow> is_best better (g x) (V x)"
    and nan: "\<And>x. x \<in> X \<Longrightarrow> FNaN \<notin> V x"
  shows "is_best better r (\<Union>x\<in>X. V x)"
proof (cases r)
  case None
  have "V x = {}" if x: "x \<in> X" for x
  proof (cases "g x")
    case None with inner [OF x] show ?thesis by (simp add: is_best_def)
  next
    case (Some u) with assms(1) \<open>r = None\<close> x show ?thesis by (auto simp: is_best_def)
  qed
  then show ?thesis by (simp add: None is_best_def)
next
  case (Some m)
  then obtain x where x: "x \<in> X" "g x = Some m"
    and top: "\<And>y u. y \<in> X \<Longrightarrow> g y = Some u \<Longrightarrow> \<not> better u m"
    using assms(1) by (fastforce simp: is_best_def)
  have m: "m \<in> V x" using inner [OF x(1)] x(2) by (simp add: is_best_def)
  have "\<not> better v m" if y: "y \<in> X" and v: "v \<in> V y" for y v
  proof (cases "g y")
    case None with inner [OF y] v show ?thesis by (simp add: is_best_def)
  next
    case (Some u)
    then have "u \<in> V y" "\<not> better v u" using inner [OF y] v by (simp_all add: is_best_def)
    moreover have "\<not> better u m" using top [OF y Some] .
    ultimately show ?thesis using better_cotrans [of v u m] nan [OF y] nan [OF x(1)] v m by metis
  qed
  with x m show ?thesis by (auto simp: Some is_best_def)
qed

lemma best_of_folds:
  assumes inner: "\<And>x. x \<in> set xs \<Longrightarrow> is_best better (g x) (V x)"
    and nan: "\<And>x. x \<in> set xs \<Longrightarrow> FNaN \<notin> V x"
  shows "is_best better (fold (best_step better) (map g xs) None) (\<Union>x\<in>set xs. V x)"
proof (rule best_of_best [OF _ inner nan])
  show "is_best better (fold (best_step better) (map g xs) None) (\<Union>x\<in>set xs. set_option (g x))"
    using best_fold [of None "{}" "map g xs"] by (simp add: is_best_def)
qed

end

lemma f64_lt_cotrans:
  "a \<noteq> FNaN \<Longrightarrow> b \<noteq> FNaN \<Longrightarrow> c \<noteq> FNaN \<Longrightarrow> f64_lt a c \<Longrightarrow> f64_lt a b \<or> f64_lt b c"
proof -
  assume n: "a \<noteq> FNaN" "b \<noteq> FNaN" "c \<noteq> FNaN" and ac: "f64_lt a c"
  consider "f64_lt a b" | "f64_lt b a" | "f64_eq a b" using f64_total n by blast
  then show ?thesis
  proof cases
    case 3
    have "f64_lt b c"
    proof (cases "fin a \<and> fin b \<and> fin c")
      case True with 3 ac show ?thesis by (simp add: f64_lt_fin f64_eq_fin)
    next
      case False with 3 ac show ?thesis by (cases a; cases b; cases c) auto
    qed
    then show ?thesis ..
  qed (use ac f64_lt_trans in blast)+
qed

interpretation running_max: running_best "\<lambda>v c. f64_lt c v"
  by unfold_locales (auto dest: f64_lt_trans f64_lt_cotrans)

interpretation running_min: running_best f64_lt
  by unfold_locales (auto dest: f64_lt_trans f64_lt_cotrans)

lemma addMaxs_best: "addMaxs nf maxs f = best_step (\<lambda>v c. f64_lt c v) (nf f) (maxs f)"
  by (simp add: addMaxs_def best_step_def f64_ops split: option.splits)

lemma addMins_best: "addMins nf mins f = best_step f64_lt (nf f) (mins f)"
  by (simp add: addMins_def best_step_def f64_ops split: option.splits)

section \<open>What a bucket holds\<close>

lemma bk_Count_add: "bk_Count (add_events es b) = bk_Count b + of_nat (length es)"
  by (induction es arbitrary: b) (simp_all add: add_events_def addEvent_def)

lemma bk_Maxs_add:
  "bk_Maxs (add_events es b) f =
    fold (best_step (\<lambda>v c. f64_lt c v)) (map (\<lambda>e. ae_nums e f) es) (bk_Maxs b f)"
  by (induction es arbitrary: b) (simp_all add: add_events_def addEvent_def addMaxs_best)

lemma bk_Mins_add:
  "bk_Mins (add_events es b) f =
    fold (best_step f64_lt) (map (\<lambda>e. ae_nums e f) es) (bk_Mins b f)"
  by (induction es arbitrary: b) (simp_all add: add_events_def addEvent_def addMins_best)

lemma new_bucket [simp]:
  "bk_Count newBucketData = 0" "bk_Maxs newBucketData f = None" "bk_Mins newBucketData f = None"
  "bk_Sums newBucketData f = None"
  by (simp_all add: newBucketData_def)

section \<open>The window loop, variable by variable\<close>

definition window_bucket :: "(int \<rightharpoonup> bucket_data) \<Rightarrow> int \<Rightarrow> int \<Rightarrow> int \<Rightarrow> bucket_data option" where
  "window_bucket B since upper ts = (if ts < since \<or> upper < ts then None else B ts)"

definition max_of :: "agg_acc \<Rightarrow> f64 option" where
  "max_of acc = (if haveMax acc then Some (maxVal acc) else None)"

definition min_of :: "agg_acc \<Rightarrow> f64 option" where
  "min_of acc = (if haveMin acc then Some (minVal acc) else None)"

definition zero_if_none :: "f64 option \<Rightarrow> f64" where
  "zero_if_none r = (case r of None \<Rightarrow> fzero | Some v \<Rightarrow> v)"

text \<open>The value variables are zero until they are set.\<close>

definition acc_inv :: "agg_acc \<Rightarrow> bool" where
  "acc_inv acc \<longleftrightarrow> maxVal acc = zero_if_none (max_of acc) \<and> minVal acc = zero_if_none (min_of acc)"

lemmas acc_vars = acc_inv_def max_of_def min_of_def zero_if_none_def

lemma accStep_simps [agg_simps]:
  fixes B since upper ts f
  defines "w \<equiv> window_bucket B since upper ts"
  shows "totalCount (accStep f B since upper ts acc) =
      totalCount acc + (case w of None \<Rightarrow> 0 | Some b \<Rightarrow> bk_Count b)"
    and "totalSum (accStep f B since upper ts acc) =
      (case w of None \<Rightarrow> totalSum acc | Some b \<Rightarrow> f64_add (totalSum acc) (zero_if_none (bk_Sums b f)))"
    and "max_of (accStep f B since upper ts acc) =
      best_step (\<lambda>v c. f64_lt c v) (Option.bind w (\<lambda>b. bk_Maxs b f)) (max_of acc)"
    and "min_of (accStep f B since upper ts acc) =
      best_step f64_lt (Option.bind w (\<lambda>b. bk_Mins b f)) (min_of acc)"
  unfolding w_def
  by (auto simp: accStep_def accBucket_def accMax_def accMin_def window_bucket_def best_step_def
      max_of_def min_of_def f64_ops zero_if_none_def split: option.splits)

lemma accStep_inv: "acc_inv acc \<Longrightarrow> acc_inv (accStep f B since upper ts acc)"
  by (auto simp: accStep_def accBucket_def accMax_def accMin_def acc_vars split: option.splits if_splits)

lemma acc0_simps [simp]:
  "totalCount acc0 = 0" "totalSum acc0 = fzero" "max_of acc0 = None" "min_of acc0 = None" "acc_inv acc0"
  by (simp_all add: acc0_def acc_vars)

lemma fold_accStep:
  fixes B since upper f
  defines "w \<equiv> window_bucket B since upper"
  shows "totalCount (fold (accStep f B since upper) tss acc) =
      totalCount acc + (\<Sum>ts\<leftarrow>tss. case w ts of None \<Rightarrow> 0 | Some b \<Rightarrow> bk_Count b)"
    and "max_of (fold (accStep f B since upper) tss acc) =
      fold (best_step (\<lambda>v c. f64_lt c v)) (map (\<lambda>ts. Option.bind (w ts) (\<lambda>b. bk_Maxs b f)) tss) (max_of acc)"
    and "min_of (fold (accStep f B since upper) tss acc) =
      fold (best_step f64_lt) (map (\<lambda>ts. Option.bind (w ts) (\<lambda>b. bk_Mins b f)) tss) (min_of acc)"
    and "acc_inv acc \<Longrightarrow> acc_inv (fold (accStep f B since upper) tss acc)"
  unfolding w_def
  by (induction tss arbitrary: acc) (simp_all add: agg_simps add.assoc accStep_inv)

definition window_fold :: "int enumeration \<Rightarrow> string \<Rightarrow> (int \<rightharpoonup> bucket_data) \<Rightarrow> int \<Rightarrow> int \<Rightarrow> agg_acc" where
  "window_fold it f B since upper = fold (accStep f B since upper) (it (dom B)) acc0"

text \<open>A behaviour the member has no buckets of reads as an empty window.\<close>

lemma computeBucketAggregation_eq:
  assumes it: "enumerates it" and key: "parseAggregateField (ak_Field key) = (behavior, agg, f)"
  shows "computeBucketAggregation it ms key now =
    finishAggregation agg (window_fold it f (buckets_of ms behavior)
      (windowSince (ak_Window key) now) (alignBucket now))"
proof (cases "ms_Aggregations ms behavior")
  case None
  have "it {} = []" using enumeratesD(2) [OF it, of "{}"] by simp
  moreover have "finishAggregation agg acc0 = fzero"
    by (simp add: finishAggregation_def acc0_def f64_of_int_def fzero_def round_f64_def round_gen_def)
  ultimately show ?thesis
    by (simp add: computeBucketAggregation_def key None window_fold_def buckets_of_def)
next
  case (Some a)
  then show ?thesis by (simp add: computeBucketAggregation_def key window_fold_def buckets_of_def Let_def)
qed

lemma finish_simps:
  "finishAggregation ''COUNT'' acc = f64_of_int (uint (totalCount acc))"
  "finishAggregation ''SUM'' acc = totalSum acc"
  "acc_inv acc \<Longrightarrow> finishAggregation ''MAX'' acc = zero_if_none (max_of acc)"
  "acc_inv acc \<Longrightarrow> finishAggregation ''MIN'' acc = zero_if_none (min_of acc)"
  by (simp_all add: finishAggregation_def acc_inv_def)

section \<open>The events of a window\<close>

text \<open>
  What a windowed aggregate of a behaviour should range over: the events whose bucket lies between
  the two bounds, each (bucket, event ID) once.
\<close>

definition window_events :: "string \<Rightarrow> int \<Rightarrow> int \<Rightarrow> agg_event list \<Rightarrow> agg_event list" where
  "window_events behavior since upper evs =
     firsts_by (\<lambda>e. (alignBucket (ae_time e), ae_id e)) {}
       (filter (\<lambda>e. ae_behavior e = behavior \<and> since \<le> alignBucket (ae_time e) \<and>
          alignBucket (ae_time e) \<le> upper) evs)"

lemma window_events_bucket:
  "filter (\<lambda>e. alignBucket (ae_time e) = ts) (window_events behavior since upper evs) =
    (if since \<le> ts \<and> ts \<le> upper then firsts_by ae_id {} (bucket_events behavior ts evs) else [])"
proof -
  have "filter (\<lambda>e. alignBucket (ae_time e) = ts)
      (filter (\<lambda>e. ae_behavior e = behavior \<and> since \<le> alignBucket (ae_time e) \<and>
          alignBucket (ae_time e) \<le> upper) evs) =
      (if since \<le> ts \<and> ts \<le> upper then bucket_events behavior ts evs else [])"
    by (auto simp: bucket_events_def filter_filter intro!: filter_cong)
  then show ?thesis
    by (simp add: window_events_def firsts_by_filter [where g = "\<lambda>e. alignBucket (ae_time e)"])
qed

text \<open>No event of the behaviour has pruned a bucket that the window needs.\<close>

definition reach_ok :: "duration \<Rightarrow> string \<Rightarrow> int \<Rightarrow> agg_event list \<Rightarrow> bool" where
  "reach_ok w behavior since evs \<longleftrightarrow>
     list_all (\<lambda>e. ae_behavior e = behavior \<longrightarrow> cutoff (ae_time e) w \<le> since) evs"

lemma firsts_by_Nil [simp]: "firsts_by key {} es = [] \<longleftrightarrow> es = []"
  by (cases es) auto

lemma window_bucket_feed:
  assumes "window_ok w" "reach_ok w behavior since evs"
  shows "window_bucket (buckets_of (feed w evs (newMemberState m)) behavior) since upper ts =
    (let es = filter (\<lambda>e. alignBucket (ae_time e) = ts) (window_events behavior since upper evs)
     in if es = [] then None else Some (add_events es newBucketData))"
proof (cases "since \<le> ts \<and> ts \<le> upper")
  case True
  then have "buckets_of (feed w evs (newMemberState m)) behavior ts = bucket_spec behavior evs ts"
    using assms(2) by (intro buckets_are_history [OF assms(1)]) (auto simp: reach_ok_def list_all_iff)
  then show ?thesis
    using True by (simp add: window_bucket_def window_events_bucket bucket_spec_def Let_def)
qed (auto simp: window_bucket_def window_events_bucket)

lemma window_dom:
  assumes "window_ok w" "reach_ok w behavior since evs" "e \<in> set (window_events behavior since upper evs)"
  shows "alignBucket (ae_time e) \<in> dom (buckets_of (feed w evs (newMemberState m)) behavior)"
proof -
  let ?ts = "alignBucket (ae_time e)"
  have "e \<in> set (filter (\<lambda>x. alignBucket (ae_time x) = ?ts) (window_events behavior since upper evs))"
    using assms(3) by simp
  then have "filter (\<lambda>x. alignBucket (ae_time x) = ?ts) (window_events behavior since upper evs) \<noteq> []"
    by (metis empty_iff empty_set)
  then have "window_bucket (buckets_of (feed w evs (newMemberState m)) behavior) since upper ?ts \<noteq> None"
    unfolding window_bucket_feed [OF assms(1,2)] Let_def by simp
  then show ?thesis by (auto simp: window_bucket_def split: if_splits)
qed

lemma sum_list_by_key:
  fixes h :: "'e \<Rightarrow> 'a::comm_monoid_add"
  assumes "distinct ks" "\<And>e. e \<in> set es \<Longrightarrow> g e \<in> set ks"
  shows "(\<Sum>k\<leftarrow>ks. \<Sum>e\<leftarrow>filter (\<lambda>e. g e = k) es. h e) = (\<Sum>e\<leftarrow>es. h e)"
  using assms(2)
proof (induction es)
  case (Cons e es)
  have "(\<Sum>k\<leftarrow>ks. \<Sum>x\<leftarrow>filter (\<lambda>x. g x = k) (e # es). h x) =
      (\<Sum>k\<leftarrow>ks. (if g e = k then h e else 0) + (\<Sum>x\<leftarrow>filter (\<lambda>x. g x = k) es. h x))"
    by (intro arg_cong [where f = sum_list] map_cong) auto
  also have "\<dots> = (\<Sum>k\<leftarrow>ks. if g e = k then h e else 0) + (\<Sum>x\<leftarrow>es. h x)"
    using Cons by (simp add: sum_list_addf)
  also have "(\<Sum>k\<leftarrow>ks. if g e = k then h e else 0) = h e"
    using Cons.prems \<open>distinct ks\<close> by (simp add: sum_list_distinct_conv_sum_set)
  finally show ?case by simp
qed simp

lemma sum_list_filter_length:
  "distinct ks \<Longrightarrow> (\<And>e. e \<in> set es \<Longrightarrow> g e \<in> set ks) \<Longrightarrow>
    (\<Sum>k\<leftarrow>ks. length (filter (\<lambda>e. g e = k) es)) = length es"
  using sum_list_by_key [of ks es g "\<lambda>e. 1::nat"] by (simp add: sum_list_triv)

lemma sum_list_of_nat: "(\<Sum>x\<leftarrow>xs. of_nat (g x)) = (of_nat (\<Sum>x\<leftarrow>xs. g x) :: 'a::semiring_1)"
  by (induction xs) simp_all

lemma window_count:
  assumes it: "enumerates it" and w: "window_ok w" "reach_ok w behavior since evs"
  shows "totalCount (window_fold it f (buckets_of (feed w evs (newMemberState m)) behavior) since upper) =
    of_nat (length (window_events behavior since upper evs))"
proof -
  let ?B = "buckets_of (feed w evs (newMemberState m)) behavior"
  let ?W = "window_events behavior since upper evs"
  note en = enumeratesD [OF it finite_feed]
  have "(case window_bucket ?B since upper ts of None \<Rightarrow> 0 | Some b \<Rightarrow> bk_Count b) =
      of_nat (length (filter (\<lambda>e. alignBucket (ae_time e) = ts) ?W))" for ts
    unfolding window_bucket_feed [OF w] by (simp add: Let_def bk_Count_add)
  then have "totalCount (window_fold it f ?B since upper) =
      (\<Sum>ts\<leftarrow>it (dom ?B). of_nat (length (filter (\<lambda>e. alignBucket (ae_time e) = ts) ?W)))"
    by (simp add: window_fold_def fold_accStep)
  also have "\<dots> = of_nat (\<Sum>ts\<leftarrow>it (dom ?B). length (filter (\<lambda>e. alignBucket (ae_time e) = ts) ?W))"
    by (rule sum_list_of_nat)
  also have "\<dots> = of_nat (length ?W)"
    by (subst sum_list_filter_length) (use en window_dom [OF w] in auto)
  finally show ?thesis .
qed

section \<open>Extrema of a window\<close>

definition window_values :: "string \<Rightarrow> agg_event list \<Rightarrow> f64 set" where
  "window_values f es = (\<Union>e\<in>set es. set_option (ae_nums e f))"

lemma window_values_split:
  assumes "\<And>e. e \<in> set es \<Longrightarrow> g e \<in> set ks"
  shows "(\<Union>k\<in>set ks. window_values f (filter (\<lambda>e. g e = k) es)) = window_values f es"
  using assms by (auto simp: window_values_def)

lemma window_max:
  assumes it: "enumerates it" and w: "window_ok w" "reach_ok w behavior since evs"
    and nan: "FNaN \<notin> window_values f (window_events behavior since upper evs)"
  shows "is_best (\<lambda>v c. f64_lt c v)
    (max_of (window_fold it f (buckets_of (feed w evs (newMemberState m)) behavior) since upper))
    (window_values f (window_events behavior since upper evs))"
proof -
  let ?B = "buckets_of (feed w evs (newMemberState m)) behavior"
  let ?W = "window_events behavior since upper evs"
  let ?at = "\<lambda>ts. filter (\<lambda>e. alignBucket (ae_time e) = ts) ?W"
  let ?g = "\<lambda>ts. Option.bind (window_bucket ?B since upper ts) (\<lambda>b. bk_Maxs b f)"
  note en = enumeratesD [OF it finite_feed]
  have g: "?g ts = fold (best_step (\<lambda>v c. f64_lt c v)) (map (\<lambda>e. ae_nums e f) (?at ts)) None" for ts
    unfolding window_bucket_feed [OF w] by (simp add: Let_def bk_Maxs_add)
  have "is_best (\<lambda>v c. f64_lt c v) (fold (best_step (\<lambda>v c. f64_lt c v)) (map ?g (it (dom ?B))) None)
      (\<Union>ts\<in>set (it (dom ?B)). window_values f (?at ts))"
  proof (rule running_max.best_of_folds)
    show "is_best (\<lambda>v c. f64_lt c v) (?g ts) (window_values f (?at ts))" for ts
      using running_max.best_fold [of None "{}" "map (\<lambda>e. ae_nums e f) (?at ts)"]
      by (simp add: g is_best_def window_values_def)
    show "FNaN \<notin> window_values f (?at ts)" for ts using nan by (auto simp: window_values_def)
  qed
  then show ?thesis
    using window_values_split [of ?W "\<lambda>e. alignBucket (ae_time e)" "it (dom ?B)" f] en
      window_dom [OF w] by (simp add: window_fold_def fold_accStep)
qed

lemma window_min:
  assumes it: "enumerates it" and w: "window_ok w" "reach_ok w behavior since evs"
    and nan: "FNaN \<notin> window_values f (window_events behavior since upper evs)"
  shows "is_best f64_lt
    (min_of (window_fold it f (buckets_of (feed w evs (newMemberState m)) behavior) since upper))
    (window_values f (window_events behavior since upper evs))"
proof -
  let ?B = "buckets_of (feed w evs (newMemberState m)) behavior"
  let ?W = "window_events behavior since upper evs"
  let ?at = "\<lambda>ts. filter (\<lambda>e. alignBucket (ae_time e) = ts) ?W"
  let ?g = "\<lambda>ts. Option.bind (window_bucket ?B since upper ts) (\<lambda>b. bk_Mins b f)"
  note en = enumeratesD [OF it finite_feed]
  have g: "?g ts = fold (best_step f64_lt) (map (\<lambda>e. ae_nums e f) (?at ts)) None" for ts
    unfolding window_bucket_feed [OF w] by (simp add: Let_def bk_Mins_add)
  have "is_best f64_lt (fold (best_step f64_lt) (map ?g (it (dom ?B))) None)
      (\<Union>ts\<in>set (it (dom ?B)). window_values f (?at ts))"
  proof (rule running_min.best_of_folds)
    show "is_best f64_lt (?g ts) (window_values f (?at ts))" for ts
      using running_min.best_fold [of None "{}" "map (\<lambda>e. ae_nums e f) (?at ts)"]
      by (simp add: g is_best_def window_values_def)
    show "FNaN \<notin> window_values f (?at ts)" for ts using nan by (auto simp: window_values_def)
  qed
  then show ?thesis
    using window_values_split [of ?W "\<lambda>e. alignBucket (ae_time e)" "it (dom ?B)" f] en
      window_dom [OF w] by (simp add: window_fold_def fold_accStep)
qed

section \<open>Exact sums\<close>

text \<open>\<open>v\<close> is the integer \<open>k\<close>; a field's integer amount in an event is 0 where it is missing.\<close>

definition exact :: "f64 \<Rightarrow> int \<Rightarrow> bool" where
  "exact v k \<longleftrightarrow> fin v \<and> fval v = real_of_int k"

definition int_amount :: "string \<Rightarrow> (agg_event \<Rightarrow> int) \<Rightarrow> agg_event \<Rightarrow> bool" where
  "int_amount f k e \<longleftrightarrow> (case ae_nums e f of None \<Rightarrow> k e = 0 | Some v \<Rightarrow> exact v (k e))"

lemma exact_fzero [simp]: "exact fzero 0"
  by (simp add: exact_def fzero_def)

lemma exact_add: "exact a i \<Longrightarrow> exact b j \<Longrightarrow> \<bar>i + j\<bar> < 2 ^ 53 \<Longrightarrow> exact (f64_add a b) (i + j)"
  using f64_add_exact [of a b "i + j"] by (simp add: exact_def)

lemma abs_sum_list: "\<bar>\<Sum>x\<leftarrow>xs. k x\<bar> \<le> (\<Sum>x\<leftarrow>xs. \<bar>k x\<bar>)" for k :: "'a \<Rightarrow> int"
  by (induction xs) auto

lemma exact_fold:
  assumes "exact a i" "\<And>x. x \<in> set xs \<Longrightarrow> exact (v x) (k x)" "\<bar>i\<bar> + (\<Sum>x\<leftarrow>xs. \<bar>k x\<bar>) < 2 ^ 53"
  shows "exact (fold (\<lambda>x s. f64_add s (v x)) xs a) (i + (\<Sum>x\<leftarrow>xs. k x))"
  using assms
proof (induction xs arbitrary: a i)
  case (Cons x xs)
  have "0 \<le> (\<Sum>x\<leftarrow>xs. \<bar>k x\<bar>)" by (induction xs) auto
  then have b: "\<bar>i + k x\<bar> < 2 ^ 53" "\<bar>i + k x\<bar> + (\<Sum>x\<leftarrow>xs. \<bar>k x\<bar>) < 2 ^ 53"
    using Cons.prems(3) by auto
  have "exact (f64_add a (v x)) (i + k x)"
    using Cons.prems by (intro exact_add b) auto
  from Cons.IH [OF this _ b(2)] Cons.prems(2) show ?case by (simp add: add.assoc)
qed simp

lemma bk_Sums_exact:
  assumes "exact (zero_if_none (bk_Sums b f)) i" "list_all (int_amount f k) es"
    "\<bar>i\<bar> + (\<Sum>e\<leftarrow>es. \<bar>k e\<bar>) < 2 ^ 53"
  shows "exact (zero_if_none (bk_Sums (add_events es b) f)) (i + (\<Sum>e\<leftarrow>es. k e))"
  using assms
proof (induction es arbitrary: b i)
  case (Cons e es)
  let ?b = "addEvent (ae_id e) (ae_nums e) b"
  have "0 \<le> (\<Sum>x\<leftarrow>es. \<bar>k x\<bar>)" by (induction es) auto
  then have b: "\<bar>i + k e\<bar> < 2 ^ 53" "\<bar>i + k e\<bar> + (\<Sum>x\<leftarrow>es. \<bar>k x\<bar>) < 2 ^ 53"
    using Cons.prems(3) by auto
  have "exact (zero_if_none (bk_Sums ?b f)) (i + k e)"
    using Cons.prems(1,2) exact_add [OF Cons.prems(1) _ b(1)]
    by (auto simp: addEvent_def addSums_def int_amount_def zero_if_none_def f64_ops split: option.splits)
  from Cons.IH [OF this _ b(2)] Cons.prems(2) show ?case
    by (simp add: add_events_def add.assoc)
qed (simp add: add_events_def)

lemma fold_if_skip:
  "fold (\<lambda>x s. if P x then s else F x s) xs s = fold F (filter (\<lambda>x. \<not> P x) xs) s"
  by (induction xs arbitrary: s) auto

lemma sum_list_filter_zero:
  fixes h :: "'x \<Rightarrow> 'a::comm_monoid_add"
  shows "(\<And>x. \<not> P x \<Longrightarrow> h x = 0) \<Longrightarrow> (\<Sum>x\<leftarrow>filter P xs. h x) = (\<Sum>x\<leftarrow>xs. h x)"
  by (induction xs) auto

lemma exact_groups:
  fixes grp :: "'t \<Rightarrow> 'e list"
  assumes v: "\<And>ts. ts \<in> set tss \<Longrightarrow> (\<Sum>e\<leftarrow>grp ts. \<bar>k e\<bar>) < 2 ^ 53 \<Longrightarrow> exact (v ts) (\<Sum>e\<leftarrow>grp ts. k e)"
    and small: "(\<Sum>ts\<leftarrow>tss. \<Sum>e\<leftarrow>grp ts. \<bar>k e\<bar>) < 2 ^ 53"
  shows "exact (fold (\<lambda>ts s. if grp ts = [] then s else f64_add s (v ts)) tss fzero)
    (\<Sum>ts\<leftarrow>tss. \<Sum>e\<leftarrow>grp ts. k e)"
proof -
  let ?ts = "filter (\<lambda>ts. grp ts \<noteq> []) tss"
  have eq: "(\<Sum>ts\<leftarrow>?ts. \<Sum>e\<leftarrow>grp ts. h e) = (\<Sum>ts\<leftarrow>tss. \<Sum>e\<leftarrow>grp ts. h e)" for h :: "'e \<Rightarrow> int"
    by (rule sum_list_filter_zero) simp
  have "exact (v ts) (\<Sum>e\<leftarrow>grp ts. k e)" if ts: "ts \<in> set ?ts" for ts
  proof (rule v)
    have "(\<Sum>e\<leftarrow>grp ts. \<bar>k e\<bar>) \<le> (\<Sum>ts\<leftarrow>tss. \<Sum>e\<leftarrow>grp ts. \<bar>k e\<bar>)"
      using ts by (intro member_le_sum_list) (auto intro!: sum_list_nonneg)
    then show "(\<Sum>e\<leftarrow>grp ts. \<bar>k e\<bar>) < 2 ^ 53" using small by simp
  qed (use ts in simp)
  moreover have "(\<Sum>ts\<leftarrow>?ts. \<bar>\<Sum>e\<leftarrow>grp ts. k e\<bar>) < 2 ^ 53"
    using sum_list_mono [of ?ts "\<lambda>ts. \<bar>\<Sum>e\<leftarrow>grp ts. k e\<bar>" "\<lambda>ts. \<Sum>e\<leftarrow>grp ts. \<bar>k e\<bar>"] small
    by (simp add: abs_sum_list eq)
  ultimately have "exact (fold (\<lambda>ts s. f64_add s (v ts)) ?ts fzero) (0 + (\<Sum>ts\<leftarrow>?ts. \<Sum>e\<leftarrow>grp ts. k e))"
    by (intro exact_fold) auto
  then show ?thesis by (simp add: fold_if_skip eq)
qed

lemma window_sum:
  assumes it: "enumerates it" and w: "window_ok w" "reach_ok w behavior since evs"
    and k: "list_all (int_amount f k) (window_events behavior since upper evs)"
    and small: "(\<Sum>e\<leftarrow>window_events behavior since upper evs. \<bar>k e\<bar>) < 2 ^ 53"
  shows "exact (totalSum (window_fold it f (buckets_of (feed w evs (newMemberState m)) behavior) since upper))
    (\<Sum>e\<leftarrow>window_events behavior since upper evs. k e)"
proof -
  let ?B = "buckets_of (feed w evs (newMemberState m)) behavior"
  let ?W = "window_events behavior since upper evs"
  let ?at = "\<lambda>ts. filter (\<lambda>e. alignBucket (ae_time e) = ts) ?W"
  let ?v = "\<lambda>ts. zero_if_none (bk_Sums (add_events (?at ts) newBucketData) f)"
  note en = enumeratesD [OF it finite_feed]
  have by_key: "(\<Sum>ts\<leftarrow>it (dom ?B). \<Sum>e\<leftarrow>?at ts. h e) = (\<Sum>e\<leftarrow>?W. h e)" for h :: "agg_event \<Rightarrow> int"
    using en window_dom [OF w] by (intro sum_list_by_key) auto
  have tot: "totalSum (fold (accStep f ?B since upper) tss acc) =
      fold (\<lambda>ts s. if ?at ts = [] then s else f64_add s (?v ts)) tss (totalSum acc)" for tss acc
    by (induction tss arbitrary: acc)
      (simp_all add: agg_simps window_bucket_feed [OF w] Let_def)
  have "exact (?v ts) (\<Sum>e\<leftarrow>?at ts. k e)" if "(\<Sum>e\<leftarrow>?at ts. \<bar>k e\<bar>) < 2 ^ 53" for ts
    using bk_Sums_exact [of newBucketData f 0 k "?at ts"] k that
    by (simp add: zero_if_none_def list_all_iff)
  then show ?thesis
    using exact_groups [where tss = "it (dom ?B)" and grp = ?at and k = k and v = ?v] small
    by (simp add: window_fold_def tot by_key)
qed

section \<open>Aggregate fields and the reach of a window\<close>

lemma split_n_3:
  assumes "CHR '':'' \<notin> set b" "CHR '':'' \<notin> set a"
  shows "split_n CHR '':'' 3 (b @ CHR '':'' # a) = [b, a]"
    and "split_n CHR '':'' 3 (b @ CHR '':'' # a @ CHR '':'' # f) = [b, a, f]"
  using assms by (simp_all add: numeral_3_eq_3 split_first)

lemma parseAggregateField_parts:
  assumes "CHR '':'' \<notin> set b" "CHR '':'' \<notin> set a"
  shows "parseAggregateField (b @ CHR '':'' # a) = (b, to_upper a, [])"
    and "parseAggregateField (b @ CHR '':'' # a @ CHR '':'' # f) = (b, to_upper a, f)"
  using split_n_3 [OF assms] by (simp_all add: parseAggregateField_def Let_def)

text \<open>A window of at most the retention, asked at a time no event is too far ahead of.\<close>

lemma reach_ok_within:
  assumes "window_ok w" "window_ok (Duration (Some win))"
    and "\<And>e. e \<in> set evs \<Longrightarrow> ae_behavior e = behavior \<Longrightarrow> ae_time e - w \<le> now - Duration (Some win)"
  shows "reach_ok w behavior (windowSince (Some win) now) evs"
  using assms
  by (auto simp: reach_ok_def list_all_iff cutoff_def windowSince_def time_add_def
      simp del: Duration.simps intro!: alignBucket_mono)

section \<open>Order of arrival\<close>

text \<open>
  The Event Identity Contract: two events of a behaviour in one bucket with the same ID are the
  same event.
\<close>

definition identity_contract :: "agg_event list \<Rightarrow> bool" where
  "identity_contract evs \<longleftrightarrow> (\<forall>e\<in>set evs. \<forall>e'\<in>set evs.
     ae_behavior e = ae_behavior e' \<longrightarrow> alignBucket (ae_time e) = alignBucket (ae_time e') \<longrightarrow>
     ae_id e = ae_id e' \<longrightarrow> ae_nums e = ae_nums e')"

lemma length_firsts_by: "length (firsts_by key {} es) = card (key ` set es)"
proof -
  have "card (set (map key (firsts_by key {} es))) = length (map key (firsts_by key {} es))"
    by (rule distinct_card [OF distinct_firsts_by])
  then show ?thesis using key_firsts_by [of key "{}" es] by simp
qed

lemma length_firsts_by_le: "length (firsts_by key seen es) \<le> length es"
  by (induction es arbitrary: seen) (auto intro: le_SucI)

lemma length_window_events: "length (window_events behavior since upper evs) \<le> length evs"
  unfolding window_events_def
  by (rule order_trans [OF length_firsts_by_le length_filter_le])

lemma firsts_by_values:
  assumes "\<And>e e'. e \<in> set es \<Longrightarrow> e' \<in> set es \<Longrightarrow> key e = key e' \<Longrightarrow> g e = g e'"
  shows "g ` set (firsts_by key {} es) = g ` set es"
proof
  show "g ` set (firsts_by key {} es) \<subseteq> g ` set es" using firsts_by_subset [of key "{}" es] by auto
  show "g ` set es \<subseteq> g ` set (firsts_by key {} es)"
  proof
    fix v assume "v \<in> g ` set es"
    then obtain e where e: "e \<in> set es" "v = g e" by auto
    then have "key e \<in> key ` set (firsts_by key {} es)" by (simp add: key_firsts_by)
    then obtain e' where "e' \<in> set (firsts_by key {} es)" "key e' = key e" by (metis imageE)
    then show "v \<in> g ` set (firsts_by key {} es)"
      using assms [of e e'] e firsts_by_subset [of key "{}" es] by auto
  qed
qed

lemma window_values_image: "window_values f es = \<Union> (set_option ` ((\<lambda>e. ae_nums e f) ` set es))"
  by (simp add: window_values_def image_image)

lemma window_events_perm:
  assumes "set evs = set evs'"
  shows "length (window_events b since upper evs) = length (window_events b since upper evs')"
    and "identity_contract evs \<Longrightarrow>
      window_values f (window_events b since upper evs) = window_values f (window_events b since upper evs')"
proof -
  let ?P = "\<lambda>e. ae_behavior e = b \<and> since \<le> alignBucket (ae_time e) \<and> alignBucket (ae_time e) \<le> upper"
  let ?key = "\<lambda>e. (alignBucket (ae_time e), ae_id e)"
  show "length (window_events b since upper evs) = length (window_events b since upper evs')"
    by (simp add: window_events_def length_firsts_by assms)
  assume c: "identity_contract evs"
  have "(\<lambda>e. ae_nums e f) ` set (window_events b since upper xs) = (\<lambda>e. ae_nums e f) ` set (filter ?P xs)"
    if "set xs = set evs" for xs
    unfolding window_events_def
  proof (rule firsts_by_values)
    fix e e' assume e: "e \<in> set (filter ?P xs)" "e' \<in> set (filter ?P xs)" and k: "?key e = ?key e'"
    from e(1) have 1: "e \<in> set evs" "ae_behavior e = b" unfolding set_filter that by blast+
    from e(2) have 2: "e' \<in> set evs" "ae_behavior e' = b" unfolding set_filter that by blast+
    have "ae_behavior e = ae_behavior e'" unfolding 1 2 ..
    with 1(1) 2(1) have "ae_nums e = ae_nums e'" using c k unfolding identity_contract_def prod.inject by blast
    then show "ae_nums e f = ae_nums e' f" by simp
  qed
  then have "(\<lambda>e. ae_nums e f) ` set (window_events b since upper evs) =
      (\<lambda>e. ae_nums e f) ` set (window_events b since upper evs')"
    using assms by simp
  then show "window_values f (window_events b since upper evs) =
      window_values f (window_events b since upper evs')"
    by (simp only: window_values_image)
qed

lemma is_best_unique:
  assumes "is_best better r S" "is_best better r' S"
    and "\<And>a b. a \<in> S \<Longrightarrow> b \<in> S \<Longrightarrow> \<not> better a b \<Longrightarrow> \<not> better b a \<Longrightarrow> f64_eq a b"
  shows "r = None \<and> r' = None \<or> (\<exists>a b. r = Some a \<and> r' = Some b \<and> f64_eq a b)"
  using assms by (cases r; cases r') (auto simp: is_best_def)

section \<open>Properties\<close>


text \<open>MAX is the greatest amount among the window's events, and 0 when none of them carries the
  field.\<close>

theorem max_over_window:
  assumes "enumerates it" "window_ok w"
    and "parseAggregateField (ak_Field key) = (behavior, ''MAX'', f)"
    and "reach_ok w behavior (windowSince (ak_Window key) now) evs"
    and "W = window_events behavior (windowSince (ak_Window key) now) (alignBucket now) evs"
    and "FNaN \<notin> window_values f W"
    and "r = computeBucketAggregation it (feed w evs (newMemberState m)) key now"
  shows "if window_values f W = {} then r = fzero
    else r \<in> window_values f W \<and> (\<forall>v\<in>window_values f W. \<not> f64_lt r v)"
  using window_max [OF assms(1,2,4) assms(6) [unfolded assms(5)], of m]
  by (auto simp: assms(5,7) computeBucketAggregation_eq [OF assms(1,3)] finish_simps window_fold_def
      fold_accStep is_best_def zero_if_none_def split: option.splits)

text \<open>MIN is the least amount among the window's events, and 0 when none of them carries the
  field.\<close>

theorem min_over_window:
  assumes "enumerates it" "window_ok w"
    and "parseAggregateField (ak_Field key) = (behavior, ''MIN'', f)"
    and "reach_ok w behavior (windowSince (ak_Window key) now) evs"
    and "W = window_events behavior (windowSince (ak_Window key) now) (alignBucket now) evs"
    and "FNaN \<notin> window_values f W"
    and "r = computeBucketAggregation it (feed w evs (newMemberState m)) key now"
  shows "if window_values f W = {} then r = fzero
    else r \<in> window_values f W \<and> (\<forall>v\<in>window_values f W. \<not> f64_lt v r)"
  using window_min [OF assms(1,2,4) assms(6) [unfolded assms(5)], of m]
  by (auto simp: assms(5,7) computeBucketAggregation_eq [OF assms(1,3)] finish_simps window_fold_def
      fold_accStep is_best_def zero_if_none_def split: option.splits)


lemma f64_eq_refl: "v \<noteq> FNaN \<Longrightarrow> f64_eq v v"
  by (cases v) auto

lemma f64_of_int_not_nan: "f64_of_int i \<noteq> FNaN"
  by (simp add: f64_of_int_def round_f64_def round_gen_def Let_def split: prod.split)

lemma zero_if_none_unique:
  assumes "is_best better r S" "is_best better r' S" "FNaN \<notin> S"
    and b: "better = f64_lt \<or> better = (\<lambda>v c. f64_lt c v)"
  shows "f64_eq (zero_if_none r) (zero_if_none r')"
proof -
  have "f64_eq x y" if "x \<in> S" "y \<in> S" "\<not> better x y" "\<not> better y x" for x y
    using f64_total [of x y] that b assms(3) by metis
  from is_best_unique [OF assms(1,2) this] show ?thesis
    using f64_eq_refl [of fzero] by (auto simp: zero_if_none_def fzero_def)
qed


lemma updated_bucket:
  assumes "window_ok w" "e \<in> set evs"
    and "reach_ok w (ae_behavior e) (alignBucket (ae_time e)) evs"
  obtains b where "buckets_of (feed w evs (newMemberState m)) (ae_behavior e) (alignBucket (ae_time e)) = Some b"
    and "ae_id e \<in> bk_ProcessedEventIDs b"
proof -
  let ?es = "bucket_events (ae_behavior e) (alignBucket (ae_time e)) evs"
  have e: "e \<in> set ?es" using assms(2) by (simp add: bucket_events_def)
  then have "?es \<noteq> []" by auto
  moreover have "ae_id e \<in> bk_ProcessedEventIDs (add_events (firsts_by ae_id {} ?es) newBucketData)"
    using e by (simp add: add_events_ids key_firsts_by)
  ultimately show thesis
    using that buckets_are_history [OF assms(1), of evs "ae_behavior e" "alignBucket (ae_time e)" m] assms(3)
    by (simp add: bucket_spec_def reach_ok_def list_all_iff Let_def)
qed

text \<open>C20 Redelivered events are no-ops: after a history, folding in again any of its events whose
  buckets are still in reach leaves the member as it was, field for field.\<close>

theorem redelivery_is_noop:
  assumes "window_ok w" "set dups \<subseteq> set evs"
    and "\<forall>d\<in>set dups. reach_ok w (ae_behavior d) (alignBucket (ae_time d)) evs"
  shows "feed w (evs @ dups) (newMemberState m) = feed w evs (newMemberState m)"
  using assms(2,3)
proof (induction dups rule: rev_induct)
  case (snoc d dups)
  let ?ms = "feed w evs (newMemberState m)"
  obtain b where b: "buckets_of ?ms (ae_behavior d) (alignBucket (ae_time d)) = Some b"
      "ae_id d \<in> bk_ProcessedEventIDs b"
    using updated_bucket [OF assms(1), of d evs m] snoc.prems by auto
  then obtain a where "ms_Aggregations ?ms (ae_behavior d) = Some a"
      "ag_Buckets a (alignBucket (ae_time d)) = Some b"
    by (auto simp: buckets_of_def split: option.splits)
  from update_seen [OF this b(2)] snoc show ?case by (simp flip: append_assoc)
qed simp

section \<open>Concrete histories\<close>

definition trade :: "string \<Rightarrow> time \<Rightarrow> int \<Rightarrow> agg_event" where
  "trade i t amount = \<lparr>ae_behavior = ''Trade'', ae_id = i, ae_time = t,
     ae_nums = [''amount'' \<mapsto> f64_of_int amount]\<rparr>"

definition demo_trades :: "agg_event list" where
  "demo_trades = [trade ''e1'' (600 * Second) 30, trade ''e2'' (630 * Second) 50,
     trade ''e1'' (600 * Second) 30, trade ''e3'' (700 * Second) 20]"

definition demo_key :: "string \<Rightarrow> agg_key" where
  "demo_key agg = \<lparr>ak_Field = ''Trade:'' @ agg @ '':amount'',
     ak_Window = Some \<lparr>tw_Value = 5, tw_Unit = ''minutes''\<rparr>\<rparr>"

lemma demo_parse:
  "parseAggregateField (ak_Field (demo_key ''COUNT'')) = (''Trade'', ''COUNT'', ''amount'')"
  "parseAggregateField (ak_Field (demo_key ''SUM'')) = (''Trade'', ''SUM'', ''amount'')"
  "parseAggregateField (ak_Field (demo_key ''MAX'')) = (''Trade'', ''MAX'', ''amount'')"
  "parseAggregateField (ak_Field (demo_key ''MIN'')) = (''Trade'', ''MIN'', ''amount'')"
  by code_simp+

lemma demo_times:
  "windowSince (Some \<lparr>tw_Value = 5, tw_Unit = ''minutes''\<rparr>) (710 * Second) = 360"
  "alignBucket (710 * Second) = 660" "alignBucket (600 * Second) = 600"
  "alignBucket (630 * Second) = 600" "alignBucket (700 * Second) = 660"
  "cutoff (600 * Second) Hour = - 3000" "cutoff (630 * Second) Hour = - 3000"
  "cutoff (700 * Second) Hour = - 2940"
  by code_simp+

lemma demo_hyps:
  "window_ok Hour"
  "reach_ok Hour ''Trade'' (windowSince (ak_Window (demo_key a)) (710 * Second)) demo_trades"
  "window_events ''Trade'' (windowSince (ak_Window (demo_key a)) (710 * Second))
     (alignBucket (710 * Second)) demo_trades =
   [trade ''e1'' (600 * Second) 30, trade ''e2'' (630 * Second) 50, trade ''e3'' (700 * Second) 20]"
  "length demo_trades = 4"
  by (simp add: window_ok_def Hour_def)
    (simp_all add: demo_trades_def demo_key_def trade_def reach_ok_def demo_times window_events_def)

lemma demo_values:
  "window_values ''amount'' [trade ''e1'' (600 * Second) 30, trade ''e2'' (630 * Second) 50,
     trade ''e3'' (700 * Second) 20] = {f64_of_int 30, f64_of_int 50, f64_of_int 20}"
  by (auto simp: window_values_def trade_def)


theorem max_over_window_witness:
  "computeBucketAggregation sorted_list_of_set (feed Hour demo_trades (newMemberState ''m''))
     (demo_key ''MAX'') (710 * Second) \<in> {f64_of_int 30, f64_of_int 50, f64_of_int 20}"
  using max_over_window [OF enumerates_sorted demo_hyps(1) demo_parse(3) demo_hyps(2) refl _ refl, of "''m''"]
  unfolding demo_hyps demo_values by (simp add: f64_of_int_not_nan [symmetric] f64_of_int_not_nan)

theorem min_over_window_witness:
  "computeBucketAggregation sorted_list_of_set (feed Hour demo_trades (newMemberState ''m''))
     (demo_key ''MIN'') (710 * Second) \<in> {f64_of_int 30, f64_of_int 50, f64_of_int 20}"
  using min_over_window [OF enumerates_sorted demo_hyps(1) demo_parse(4) demo_hyps(2) refl _ refl, of "''m''"]
  unfolding demo_hyps demo_values by (simp add: f64_of_int_not_nan [symmetric] f64_of_int_not_nan)



theorem redelivery_is_noop_witness:
  "feed Hour (demo_trades @ rev demo_trades) (newMemberState ''m'') = feed Hour demo_trades (newMemberState ''m'')"
  by (rule redelivery_is_noop [OF demo_hyps(1)])
    (simp_all add: reach_ok_def demo_trades_def trade_def demo_times)

definition rounding_state :: member_state where
  "rounding_state = (newMemberState ''m'')\<lparr>ms_Aggregations := [''Trade'' \<mapsto> \<lparr>ag_Buckets =
     [0 \<mapsto> addEvent ''a'' [''amount'' \<mapsto> f64_of_int 9007199254740992] newBucketData,
      60 \<mapsto> addEvent ''b'' [''amount'' \<mapsto> f64_of_int 1] newBucketData,
      120 \<mapsto> addEvent ''c'' [''amount'' \<mapsto> f64_of_int 1] newBucketData]\<rparr>]\<rparr>"

lemma rounding_steps:
  "f64_of_int 9007199254740992 = FFin False 4503599627370496 1"
  "f64_of_int 1 = FFin False 4503599627370496 (- 52)"
  "f64_add fzero (FFin False 4503599627370496 1) = FFin False 4503599627370496 1"
  "f64_add fzero (FFin False 4503599627370496 (- 52)) = FFin False 4503599627370496 (- 52)"
  "f64_add (FFin False 4503599627370496 1) (FFin False 4503599627370496 (- 52)) =
     FFin False 4503599627370496 1"
  "f64_add (FFin False 4503599627370496 (- 52)) (FFin False 4503599627370496 (- 52)) =
     FFin False 4503599627370496 (- 51)"
  "f64_add (FFin False 4503599627370496 (- 51)) (FFin False 4503599627370496 1) =
     FFin False 4503599627370497 1"
  "f64_lt (FFin False 4503599627370496 1) (FFin False 4503599627370497 1)"
  by code_simp+

text \<open>SUM depends on the order in which the buckets are visited: with amounts \<open>2^53\<close>, 1 and 1 in
  three minutes, ascending and descending order differ. The language leaves that order open, so
  two runs over the same state can answer a condition differently.\<close>

theorem sum_depends_on_bucket_order:
  "\<exists>ms key now it it'. enumerates it \<and> enumerates it' \<and>
     f64_lt (computeBucketAggregation it ms key now) (computeBucketAggregation it' ms key now)"
proof (intro exI conjI)
  let ?it' = "\<lambda>A. rev (sorted_list_of_set A) :: int list"
  show "enumerates sorted_list_of_set" by (rule enumerates_sorted)
  show it': "enumerates ?it'" using enumerates_sorted by (simp add: enumerates_def)
  let ?key = "\<lparr>ak_Field = ''Trade:SUM:amount'', ak_Window = None\<rparr>"
  have key: "parseAggregateField (ak_Field ?key) = (''Trade'', ''SUM'', ''amount'')" by code_simp
  have up: "alignBucket (200 * Second) = 180" by code_simp
  have sums: "computeBucketAggregation it rounding_state ?key (200 * Second) =
      fold (\<lambda>ts s. f64_add s (f64_add fzero (if ts = 0 then f64_of_int 9007199254740992 else f64_of_int 1)))
        (it {0, 60, 120}) fzero" if "enumerates it" for it
  proof -
    define B where "B = buckets_of rounding_state ''Trade''"
    have d: "dom B = {0, 60, 120}" by (auto simp: B_def rounding_state_def buckets_of_def)
    have "totalSum (fold (accStep ''amount'' B 0 180) tss acc) =
        fold (\<lambda>ts s. f64_add s (f64_add fzero (if ts = 0 then f64_of_int 9007199254740992 else f64_of_int 1)))
          tss (totalSum acc)" if "set tss \<subseteq> {0, 60, 120}" for tss acc
      using that
      by (induction tss arbitrary: acc)
        (auto simp: agg_simps window_bucket_def B_def rounding_state_def buckets_of_def zero_if_none_def
          addEvent_def addSums_def f64_ops)
    then show ?thesis
      using enumeratesD(2) [OF that, of "{0, 60, 120}"]
      by (simp add: computeBucketAggregation_eq [OF that key] finish_simps window_fold_def windowSince_def
          up d flip: B_def)
  qed
  have sorted: "sorted_list_of_set {0, 60, 120::int} = [0, 60, 120]" by simp
  show "f64_lt (computeBucketAggregation sorted_list_of_set rounding_state ?key (200 * Second))
      (computeBucketAggregation ?it' rounding_state ?key (200 * Second))"
    unfolding sums [OF enumerates_sorted] sums [OF it'] sorted
    by (simp only: rounding_steps fold_simps rev.simps append.simps if_True if_False refl
        zero_neq_numeral [symmetric] numeral_neq_zero)
qed

end
