(* ===== verification/KeyGroup.thy ===== *)
theory KeyGroup
  imports Prelude
begin

text \<open>
  \<^verbatim>\<open>service/engine/core/keygroup.go\<close>: a member is hashed (CRC-32, IEEE polynomial) to one of
  1024 key groups, and key groups are assigned to shards in contiguous, balanced ranges.
\<close>

section \<open>Definitions\<close>

unbundle bit_operations_syntax

definition NumKeyGroups :: int where
  "NumKeyGroups = 1024"

text \<open>\<^verbatim>\<open>crc32.ChecksumIEEE\<close>: the reflected polynomial \<open>0xEDB88320\<close>, initial value and
  final complement all ones.\<close>

definition crc32_bit :: "32 word \<Rightarrow> 32 word" where
  "crc32_bit c = (if c AND 1 = 1 then drop_bit 1 c XOR 0xEDB88320 else drop_bit 1 c)"

definition crc32_byte :: "32 word \<Rightarrow> char \<Rightarrow> 32 word" where
  "crc32_byte c b = (crc32_bit ^^ 8) (c XOR word_of_int (of_char b))"

definition crc32_ieee :: "string \<Rightarrow> 32 word" where
  "crc32_ieee s = NOT (foldl crc32_byte 0xFFFFFFFF s)"

definition KeyGroupOf :: "string \<Rightarrow> int" where
  "KeyGroupOf memberID = uint (crc32_ieee memberID mod 1024)"

text \<open>The product is an \<^verbatim>\<open>int\<close> product (it wraps), the division truncates.\<close>

definition ShardOf :: "int \<Rightarrow> int \<Rightarrow> int" where
  "ShardOf kg numShards = i64 (kg * numShards) sdiv NumKeyGroups"

definition ShardOfMember :: "string \<Rightarrow> int \<Rightarrow> int" where
  "ShardOfMember memberID numShards = ShardOf (KeyGroupOf memberID) numShards"

section \<open>Lemmas\<close>

lemma funpow_8: "(f ^^ 8) x = f (f (f (f (f (f (f (f x)))))))"
  by (simp add: eval_nat_numeral)

text \<open>Evaluation of a key group on a literal member ID, and the check value of the CRC.\<close>

lemmas key_group_eval =
  KeyGroupOf_def crc32_ieee_def crc32_byte_def crc32_bit_def funpow_8

lemma crc32_check_value: "crc32_ieee ''123456789'' = 0xCBF43926"
  by (simp add: key_group_eval)

lemma KeyGroupOf_range: "0 \<le> KeyGroupOf m \<and> KeyGroupOf m < NumKeyGroups"
proof -
  have "uint (crc32_ieee m mod 1024) = uint (crc32_ieee m) mod 1024"
    by (simp add: uint_mod)
  then show ?thesis by (simp add: KeyGroupOf_def NumKeyGroups_def)
qed

lemma nat_KeyGroupOf_lt: "nat (KeyGroupOf m) < 1024"
  using KeyGroupOf_range [of m] by (auto simp: NumKeyGroups_def)

text \<open>The shard counts for which the product cannot wrap.\<close>

definition shard_count_ok :: "int \<Rightarrow> bool" where
  "shard_count_ok n \<longleftrightarrow> 1 \<le> n \<and> n \<le> 2 ^ 53"

definition key_group_ok :: "int \<Rightarrow> bool" where
  "key_group_ok kg \<longleftrightarrow> 0 \<le> kg \<and> kg < NumKeyGroups"

lemma ShardOf_div:
  assumes "shard_count_ok n" "key_group_ok kg"
  shows "ShardOf kg n = kg * n div NumKeyGroups"
proof -
  have b: "0 \<le> kg" "kg \<le> 1023" "1 \<le> n" "n \<le> 2 ^ 53"
    using assms by (auto simp: shard_count_ok_def key_group_ok_def NumKeyGroups_def)
  have "kg * n \<le> 1023 * 2 ^ 53"
    using b by (intro mult_mono) auto
  moreover have "0 \<le> kg * n" using b by simp
  ultimately have "i64 (kg * n) = kg * n" by simp
  with \<open>0 \<le> kg * n\<close> show ?thesis
    by (simp only: ShardOf_def NumKeyGroups_def signed_divide_int_def) (simp add: sgn_if)
qed

lemma div_1024_bounds: "0 \<le> (x::int) \<Longrightarrow> x < 1024 * n \<Longrightarrow> 0 \<le> x div 1024 \<and> x div 1024 < n"
  using mult_div_mod_eq [of 1024 x] pos_mod_sign [of 1024 x] pos_mod_bound [of 1024 x] by linarith

lemma ShardOf_range:
  assumes "shard_count_ok n" "key_group_ok kg"
  shows "0 \<le> ShardOf kg n \<and> ShardOf kg n < n"
proof -
  have b: "0 \<le> kg" "kg < 1024" "1 \<le> n"
    using assms by (auto simp: shard_count_ok_def key_group_ok_def NumKeyGroups_def)
  then have "kg * n < 1024 * n" "0 \<le> kg * n" by simp_all
  with div_1024_bounds [of "kg * n" n] show ?thesis
    by (simp add: ShardOf_div [OF assms] NumKeyGroups_def)
qed

lemma ShardOf_mono:
  assumes "shard_count_ok n" "key_group_ok a" "key_group_ok b" "a \<le> b"
  shows "ShardOf a n \<le> ShardOf b n"
  using assms
  by (auto simp: ShardOf_div shard_count_ok_def NumKeyGroups_def intro!: zdiv_mono1 mult_right_mono)

text \<open>The key groups of shard \<open>s\<close> are the interval between two ceilings.\<close>

definition shard_start :: "int \<Rightarrow> int \<Rightarrow> int" where
  "shard_start n s = - ((- (s * NumKeyGroups)) div n)"

lemma le_ceil_div: "0 < (b::int) \<Longrightarrow> - ((- a) div b) \<le> x \<longleftrightarrow> a \<le> x * b"
proof -
  assume b: "0 < b"
  have "- ((- a) div b) \<le> x \<longleftrightarrow> \<lceil>real_of_int a / real_of_int b\<rceil> \<le> x"
    by (simp add: ceiling_divide_eq_div)
  also have "\<dots> \<longleftrightarrow> real_of_int a \<le> real_of_int (x * b)"
    using b by (simp add: ceiling_le_iff pos_divide_le_eq)
  finally show ?thesis by (simp only: of_int_le_iff)
qed

lemma ShardOf_eq_iff:
  assumes n: "shard_count_ok n" and kg: "key_group_ok kg"
  shows "ShardOf kg n = s \<longleftrightarrow> shard_start n s \<le> kg \<and> kg < shard_start n (s + 1)"
proof -
  have n0: "0 < n" using n by (simp add: shard_count_ok_def)
  have "ShardOf kg n = s \<longleftrightarrow> s * 1024 \<le> kg * n \<and> kg * n < (s + 1) * 1024"
    by (auto simp: ShardOf_div [OF n kg] NumKeyGroups_def)
  also have "\<dots> \<longleftrightarrow> shard_start n s \<le> kg \<and> \<not> shard_start n (s + 1) \<le> kg"
    unfolding shard_start_def NumKeyGroups_def le_ceil_div [OF n0] by (simp add: not_le)
  finally show ?thesis by (simp add: not_le)
qed

lemma shard_start_bounds:
  assumes n: "1 \<le> n"
  shows "shard_start n 0 = 0" "shard_start n n = NumKeyGroups"
    and "0 \<le> s \<Longrightarrow> 0 \<le> shard_start n s" "s \<le> n \<Longrightarrow> shard_start n s \<le> NumKeyGroups"
proof -
  show "shard_start n 0 = 0" "shard_start n n = NumKeyGroups"
    using n nonzero_mult_div_cancel_left [of n "- NumKeyGroups"] by (simp_all add: shard_start_def)
  show "0 \<le> shard_start n s" if "0 \<le> s"
    using that n by (simp add: shard_start_def NumKeyGroups_def div_nonpos_pos_le0)
  show "shard_start n s \<le> NumKeyGroups" if "s \<le> n"
    using that n by (simp add: shard_start_def le_ceil_div NumKeyGroups_def)
qed

lemma shard_key_groups:
  assumes n: "shard_count_ok n" and s: "0 \<le> s" "s < n"
  shows "{kg. key_group_ok kg \<and> ShardOf kg n = s} = {shard_start n s ..< shard_start n (s + 1)}"
proof -
  have n1: "1 \<le> n" using n by (simp add: shard_count_ok_def)
  have ok: "key_group_ok kg" if "shard_start n s \<le> kg" "kg < shard_start n (s + 1)" for kg
    using that shard_start_bounds(3) [OF n1 s(1)] shard_start_bounds(4) [OF n1, of "s + 1"] s
    by (simp add: key_group_ok_def)
  show ?thesis
  proof (rule set_eqI)
    fix kg
    show "kg \<in> {kg. key_group_ok kg \<and> ShardOf kg n = s} \<longleftrightarrow>
        kg \<in> {shard_start n s ..< shard_start n (s + 1)}"
      using ok [of kg] ShardOf_eq_iff [OF n, of kg s] by auto
  qed
qed

lemma shard_share:
  assumes n: "shard_count_ok n" and s: "0 \<le> s" "s < n"
  shows "int (card {kg. key_group_ok kg \<and> ShardOf kg n = s}) \<in>
    {NumKeyGroups div n, NumKeyGroups div n + 1}"
proof -
  have n0: "0 < n" using n by (simp add: shard_count_ok_def)
  define a where "a = - (s * NumKeyGroups)"
  have "(a - NumKeyGroups) div n = a div n - (NumKeyGroups div n) - (if a mod n < NumKeyGroups mod n then 1 else 0)"
  proof -
    have "a - NumKeyGroups = (a mod n - NumKeyGroups mod n) + (a div n - NumKeyGroups div n) * n"
      by (simp add: algebra_simps minus_mod_eq_mult_div [symmetric])
    then have "(a - NumKeyGroups) div n = (a mod n - NumKeyGroups mod n) div n + (a div n - NumKeyGroups div n)"
      using n0 by (simp add: div_mult_self3)
    moreover have "(a mod n - NumKeyGroups mod n) div n = (if a mod n < NumKeyGroups mod n then - 1 else 0)"
    proof (cases "a mod n < NumKeyGroups mod n")
      case True
      let ?r = "a mod n - NumKeyGroups mod n"
      have "(?r + n) div n = 0"
        using True pos_mod_bound [OF n0, of NumKeyGroups] pos_mod_sign [OF n0, of a]
        by (intro div_pos_pos_trivial) simp_all
      moreover have "(?r + n) div n = ?r div n + 1" using n0 by simp
      ultimately show ?thesis using True by simp
    next
      case False
      then show ?thesis
        using pos_mod_bound [OF n0, of a] pos_mod_sign [OF n0, of NumKeyGroups]
        by (simp add: div_pos_pos_trivial)
    qed
    ultimately show ?thesis by simp
  qed
  moreover have "shard_start n (s + 1) = - ((a - NumKeyGroups) div n)"
    by (simp add: shard_start_def a_def distrib_right)
  moreover have "shard_start n s = - (a div n)" by (simp add: shard_start_def a_def)
  moreover have "0 \<le> NumKeyGroups div n"
    using n0 by (simp add: NumKeyGroups_def pos_imp_zdiv_nonneg_iff)
  ultimately show ?thesis
    by (auto simp: shard_key_groups [OF n s])
qed

end
