(* ===== verification/RuleFacts.thy ===== *)
theory RuleFacts
  imports Aggregation KeyGroup
begin

text \<open>
  Facts about rules that need the evaluator and the aggregates together: which rules compile, what
  of its context an evaluation reads, what validation promises to the bucket code, when cache keys
  identify aggregates and how far the retention of a rule set reaches; and the properties of the rule
  package and of the shard mapping, with their witnesses.
\<close>

section \<open>Which rules compile\<close>

definition known_operators :: "string list" where
  "known_operators = [''IN'', ''NOT_IN'', ''>'', ''<'', ''>='', ''<='', ''='', ''=='', ''!='']"

fun rule_wf :: "rule_node \<Rightarrow> bool" where
  "rule_wf (RuleNode ty children field op val window) =
     (if ty = NodeAnd \<or> ty = NodeOr then list_all rule_wf children
      else if ty = NodeNot then length children = 1 \<and> list_all rule_wf children
      else ty = NodeCondition \<and> to_upper op \<in> set known_operators)"

lemma is_ok_buildComparator: "is_ok (buildComparator op) \<longleftrightarrow> op \<in> set known_operators"
  by (auto simp: buildComparator_def known_operators_def)

lemma is_ok_compileCondition:
  "is_ok (compileCondition node) \<longleftrightarrow> to_upper (nd_Operator node) \<in> set known_operators"
  unfolding is_ok_buildComparator [symmetric]
  by (auto simp: compileCondition_def Let_def split: sum.splits prod.splits)

lemma is_ok_sum [simp]:
  "is_ok (case r of Inl e \<Rightarrow> Inl e | Inr f \<Rightarrow> g f) \<longleftrightarrow> (\<exists>f. r = Inr f \<and> is_ok (g f))"
  by (cases r) auto

lemma compile_ok:
  "is_ok (Compile node) \<longleftrightarrow> rule_wf node"
  "is_ok (compileAll cs) \<longleftrightarrow> list_all rule_wf cs"
  "is_ok (compileAnd cs) \<longleftrightarrow> list_all rule_wf cs"
  "is_ok (compileOr cs) \<longleftrightarrow> list_all rule_wf cs"
  "is_ok (compileNot cs) \<longleftrightarrow> length cs = 1 \<and> list_all rule_wf cs"
proof (induction node and cs and cs and cs and cs
    rule: Compile_compileAll_compileAnd_compileOr_compileNot.induct)
  case (1 ty children field op val window)
  consider "ty = NodeAnd" | "ty = NodeOr" | "ty = NodeNot" | "ty = NodeCondition"
    | "ty \<notin> {NodeAnd, NodeOr, NodeNot, NodeCondition}" by blast
  then show ?case
    using 1 by cases (auto simp: node_types is_ok_compileCondition)
next
  case (3 c cs)
  then show ?case by (cases "Compile c"; cases "compileAll cs") auto
qed (auto simp: is_ok_iff split: sum.splits)

section \<open>What an evaluation reads of its context\<close>

text \<open>Two contexts that answer alike the fields of a rule's conditions and all variables.\<close>

definition same_answers :: "rule_node \<Rightarrow> eval_ctx \<Rightarrow> eval_ctx \<Rightarrow> bool" where
  "same_answers node c d \<longleftrightarrow> (\<forall>v. GetVariable c v = GetVariable d v) \<and>
     (\<forall>n\<in>set (conditions node). Resolve c (nd_Field n) (nd_Window n) = Resolve d (nd_Field n) (nd_Window n))"

lemma same_answers_children:
  "ty \<noteq> NodeCondition \<Longrightarrow>
    same_answers (RuleNode ty cs f op val w) c d \<longleftrightarrow>
      (\<forall>v. GetVariable c v = GetVariable d v) \<and> (\<forall>n\<in>set cs. same_answers n c d)"
  by (auto simp: same_answers_def)

lemma evalCondition_cong:
  assumes "\<And>v. GetVariable c v = GetVariable d v"
    and "Resolve c (nd_Field n) (nd_Window n) = Resolve d (nd_Field n) (nd_Window n)"
  shows "evalCondition n c = evalCondition n d"
proof -
  have "resolveRHS (nd_Value n) c = resolveRHS (nd_Value n) d"
    by (simp add: resolveRHS_def assms split: gval.split)
  then show ?thesis using assms by (simp add: evalCondition_def resolveValue_def cong: sum.case_cong)
qed

lemma evaluate_cong:
  "same_answers node c d \<Longrightarrow> Evaluate node c = Evaluate node d"
  "\<forall>n\<in>set cs. same_answers n c d \<Longrightarrow> evalAnd cs c = evalAnd cs d"
  "\<forall>n\<in>set cs. same_answers n c d \<Longrightarrow> evalOr cs c = evalOr cs d"
  "\<forall>n\<in>set cs. same_answers n c d \<Longrightarrow> evalNot cs c = evalNot cs d"
proof (induction node c and cs c and cs c and cs c rule: Evaluate_evalAnd_evalOr_evalNot.induct)
  case (1 ty children field op val window c)
  show ?case
  proof (cases "ty = NodeCondition")
    case True
    with 1 have "evalCondition (RuleNode ty children field op val window) c =
        evalCondition (RuleNode ty children field op val window) d"
      by (intro evalCondition_cong) (auto simp: same_answers_def)
    with True show ?thesis by (simp add: node_types)
  next
    case False
    with 1 show ?thesis by (auto simp: same_answers_children)
  qed
next
  case (6 n c)
  then show ?case by simp
qed (auto split: sum.splits)

lemma preloaded_same_answers:
  assumes "\<forall>k\<in>set (CollectAggregateKeys node). cache (CacheKey k) = cache' (CacheKey k)"
  shows "same_answers node (Preloaded_ctx (NewPreloadedEvalContext fs cache))
    (Preloaded_ctx (NewPreloadedEvalContext fs cache'))"
proof -
  have "cache (CacheKey k) = cache' (CacheKey k)" if "k \<in> set (aggregate_keys_of node)" for k
    using CollectAggregateKeys_covers [OF that] assms by auto
  then show ?thesis
    by (auto simp: same_answers_def Preloaded_ctx_def Preloaded_Resolve_def NewPreloadedEvalContext_def
        Preloaded_GetVariable_def aggregate_keys_of_def)
qed

section \<open>Validated aggregate fields\<close>

lemma conditions_validated:
  "ValidateRuleNode node = None \<Longrightarrow> \<forall>n\<in>set (conditions node). ValidateCondition (nd_Field n) = None"
  "ValidateRuleNode_children cs = None \<Longrightarrow>
     \<forall>c\<in>set cs. \<forall>n\<in>set (conditions c). ValidateCondition (nd_Field n) = None"
  by (induction node and cs rule: ValidateRuleNode_ValidateRuleNode_children.induct)
    (auto split: option.splits if_splits)

text \<open>Splitting is by the first two colons.\<close>

lemma first_split: "c \<in> set s \<Longrightarrow> \<exists>a r. s = a @ c # r \<and> c \<notin> set a"
  using split_list_first [of c s] by blast

lemma parse_validated:
  assumes "contains_char CHR '':'' field" "ValidateCondition field = None"
    and "parseAggregateField field = (b, a, f)"
  shows "a \<in> allowedAggregations" "f = [] \<or> identifierRe f" "CHR '':'' \<notin> set b"
    "\<exists>r. field = b @ CHR '':'' # r"
proof -
  obtain b' r where b': "field = b' @ CHR '':'' # r" "CHR '':'' \<notin> set b'"
    using first_split [OF assms(1) [unfolded contains_char_def]] by auto
  show "a \<in> allowedAggregations" "f = [] \<or> identifierRe f" "CHR '':'' \<notin> set b"
    "\<exists>r. field = b @ CHR '':'' # r"
  proof -
    have *: "a \<in> allowedAggregations \<and> (f = [] \<or> identifierRe f) \<and> b = b'"
    proof (cases "CHR '':'' \<in> set r")
      case True
      then obtain a' f' where r: "r = a' @ CHR '':'' # f'" "CHR '':'' \<notin> set a'"
        using first_split [OF True] by auto
      have "ValidateAggregation a' = None" "ValidateFieldPath f' = None"
        using assms(1,2) split_n_3(2) [OF b'(2) r(2), of f']
        by (simp_all add: b' r ValidateCondition_def Let_def split: option.splits)
      moreover have "b = b'" "a = to_upper a'" "f = f'"
        using assms(3) parseAggregateField_parts(2) [OF b'(2) r(2), of f'] by (simp_all add: b' r)
      ultimately show ?thesis
        by (simp add: ValidateAggregation_def ValidateFieldPath_def split: if_splits)
    next
      case False
      have "ValidateAggregation r = None"
        using assms(1,2) split_n_3(1) [OF b'(2) False]
        by (simp add: b' ValidateCondition_def Let_def split: option.splits)
      moreover have "b = b'" "a = to_upper r" "f = []"
        using assms(3) parseAggregateField_parts(1) [OF b'(2) False] by (simp_all add: b')
      ultimately show ?thesis by (simp add: ValidateAggregation_def split: if_splits)
    qed
    then show "a \<in> allowedAggregations" "f = [] \<or> identifierRe f" by simp_all
    show "CHR '':'' \<notin> set b" using * b'(2) by simp
    show "\<exists>r. field = b @ CHR '':'' # r" using * b'(1) by blast
  qed
qed

section \<open>Retention\<close>

lemma MaxWindow_fold:
  "mx \<le> fold (\<lambda>k mx. let d = Duration (ak_Window k) in if mx < d then d else mx) keys mx"
  "k \<in> set keys \<Longrightarrow>
    Duration (ak_Window k) \<le> fold (\<lambda>k mx. let d = Duration (ak_Window k) in if mx < d then d else mx) keys mx"
  "fold (\<lambda>k mx. let d = Duration (ak_Window k) in if mx < d then d else mx) keys mx
    \<in> insert mx ((\<lambda>k. Duration (ak_Window k)) ` set keys)"
proof (induction keys arbitrary: mx)
  case (Cons x xs)
  { case 1 show ?case using Cons.IH(1) [of "Duration (ak_Window x)"] Cons.IH(1) [of mx] by (auto simp: Let_def) }
  { case 2 then show ?case
      using Cons.IH(1) [of "Duration (ak_Window x)"] Cons.IH(1) [of mx] Cons.IH(2) by (auto simp: Let_def) }
  { case 3 show ?case using Cons.IH(3) by (auto simp: Let_def) }
qed simp_all

lemma Duration_bounds: "i64_range (Duration w)"
  by (cases w) (auto simp: Let_def i64_bounds)

lemma MaxWindowFromKeys_ok: "window_ok (MaxWindowFromKeys keys)"
  using MaxWindow_fold(1) [of 0 keys] MaxWindow_fold(3) [of keys 0] Duration_bounds
  by (auto simp: window_ok_def MaxWindowFromKeys_def)

lemma MaxWindowFromKeys_ge: "k \<in> set keys \<Longrightarrow> Duration (ak_Window k) \<le> MaxWindowFromKeys keys"
  unfolding MaxWindowFromKeys_def by (rule MaxWindow_fold(2))

definition unique_keys :: "compiled_strategy list \<Rightarrow> string set \<times> agg_key list" where
  "unique_keys strategies = add_keys (concat (map cs_AggregateKeys strategies)) ({}, [])"

lemma CollectUnique_eq: "CollectUniqueAggregateKeys strategies = snd (unique_keys strategies)"
proof -
  have "fold (\<lambda>cs st. fold add_key (cs_AggregateKeys cs) st) strategies st =
      add_keys (concat (map cs_AggregateKeys strategies)) st" for st
    by (induction strategies arbitrary: st) (simp_all add: add_keys_def)
  then show ?thesis by (simp add: CollectUniqueAggregateKeys_def unique_keys_def)
qed

section \<open>Cache keys\<close>

text \<open>
  A key as the API accepts it, with a unit of letters. Without the letters the value and the unit
  run together: 5 of \<^verbatim>\<open>0minutes\<close> and 50 of \<^verbatim>\<open>minutes\<close> have the same cache key.
\<close>

definition unit_ok :: "string \<Rightarrow> bool" where
  "unit_ok u \<longleftrightarrow> list_all letter_or_underscore u"

definition key_ok :: "agg_key \<Rightarrow> bool" where
  "key_ok k \<longleftrightarrow> contains_char CHR '':'' (ak_Field k) \<and> ValidateCondition (ak_Field k) = None \<and>
     (case ak_Window k of None \<Rightarrow> True | Some w \<Rightarrow> unit_ok (tw_Unit w))"

definition num_char :: "char \<Rightarrow> bool" where
  "num_char c \<longleftrightarrow> decimal_digit c \<or> c = CHR ''-''"

lemma digit_char_decimal: "0 \<le> d \<Longrightarrow> d < 10 \<Longrightarrow> decimal_digit (digit_char d)"
  by (simp add: decimal_digit_def digit_char_def Let_def)

lemma fmt_int_chars: "c \<in> set (fmt_int i) \<Longrightarrow> num_char c"
  using dec_str_digits [of i c] dec_str_digits [of "- i" c]
  by (auto simp: fmt_int_def num_char_def digit_char_decimal split: if_splits)

lemma minus_not_digit: "0 \<le> n \<Longrightarrow> CHR ''-'' \<notin> set (dec_str n)"
proof
  assume "0 \<le> n" "CHR ''-'' \<in> set (dec_str n)"
  then obtain d where "0 \<le> d" "d < 10" "CHR ''-'' = digit_char d" using dec_str_digits by blast
  then have "decimal_digit CHR ''-''" using digit_char_decimal by simp
  then show False by (simp add: decimal_digit_def)
qed

lemma fmt_int_inj: "fmt_int i = fmt_int j \<Longrightarrow> i = j"
proof -
  assume e: "fmt_int i = fmt_int j"
  have hd: "x < 0 \<and> r = dec_str (- x)" if "fmt_int x = CHR ''-'' # r" for x r
    using minus_not_digit [of x] that by (auto simp: fmt_int_def split: if_splits)
  show ?thesis
  proof (cases "i < 0")
    case True
    then have "fmt_int j = CHR ''-'' # dec_str (- i)" using e by (simp add: fmt_int_def)
    from hd [OF this] have j: "j < 0" "dec_str (- i) = dec_str (- j)" by blast+
    have "- i = undec (dec_str (- i))" using True by (simp add: undec_dec_str)
    also have "\<dots> = - j" unfolding j(2) using j(1) by (simp add: undec_dec_str)
    finally show ?thesis by simp
  next
    case False
    have "\<not> j < 0"
    proof
      assume "j < 0"
      then have "fmt_int i = CHR ''-'' # dec_str (- j)" using e by (simp add: fmt_int_def)
      from hd [OF this] False show False by simp
    qed
    then have d: "dec_str i = dec_str j" using False e by (simp only: fmt_int_def if_False)
    have "i = undec (dec_str i)" using False by (simp add: undec_dec_str)
    also have "\<dots> = j" unfolding d using \<open>\<not> j < 0\<close> by (simp add: undec_dec_str)
    finally show ?thesis .
  qed
qed

lemma letter_not: "letter_or_underscore c \<Longrightarrow> \<not> num_char c \<and> c \<noteq> CHR '':'' \<and> c \<noteq> CHR ''|''"
  by (auto simp: letter_or_underscore_def num_char_def decimal_digit_def Let_def)

lemma num_char_not: "num_char c \<Longrightarrow> c \<noteq> CHR '':'' \<and> c \<noteq> CHR ''|''"
  by (auto simp: num_char_def decimal_digit_def)

lemma window_text_inj:
  assumes "fmt_int i @ u = fmt_int j @ v" "unit_ok u" "unit_ok v"
  shows "i = j \<and> u = v"
proof -
  have t: "takeWhile num_char (fmt_int x @ w) = fmt_int x" if "unit_ok w" for x w
  proof -
    have "takeWhile num_char (fmt_int x @ w) = fmt_int x @ takeWhile num_char w"
      using fmt_int_chars by (intro takeWhile_append2)
    moreover have "takeWhile num_char w = []"
      using that letter_not by (cases w) (auto simp: unit_ok_def)
    ultimately show ?thesis by simp
  qed
  have "fmt_int i = fmt_int j" using t [OF assms(2), of i] t [OF assms(3), of j] assms(1) by simp
  then show ?thesis using assms(1) fmt_int_inj by auto
qed

lemma to_upper_keeps_bar: "CHR ''|'' \<in> set s \<Longrightarrow> CHR ''|'' \<in> set (to_upper s)"
  by (induction s rule: to_upper.induct) (auto simp: ascii_upper_def Let_def)

lemma allowed_no_bar: "to_upper s \<in> allowedAggregations \<Longrightarrow> CHR ''|'' \<notin> set s"
  using to_upper_keeps_bar [of s] by (auto simp: allowedAggregations_def)

lemma identifier_chars: "identifierRe f \<Longrightarrow> CHR '':'' \<notin> set f \<and> CHR ''|'' \<notin> set f"
  by (cases f) (auto simp: list_all_iff letter_or_underscore_def decimal_digit_def Let_def)

text \<open>What follows the last colon of a validated field has no bar.\<close>

lemma validated_tail:
  assumes "contains_char CHR '':'' field" "ValidateCondition field = None"
  shows "\<exists>a r. field = a @ CHR '':'' # r \<and> CHR '':'' \<notin> set r \<and> CHR ''|'' \<notin> set r"
proof -
  obtain b r where b: "field = b @ CHR '':'' # r" "CHR '':'' \<notin> set b"
    using first_split [OF assms(1) [unfolded contains_char_def]] by auto
  obtain x y z where p: "parseAggregateField field = (x, y, z)" by (metis prod_cases3)
  note v = parse_validated(1,2) [OF assms p]
  show ?thesis
  proof (cases "CHR '':'' \<in> set r")
    case True
    then obtain a f where r: "r = a @ CHR '':'' # f" "CHR '':'' \<notin> set a"
      using first_split [OF True] by auto
    have "f = [] \<or> identifierRe f"
      using v p parseAggregateField_parts(2) [OF b(2) r(2), of f] by (simp add: b r)
    then have "CHR '':'' \<notin> set f \<and> CHR ''|'' \<notin> set f" using identifier_chars by auto
    then show ?thesis
      by (intro exI [of _ "b @ CHR '':'' # a"] exI [of _ f]) (simp add: b r)
  next
    case False
    have "to_upper r \<in> allowedAggregations"
      using v p parseAggregateField_parts(1) [OF b(2) False] by (simp add: b)
    from allowed_no_bar [OF this] show ?thesis
      using False by (intro exI [of _ b] exI [of _ r]) (simp add: b)
  qed
qed

definition first_mark :: "string \<Rightarrow> string \<times> string" where
  "first_mark s = (takeWhile (\<lambda>c. c \<noteq> CHR '':'' \<and> c \<noteq> CHR ''|'') s,
     dropWhile (\<lambda>c. c \<noteq> CHR '':'' \<and> c \<noteq> CHR ''|'') s)"

lemma first_mark_append:
  "CHR '':'' \<notin> set r \<Longrightarrow> CHR ''|'' \<notin> set r \<Longrightarrow> c \<in> {CHR '':'', CHR ''|''} \<Longrightarrow>
    first_mark (r @ c # s) = (r, c # s)"
  by (induction r) (auto simp: first_mark_def)

lemma cache_key_mark:
  assumes "key_ok k"
  shows "case ak_Window k of
      None \<Rightarrow> \<exists>r s. first_mark (rev (CacheKey k)) = (r, CHR '':'' # s)
    | Some w \<Rightarrow> first_mark (rev (CacheKey k)) =
        (rev (fmt_int (tw_Value w) @ tw_Unit w), CHR ''|'' # rev (ak_Field k))"
proof (cases "ak_Window k")
  case None
  obtain a r where "ak_Field k = a @ CHR '':'' # r" "CHR '':'' \<notin> set r" "CHR ''|'' \<notin> set r"
    using validated_tail [of "ak_Field k"] assms by (auto simp: key_ok_def)
  then have "first_mark (rev (CacheKey k)) = (rev r, CHR '':'' # rev a)"
    using first_mark_append [of "rev r"] by (simp add: CacheKey_def None)
  then show ?thesis by (simp add: None)
next
  case (Some w)
  have u: "\<forall>x\<in>set (tw_Unit w). letter_or_underscore x"
    using assms Some by (simp add: key_ok_def unit_ok_def list_all_iff)
  have "c \<noteq> CHR '':'' \<and> c \<noteq> CHR ''|''" if "c \<in> set (fmt_int (tw_Value w) @ tw_Unit w)" for c
    using that u fmt_int_chars [of c] num_char_not [of c] letter_not [of c] by auto
  then have "first_mark (rev (fmt_int (tw_Value w) @ tw_Unit w) @ CHR ''|'' # rev (ak_Field k)) =
      (rev (fmt_int (tw_Value w) @ tw_Unit w), CHR ''|'' # rev (ak_Field k))"
    by (intro first_mark_append) (unfold set_rev, blast+)
  then show ?thesis by (simp add: CacheKey_def Some)
qed

lemma CacheKey_inj:
  assumes k: "key_ok k" "key_ok l" and e: "CacheKey k = CacheKey l"
  shows "k = l"
proof -
  note m = cache_key_mark [OF k(1)] cache_key_mark [OF k(2), folded e]
  show ?thesis
  proof (cases "ak_Window k"; cases "ak_Window l")
    assume n: "ak_Window k = None" "ak_Window l = None"
    with e show ?thesis by (cases k; cases l) (simp add: CacheKey_def)
  next
    fix w v assume s: "ak_Window k = Some w" "ak_Window l = Some v"
    with m have "rev (fmt_int (tw_Value w) @ tw_Unit w) = rev (fmt_int (tw_Value v) @ tw_Unit v)"
        and f: "ak_Field k = ak_Field l" by auto
    then have "fmt_int (tw_Value w) @ tw_Unit w = fmt_int (tw_Value v) @ tw_Unit v"
      by (simp only: rev_is_rev_conv)
    moreover have "unit_ok (tw_Unit w)" "unit_ok (tw_Unit v)" using k s by (auto simp: key_ok_def)
    ultimately have "tw_Value w = tw_Value v" "tw_Unit w = tw_Unit v" "ak_Field k = ak_Field l"
      using window_text_inj f by auto
    then show ?thesis using s by (cases k; cases l; cases w; cases v) simp
  qed (use m in auto)
qed

text \<open>Without a collision the rule set's retention covers every window its rules ask for.\<close>

lemma unique_keys_cover:
  assumes "k \<in> set (cs_AggregateKeys s)" "s \<in> set strategies"
    and "\<And>s k. s \<in> set strategies \<Longrightarrow> k \<in> set (cs_AggregateKeys s) \<Longrightarrow> key_ok k"
  shows "k \<in> set (CollectUniqueAggregateKeys strategies)"
proof -
  have k: "k \<in> set (concat (map cs_AggregateKeys strategies))" using assms by auto
  then obtain l where l: "l \<in> set (CollectUniqueAggregateKeys strategies)" "CacheKey k = CacheKey l"
    using add_keys_covers [OF keys_inv_empty k] by (auto simp: CollectUnique_eq unique_keys_def)
  moreover have "l \<in> set (concat (map cs_AggregateKeys strategies))"
    using l(1) add_keys_subset by (force simp: CollectUnique_eq unique_keys_def)
  ultimately show ?thesis using CacheKey_inj [of k l] assms by auto
qed

section \<open>Properties\<close>

text \<open>C24 A compiled rule answers as the tree-walking evaluator does, an error for an error, on the
  preloaded context of the engine and on a map context.\<close>

theorem compiled_is_evaluated:
  assumes "Compile node = Inr f"
  shows "outcome (f (Preloaded_ctx c)) = outcome (Evaluate node (Preloaded_ctx c)) \<and>
    outcome (f (MapContext_ctx d)) = outcome (Evaluate node (MapContext_ctx d))"
  using preloaded_ctx.compile_agrees(1) [OF assms] map_ctx.compile_agrees(1) [OF assms] by simp

text \<open>A rule compiles exactly when every node of it has a known type, every NOT one child and every
  condition a known operator.\<close>

theorem compiles_iff_well_formed: "is_ok (Compile node) = rule_wf node"
  by (rule compile_ok(1))

text \<open>The aggregate keys of a rule are complete, sound and without repetition: their cache keys
  are those of the rule's aggregate conditions, each once.\<close>

theorem aggregate_keys_complete:
  "CacheKey ` set (CollectAggregateKeys node) = CacheKey ` set (aggregate_keys_of node) \<and>
   set (CollectAggregateKeys node) \<subseteq> set (aggregate_keys_of node) \<and>
   distinct (map CacheKey (CollectAggregateKeys node))"
  using CollectAggregateKeys_covers [of _ node] CollectAggregateKeys_sound [of node]
    CollectAggregateKeys_distinct [of node] by blast

text \<open>Preloading is enough: two preloaded contexts over the same fields that agree on the rule's
  collected cache keys evaluate the rule alike, error values included.\<close>

theorem preloading_suffices:
  assumes "\<forall>k\<in>set (CollectAggregateKeys node). cache (CacheKey k) = cache' (CacheKey k)"
  shows "Evaluate node (Preloaded_ctx (NewPreloadedEvalContext fs cache)) =
    Evaluate node (Preloaded_ctx (NewPreloadedEvalContext fs cache'))"
  by (rule evaluate_cong(1) [OF preloaded_same_answers [OF assms]])

text \<open>C30 Cache keys identify aggregates: two keys that the API accepts, with units of letters, have
  the same cache key only if they are the same field over the same window.\<close>

theorem cache_key_injective:
  assumes "key_ok k" "key_ok l" "CacheKey k = CacheKey l"
  shows "k = l"
  by (rule CacheKey_inj [OF assms])

text \<open>A unit that starts with a digit makes two different windows share a cache key: 5 of
  \<^verbatim>\<open>0minutes\<close> (which counts as minutes) and 50 minutes.\<close>

theorem cache_key_collision:
  "\<exists>k l. ValidateCondition (ak_Field k) = None \<and> ak_Field k = ak_Field l \<and> CacheKey k = CacheKey l \<and>
     Duration (ak_Window k) = 5 * Minute \<and> Duration (ak_Window l) = 50 * Minute"
proof (intro exI conjI)
  let ?k = "\<lparr>ak_Field = ''Trade:COUNT'', ak_Window = Some \<lparr>tw_Value = 5, tw_Unit = ''0minutes''\<rparr>\<rparr>"
  let ?l = "\<lparr>ak_Field = ''Trade:COUNT'', ak_Window = Some \<lparr>tw_Value = 50, tw_Unit = ''minutes''\<rparr>\<rparr>"
  show "ValidateCondition (ak_Field ?k) = None" by code_simp
  show "ak_Field ?k = ak_Field ?l" by simp
  show "CacheKey ?k = CacheKey ?l" by code_simp
  show "Duration (ak_Window ?k) = 5 * Minute" by code_simp
  show "Duration (ak_Window ?l) = 50 * Minute" by code_simp
qed


text \<open>A rule that passes validation asks only for aggregates the bucket code computes: its
  aggregate fields parse to one of COUNT, SUM, AVG, MAX and MIN and a field path that is empty or an
  identifier.\<close>

theorem validated_aggregates_parse:
  assumes "ValidateRuleNode node = None" "k \<in> set (CollectAggregateKeys node)"
    and "parseAggregateField (ak_Field k) = (behavior, agg, f)"
  shows "agg \<in> {''COUNT'', ''SUM'', ''AVG'', ''MAX'', ''MIN''} \<and> (f = [] \<or> identifierRe f) \<and>
    has_prefix (ak_Field k) (behavior @ '':'')"
proof -
  have "k \<in> set (aggregate_keys_of node)" using CollectAggregateKeys_sound assms(2) by blast
  then have *: "contains_char CHR '':'' (ak_Field k)" "ValidateCondition (ak_Field k) = None"
    using conditions_validated(1) [OF assms(1)] by (auto simp: aggregate_keys_of_def)
  from parse_validated [OF * assms(3)] show ?thesis
    by (auto simp: allowedAggregations_def has_prefix_iff)
qed

text \<open>Validation lets through rules that do not compile: it never looks at the operator, the node
  type or the arity of NOT. One such active rule makes the whole rule set fail to load.\<close>

theorem validation_is_not_compilation:
  "\<exists>node. ValidateRuleNode node = None \<and> \<not> is_ok (Compile node)"
proof (intro exI conjI)
  let ?n = "RuleNode ''CONDITION'' [] ''amount'' ''=>'' (VInt KInt 5) None"
  show "ValidateRuleNode ?n = None" by code_simp
  show "\<not> is_ok (Compile ?n)" unfolding compile_ok by code_simp
qed

text \<open>C31 Every member belongs to exactly one shard in range, shards own contiguous intervals of key
  groups that cover all 1024, and each owns an even share of them: the quotient or one more.\<close>

theorem shards_partition_key_groups:
  assumes "shard_count_ok n" "0 \<le> s" "s < n"
  shows "{kg. key_group_ok kg \<and> ShardOf kg n = s} = {shard_start n s ..< shard_start n (s + 1)} \<and>
    shard_start n 0 = 0 \<and> shard_start n n = NumKeyGroups \<and>
    int (card {kg. key_group_ok kg \<and> ShardOf kg n = s}) \<in> {NumKeyGroups div n, NumKeyGroups div n + 1}"
  using shard_key_groups [OF assms] shard_share [OF assms] shard_start_bounds [of n] assms
  by simp

text \<open>A member's shard is in range, so its subject or partition exists.\<close>

theorem member_shard_in_range:
  assumes "shard_count_ok n"
  shows "0 \<le> ShardOfMember m n \<and> ShardOfMember m n < n"
  using ShardOf_range [OF assms] KeyGroupOf_range [of m]
  by (simp add: ShardOfMember_def key_group_ok_def)

section \<open>Witnesses\<close>

definition demo_condition :: rule_node where
  "demo_condition = RuleNode ''CONDITION'' [] ''Trade:SUM:amount'' ''>='' (VInt KInt 100)
     (Some \<lparr>tw_Value = 5, tw_Unit = ''minutes''\<rparr>)"

definition demo_rule :: rule_node where
  "demo_rule = RuleNode ''AND'' [demo_condition,
     RuleNode ''NOT'' [RuleNode ''CONDITION'' [] ''country'' ''IN'' (VList [VStr ''TW'']) None] [] [] VNil None]
     [] [] VNil None"

lemma demo_wf: "rule_wf demo_rule" and demo_valid: "ValidateRuleNode demo_rule = None"
  by code_simp+

lemma demo_collect: "CollectAggregateKeys demo_rule = [demo_key ''SUM'']"
  by code_simp

theorem compiled_is_evaluated_witness:
  "\<exists>f. Compile demo_rule = Inr f \<and>
    outcome (f (Preloaded_ctx (NewPreloadedEvalContext Map.empty Map.empty))) =
      outcome (Evaluate demo_rule (Preloaded_ctx (NewPreloadedEvalContext Map.empty Map.empty))) \<and>
    outcome (f (MapContext_ctx (NewMapContext Map.empty))) =
      outcome (Evaluate demo_rule (MapContext_ctx (NewMapContext Map.empty)))"
proof -
  obtain f where f: "Compile demo_rule = Inr f"
    using demo_wf compile_ok(1) [of demo_rule] by (auto simp: is_ok_iff)
  from compiled_is_evaluated [OF f] f show ?thesis by blast
qed

theorem preloading_suffices_witness:
  "Evaluate demo_rule (Preloaded_ctx (NewPreloadedEvalContext Map.empty
      [''Trade:SUM:amount|5minutes'' \<mapsto> VF64 fzero])) =
   Evaluate demo_rule (Preloaded_ctx (NewPreloadedEvalContext Map.empty
      [''Trade:SUM:amount|5minutes'' \<mapsto> VF64 fzero, ''Trade:COUNT'' \<mapsto> VNil]))"
proof (rule preloading_suffices)
  have "CacheKey (demo_key ''SUM'') = ''Trade:SUM:amount|5minutes''" by code_simp
  then show "\<forall>k\<in>set (CollectAggregateKeys demo_rule).
      [''Trade:SUM:amount|5minutes'' \<mapsto> VF64 fzero] (CacheKey k) =
      [''Trade:SUM:amount|5minutes'' \<mapsto> VF64 fzero, ''Trade:COUNT'' \<mapsto> VNil] (CacheKey k)"
    by (simp add: demo_collect)
qed

lemma demo_key_ok: "key_ok (demo_key ''SUM'')"
  by code_simp

theorem cache_key_injective_witness:
  "demo_key ''SUM'' = \<lparr>ak_Field = ''Trade:SUM'' @ '':amount'',
     ak_Window = Some \<lparr>tw_Value = 2 + 3, tw_Unit = ''minutes''\<rparr>\<rparr>"
  by (rule cache_key_injective [OF demo_key_ok]) code_simp+

definition demo_strategy :: compiled_strategy where
  "demo_strategy = \<lparr>cs_ID = 1, cs_Name = ''burst'', cs_Eval = (\<lambda>ctx. Evaluate demo_rule ctx),
     cs_AggregateKeys = CollectAggregateKeys demo_rule\<rparr>"


theorem validated_aggregates_parse_witness:
  "''SUM'' \<in> {''COUNT'', ''SUM'', ''AVG'', ''MAX'', ''MIN''} \<and>
    (''amount'' = [] \<or> identifierRe ''amount'') \<and> has_prefix (ak_Field (demo_key ''SUM'')) (''Trade'' @ '':'')"
  by (rule validated_aggregates_parse [OF demo_valid _ demo_parse(2)]) (simp add: demo_collect)

theorem shards_partition_key_groups_witness:
  "{kg. key_group_ok kg \<and> ShardOf kg 3 = 1} = {shard_start 3 1 ..< shard_start 3 (1 + 1)} \<and>
    shard_start 3 0 = 0 \<and> shard_start 3 3 = NumKeyGroups \<and>
    int (card {kg. key_group_ok kg \<and> ShardOf kg 3 = 1}) \<in> {NumKeyGroups div 3, NumKeyGroups div 3 + 1}"
  by (rule shards_partition_key_groups) (simp_all add: shard_count_ok_def NumKeyGroups_def)

theorem member_shard_in_range_witness:
  "0 \<le> ShardOfMember ''alice'' 3 \<and> ShardOfMember ''alice'' 3 < 3"
  by (rule member_shard_in_range) (simp add: shard_count_ok_def NumKeyGroups_def)

end
