(* ===== verification/MemberStore.thy ===== *)
theory MemberStore
  imports State KeyGroup
begin

text \<open>
  \<^verbatim>\<open>service/engine/core/state.go\<close>: the shard's members behind two levels of pointers
  (1024 key groups, each a map of members), and the copy-on-write epoch that lets a snapshot read a
  frozen copy of the pointer array while the shard keeps writing. The store is explicit: cells of key
  groups and of members at addresses, so that what a snapshot shares with the live state is visible.
  A member cell holds the member's whole value (its maps, buckets and progresses are reachable from
  that member only).
\<close>

section \<open>Cells and the store\<close>

type_synonym addr = nat

text \<open>\<^verbatim>\<open>keyGroupState\<close>.\<close>

record kg_cell =
  kg_Members :: "string \<rightharpoonup> addr"
  kg_version :: uint64

text \<open>\<^verbatim>\<open>ShardState\<close> is the array of key group pointers. The epochs are fields of
  \<^verbatim>\<open>Core\<close>; \<open>next\<close> is the first address not allocated.\<close>

type_synonym shard_state = "int \<rightharpoonup> addr"

record member_store =
  sm_groups :: "addr \<Rightarrow> kg_cell"
  sm_members :: "addr \<Rightarrow> member_state"
  sm_next :: addr
  sm_keyGroups :: shard_state
  sm_epoch :: uint64
  sm_frozenEpoch :: uint64

definition NewShardState :: shard_state where
  "NewShardState = Map.empty"

definition empty_store :: member_store where
  "empty_store = \<lparr>sm_groups = (\<lambda>_. \<lparr>kg_Members = Map.empty, kg_version = 0\<rparr>),
     sm_members = (\<lambda>_. newMemberState []), sm_next = 0, sm_keyGroups = NewShardState,
     sm_epoch = 0, sm_frozenEpoch = 0\<rparr>"

section \<open>Reading\<close>

text \<open>Reading the shard state \<open>v\<close> (the live one or a frozen copy) in the cells of \<open>st\<close>.\<close>

definition member_of :: "member_store \<Rightarrow> shard_state \<Rightarrow> string \<Rightarrow> member_state option" where
  "member_of st v memberID = (case v (KeyGroupOf memberID) of
     None \<Rightarrow> None
   | Some g \<Rightarrow> map_option (sm_members st) (kg_Members (sm_groups st g) memberID))"

definition member :: "member_store \<Rightarrow> string \<Rightarrow> member_state option" where
  "member st memberID = member_of st (sm_keyGroups st) memberID"

text \<open>The members in the order \<^verbatim>\<open>forEachMember\<close> visits them: the key groups of the array
  in turn, the members of one in the order \<open>it\<close> of the map.\<close>

definition forEachMember :: "string enumeration \<Rightarrow> member_store \<Rightarrow> member_state list" where
  "forEachMember it st = concat (map (\<lambda>kid. case sm_keyGroups st kid of
       None \<Rightarrow> []
     | Some g \<Rightarrow> map (\<lambda>m. sm_members st (the (kg_Members (sm_groups st g) m)))
         (it (dom (kg_Members (sm_groups st g))))) [0..NumKeyGroups - 1])"

section \<open>Cloning\<close>

text \<open>The copies of the three \<^verbatim>\<open>clone\<close> methods: new maps with the same entries. The version
  is not copied.\<close>

definition clone_bucket :: "bucket_data \<Rightarrow> bucket_data" where
  "clone_bucket b = \<lparr>bk_Count = bk_Count b, bk_Sums = bk_Sums b, bk_Maxs = bk_Maxs b,
     bk_Mins = bk_Mins b, bk_ProcessedEventIDs = bk_ProcessedEventIDs b\<rparr>"

definition clone_agg :: "behavior_agg \<Rightarrow> behavior_agg" where
  "clone_agg a = \<lparr>ag_Buckets = (\<lambda>ts. map_option clone_bucket (ag_Buckets a ts))\<rparr>"

definition clone_progress :: "progress \<Rightarrow> progress" where
  "clone_progress p = p\<lparr>pg_Variables := pg_Variables p, pg_ProcessedEvents := pg_ProcessedEvents p\<rparr>"

definition clone :: "member_state \<Rightarrow> member_state" where
  "clone ms = \<lparr>ms_MemberID = ms_MemberID ms,
     ms_Aggregations = (\<lambda>k. map_option clone_agg (ms_Aggregations ms k)),
     ms_Progresses = (\<lambda>k. map_option clone_progress (ms_Progresses ms k)),
     ms_LastSeenAt = ms_LastSeenAt ms, ms_version = 0\<rparr>"

section \<open>Writing\<close>

definition new_group :: "int \<Rightarrow> (string \<rightharpoonup> addr) \<Rightarrow> member_store \<Rightarrow> addr \<times> member_store" where
  "new_group kid members st =
     (let g = sm_next st
      in (g, st\<lparr>sm_groups := (sm_groups st)(g := \<lparr>kg_Members = members, kg_version = sm_epoch st\<rparr>),
                sm_next := g + 1, sm_keyGroups := (sm_keyGroups st)(kid \<mapsto> g)\<rparr>))"

definition new_member :: "addr \<Rightarrow> string \<Rightarrow> member_state \<Rightarrow> member_store \<Rightarrow> addr \<times> member_store" where
  "new_member g memberID ms st =
     (let a = sm_next st; cell = sm_groups st g
      in (a, st\<lparr>sm_members := (sm_members st)(a := ms\<lparr>ms_version := sm_epoch st\<rparr>), sm_next := a + 1,
                sm_groups := (sm_groups st)(g := cell\<lparr>kg_Members := (kg_Members cell)(memberID \<mapsto> a)\<rparr>)\<rparr>))"

definition groupForWrite :: "string \<Rightarrow> member_store \<Rightarrow> addr \<times> member_store" where
  "groupForWrite memberID st =
     (let kid = KeyGroupOf memberID in
      case sm_keyGroups st kid of
        None \<Rightarrow> new_group kid Map.empty st
      | Some g \<Rightarrow>
          if sm_frozenEpoch st \<noteq> 0 \<and> kg_version (sm_groups st g) < sm_frozenEpoch st
          then new_group kid (kg_Members (sm_groups st g)) st
          else (g, st))"

definition memberForWrite :: "string \<Rightarrow> member_store \<Rightarrow> addr \<times> member_store" where
  "memberForWrite memberID st =
     (let (g, st) = groupForWrite memberID st in
      case kg_Members (sm_groups st g) memberID of
        None \<Rightarrow> new_member g memberID (newMemberState memberID) st
      | Some a \<Rightarrow>
          if sm_frozenEpoch st \<noteq> 0 \<and> ms_version (sm_members st a) < sm_frozenEpoch st
          then new_member g memberID (clone (sm_members st a)) st
          else (a, st))"

text \<open>A mutation through the pointer that \<^verbatim>\<open>memberForWrite\<close> returned.\<close>

definition put_member :: "addr \<Rightarrow> member_state \<Rightarrow> member_store \<Rightarrow> member_store" where
  "put_member a ms st = st\<lparr>sm_members := (sm_members st)(a := ms)\<rparr>"

definition update_member :: "string \<Rightarrow> (member_state \<Rightarrow> member_state) \<Rightarrow> member_store \<Rightarrow> member_store" where
  "update_member memberID f st =
     (let (a, st) = memberForWrite memberID st in put_member a (f (sm_members st a)) st)"

text \<open>The frozen view that \<^verbatim>\<open>freezeState\<close> returns is the array as it stands.\<close>

definition freezeState :: "member_store \<Rightarrow> shard_state \<times> member_store" where
  "freezeState st = (sm_keyGroups st, st\<lparr>sm_epoch := sm_epoch st + 1, sm_frozenEpoch := sm_epoch st + 1\<rparr>)"

definition unfreezeState :: "member_store \<Rightarrow> member_store" where
  "unfreezeState st = st\<lparr>sm_frozenEpoch := 0\<rparr>"

section \<open>Clones are equal\<close>

lemma clones [simp]: "clone_bucket b = b" "clone_agg a = a" "clone_progress p = p"
proof -
  show b: "clone_bucket b = b" for b by (simp add: clone_bucket_def)
  show "clone_agg a = a" by (cases a) (simp add: clone_agg_def b option.map_ident cong: option.map_cong)
  show "clone_progress p = p" by (simp add: clone_progress_def)
qed

lemma clone_value: "clone ms = ms\<lparr>ms_version := 0\<rparr>"
  by (cases ms) (simp add: clone_def option.map_ident cong: option.map_cong)

section \<open>The invariant\<close>

definition group_ok :: "member_store \<Rightarrow> int \<Rightarrow> addr \<Rightarrow> bool" where
  "group_ok st kid g \<longleftrightarrow> g < sm_next st \<and> kg_version (sm_groups st g) \<le> sm_epoch st \<and>
     (\<forall>m a. kg_Members (sm_groups st g) m = Some a \<longrightarrow>
        a < sm_next st \<and> KeyGroupOf m = kid \<and> ms_MemberID (sm_members st a) = m \<and>
        ms_version (sm_members st a) \<le> sm_epoch st)"

definition store_inv :: "member_store \<Rightarrow> bool" where
  "store_inv st \<longleftrightarrow> sm_frozenEpoch st \<le> sm_epoch st \<and>
     (\<forall>kid g. sm_keyGroups st kid = Some g \<longrightarrow> group_ok st kid g) \<and>
     (\<forall>kid jd g. sm_keyGroups st kid = Some g \<longrightarrow> sm_keyGroups st jd = Some g \<longrightarrow> kid = jd)"

text \<open>Live members do not share a cell: a member's cell carries its ID.\<close>

lemma empty_store_inv: "store_inv empty_store"
  by (simp add: store_inv_def empty_store_def NewShardState_def)

lemma member_empty [simp]: "member empty_store m = None"
  by (simp add: member_def member_of_def empty_store_def NewShardState_def)

lemma groupForWrite_cases:
  assumes "store_inv st" "groupForWrite m st = (g, st1)"
  obtains (same) "st1 = st" "sm_keyGroups st (KeyGroupOf m) = Some g"
      "sm_frozenEpoch st = 0 \<or> sm_frozenEpoch st \<le> kg_version (sm_groups st g)"
  | (new) M where "(g, st1) = new_group (KeyGroupOf m) M st"
      "\<And>x. map_option (sm_members st) (M x) = (if KeyGroupOf x = KeyGroupOf m then member st x else None)"
      "\<And>x a. M x = Some a \<Longrightarrow> a < sm_next st \<and> KeyGroupOf x = KeyGroupOf m \<and>
         ms_MemberID (sm_members st a) = x \<and> ms_version (sm_members st a) \<le> sm_epoch st"
proof (cases "sm_keyGroups st (KeyGroupOf m)")
  case None
  then show thesis
    using assms(2) by (intro new [of Map.empty]) (auto simp: groupForWrite_def member_def member_of_def)
next
  case (Some g0)
  have ok: "group_ok st (KeyGroupOf m) g0" using assms(1) Some by (simp add: store_inv_def)
  show thesis
  proof (cases "sm_frozenEpoch st \<noteq> 0 \<and> kg_version (sm_groups st g0) < sm_frozenEpoch st")
    case True
    show thesis
    proof (rule new [of "kg_Members (sm_groups st g0)"])
      show "(g, st1) = new_group (KeyGroupOf m) (kg_Members (sm_groups st g0)) st"
        using assms(2) Some True by (simp add: groupForWrite_def)
      show "map_option (sm_members st) (kg_Members (sm_groups st g0) x) =
          (if KeyGroupOf x = KeyGroupOf m then member st x else None)" for x
        using ok Some by (cases "kg_Members (sm_groups st g0) x") (auto simp: member_def member_of_def group_ok_def)
    qed (use ok in \<open>auto simp: group_ok_def\<close>)
  next
    case False
    have "(g0, st) = (g, st1)"
      using assms(2) unfolding groupForWrite_def Let_def Some option.case if_not_P [OF False] .
    then show thesis using Some False by (intro same) auto
  qed
qed

lemma groupForWrite_ok:
  assumes inv: "store_inv st" and g: "groupForWrite m st = (g, st1)"
  shows "store_inv st1" "sm_keyGroups st1 (KeyGroupOf m) = Some g" "member st1 = member st"
    "sm_epoch st1 = sm_epoch st" "sm_frozenEpoch st1 = sm_frozenEpoch st" "sm_members st1 = sm_members st"
    "sm_frozenEpoch st = 0 \<or> sm_frozenEpoch st \<le> kg_version (sm_groups st1 g)"
    "sm_next st \<le> sm_next st1"
proof -
  have "store_inv st1 \<and> sm_keyGroups st1 (KeyGroupOf m) = Some g \<and> member st1 = member st \<and>
    sm_epoch st1 = sm_epoch st \<and> sm_frozenEpoch st1 = sm_frozenEpoch st \<and> sm_members st1 = sm_members st \<and>
    (sm_frozenEpoch st = 0 \<or> sm_frozenEpoch st \<le> kg_version (sm_groups st1 g)) \<and> sm_next st \<le> sm_next st1"
    using inv g
  proof (cases rule: groupForWrite_cases)
    case same
    then show ?thesis using inv by simp
  next
    case (new M)
    have fresh: "sm_keyGroups st kid = Some g' \<Longrightarrow> g' < sm_next st" for kid g'
      using inv by (auto simp: store_inv_def group_ok_def)
    have st1: "st1 = st\<lparr>sm_groups := (sm_groups st)(sm_next st := \<lparr>kg_Members = M, kg_version = sm_epoch st\<rparr>),
        sm_next := sm_next st + 1, sm_keyGroups := (sm_keyGroups st)(KeyGroupOf m \<mapsto> sm_next st)\<rparr>"
      and gn: "g = sm_next st" using new(1) by (simp_all add: new_group_def Let_def)
    have grp: "sm_groups st1 g' = sm_groups st g'" if "sm_keyGroups st kid = Some g'" for kid g'
      using fresh [OF that] by (simp add: st1)
    have mem: "member st1 x = member st x" for x
    proof (cases "KeyGroupOf x = KeyGroupOf m")
      case True
      then show ?thesis using new(2) [of x] by (simp add: member_def member_of_def st1)
    next
      case False
      then show ?thesis using grp by (auto simp: member_def member_of_def st1 split: option.split)
    qed
    have "store_inv st1"
    proof -
      have "group_ok st1 kid g'" if "sm_keyGroups st1 kid = Some g'" for kid g'
      proof (cases "kid = KeyGroupOf m")
        case True
        then show ?thesis using that new(3) by (auto simp: st1 group_ok_def intro: less_SucI)
      next
        case False
        then have k: "sm_keyGroups st kid = Some g'" using that by (simp add: st1)
        then have "group_ok st kid g'" using inv by (simp add: store_inv_def)
        then show ?thesis using fresh [OF k] by (auto simp: st1 group_ok_def intro: less_SucI)
      qed
      moreover have "kid = jd" if "sm_keyGroups st1 kid = Some g'" "sm_keyGroups st1 jd = Some g'" for kid jd g'
      proof (cases "kid = KeyGroupOf m \<or> jd = KeyGroupOf m")
        case True
        then show ?thesis using that fresh [of kid g'] fresh [of jd g'] by (auto simp: st1 split: if_splits)
      next
        case False
        then have "sm_keyGroups st kid = Some g'" "sm_keyGroups st jd = Some g'"
          using that by (simp_all add: st1)
        then show ?thesis using inv unfolding store_inv_def by blast
      qed
      moreover have "sm_frozenEpoch st1 \<le> sm_epoch st1" using inv by (simp add: store_inv_def st1)
      ultimately show ?thesis unfolding store_inv_def by blast
    qed
    moreover have "member st1 = member st" using mem by (rule ext)
    moreover have "sm_frozenEpoch st \<le> sm_epoch st" using inv by (simp add: store_inv_def)
    moreover have "sm_keyGroups st1 (KeyGroupOf m) = Some g" "sm_epoch st1 = sm_epoch st"
      "sm_frozenEpoch st1 = sm_frozenEpoch st" "sm_members st1 = sm_members st"
      "kg_version (sm_groups st1 g) = sm_epoch st" "sm_next st \<le> sm_next st1"
      by (simp_all add: st1 gn)
    ultimately show ?thesis by (simp only: simp_thms)
  qed
  then show "store_inv st1" "sm_keyGroups st1 (KeyGroupOf m) = Some g" "member st1 = member st"
    "sm_epoch st1 = sm_epoch st" "sm_frozenEpoch st1 = sm_frozenEpoch st" "sm_members st1 = sm_members st"
    "sm_frozenEpoch st = 0 \<or> sm_frozenEpoch st \<le> kg_version (sm_groups st1 g)"
    "sm_next st \<le> sm_next st1" by simp_all
qed

section \<open>Reads and writes through a member's cell\<close>

text \<open>\<open>a\<close> is the live cell of member \<open>m\<close>.\<close>

definition cell_of :: "member_store \<Rightarrow> string \<Rightarrow> addr \<Rightarrow> bool" where
  "cell_of st m a \<longleftrightarrow> (\<exists>g. sm_keyGroups st (KeyGroupOf m) = Some g \<and> kg_Members (sm_groups st g) m = Some a)"

lemma cell_of_member: "cell_of st m a \<Longrightarrow> member st m = Some (sm_members st a)"
  by (auto simp: cell_of_def member_def member_of_def)

lemma member_cell: "member st m = Some ms \<Longrightarrow> \<exists>a. cell_of st m a \<and> sm_members st a = ms"
  by (auto simp: cell_of_def member_def member_of_def split: option.splits)

lemma cell_facts:
  assumes "store_inv st" "cell_of st m a"
  shows "a < sm_next st" "ms_MemberID (sm_members st a) = m" "ms_version (sm_members st a) \<le> sm_epoch st"
  using assms unfolding store_inv_def cell_of_def group_ok_def by blast+

lemma cell_unshared:
  assumes "store_inv st" "cell_of st m a" "cell_of st m' a"
  shows "m = m'"
  using cell_facts(2) [OF assms(1,2)] cell_facts(2) [OF assms(1,3)] by simp

lemma cell_of_put [simp]: "cell_of (put_member a ms st) m b = cell_of st m b"
  by (simp add: cell_of_def put_member_def)

lemma put_simps [simp]:
  "sm_epoch (put_member a ms st) = sm_epoch st" "sm_frozenEpoch (put_member a ms st) = sm_frozenEpoch st"
  "sm_groups (put_member a ms st) = sm_groups st" "sm_keyGroups (put_member a ms st) = sm_keyGroups st"
  "sm_members (put_member a ms st) b = (if b = a then ms else sm_members st b)"
  "sm_next (put_member a ms st) = sm_next st"
  by (simp_all add: put_member_def)

lemma member_put:
  assumes inv: "store_inv st" and c: "cell_of st m a"
  shows "member (put_member a ms st) = (member st)(m \<mapsto> ms)"
proof
  fix x
  show "member (put_member a ms st) x = ((member st)(m \<mapsto> ms)) x"
  proof (cases "x = m")
    case True
    then show ?thesis using c cell_of_member [of "put_member a ms st" m a] by simp
  next
    case False
    then have n: "\<not> cell_of st x a" using cell_unshared [OF inv c] by blast
    show ?thesis
    proof (cases "member st x")
      case None
      then show ?thesis using False by (auto simp: member_def member_of_def split: option.splits)
    next
      case (Some v)
      then obtain b where b: "cell_of st x b" "sm_members st b = v" using member_cell by blast
      then have "b \<noteq> a" using n by blast
      then show ?thesis using cell_of_member [of "put_member a ms st" x b] b False Some by simp
    qed
  qed
qed

lemma store_inv_put:
  assumes inv: "store_inv st" and c: "cell_of st m a"
    and ms: "ms_MemberID ms = m" "ms_version ms \<le> sm_epoch st"
  shows "store_inv (put_member a ms st)"
proof -
  have "group_ok (put_member a ms st) kid g" if k: "sm_keyGroups st kid = Some g" for kid g
  proof -
    have ok: "group_ok st kid g" using inv k unfolding store_inv_def by blast
    have "x = m" if x: "kg_Members (sm_groups st g) x = Some a" for x
    proof -
      have "KeyGroupOf x = kid" using ok x unfolding group_ok_def by blast
      then have "cell_of st x a" using k x unfolding cell_of_def by blast
      then show ?thesis using cell_unshared [OF inv c] by blast
    qed
    then show ?thesis using ok ms unfolding group_ok_def by simp
  qed
  then show ?thesis using inv unfolding store_inv_def by simp
qed

section \<open>What \<open>memberForWrite\<close> does\<close>

lemma new_member_ok:
  assumes inv: "store_inv st" and k: "sm_keyGroups st (KeyGroupOf m) = Some g"
    and ms: "ms_MemberID ms = m" and r: "new_member g m ms st = (a, st1)"
  shows "store_inv st1" "cell_of st1 m a" "member st1 = (member st)(m \<mapsto> ms\<lparr>ms_version := sm_epoch st\<rparr>)"
    "sm_members st1 a = ms\<lparr>ms_version := sm_epoch st\<rparr>"
    "sm_epoch st1 = sm_epoch st" "sm_frozenEpoch st1 = sm_frozenEpoch st"
proof -
  have a: "a = sm_next st" and st1: "st1 = st\<lparr>sm_members := (sm_members st)(a := ms\<lparr>ms_version := sm_epoch st\<rparr>),
      sm_next := a + 1, sm_groups := (sm_groups st)(g := (sm_groups st g)
        \<lparr>kg_Members := (kg_Members (sm_groups st g))(m \<mapsto> a)\<rparr>)\<rparr>"
    using r by (auto simp add: new_member_def Let_def)
  have ok: "group_ok st kid h" if "sm_keyGroups st kid = Some h" for kid h
    using inv that unfolding store_inv_def by blast
  have old: "b < a" if "sm_keyGroups st kid = Some h" "kg_Members (sm_groups st h) x = Some b" for kid h x b
    using ok [OF that(1)] that(2) unfolding group_ok_def a by blast
  have uniq: "kid = KeyGroupOf m" if "sm_keyGroups st kid = Some g" for kid
    using inv that k unfolding store_inv_def by blast
  show c: "cell_of st1 m a" using k by (simp add: cell_of_def st1)
  show m: "sm_members st1 a = ms\<lparr>ms_version := sm_epoch st\<rparr>"
    "sm_epoch st1 = sm_epoch st" "sm_frozenEpoch st1 = sm_frozenEpoch st"
    by (simp_all add: st1)
  have grp: "group_ok st1 kid h" if h: "sm_keyGroups st kid = Some h" for kid h
  proof (cases "h = g")
    case True
    then have kid: "kid = KeyGroupOf m" using uniq h by simp
    have o: "group_ok st kid g" using ok h True by simp
    show ?thesis
      unfolding group_ok_def
    proof (intro conjI allI impI)
      show "h < sm_next st1" "kg_version (sm_groups st1 h) \<le> sm_epoch st1"
        using o by (auto simp: st1 True group_ok_def a)
    next
      fix x b assume "kg_Members (sm_groups st1 h) x = Some b"
      then have x: "x = m \<and> b = a \<or> x \<noteq> m \<and> kg_Members (sm_groups st g) x = Some b"
        by (auto simp: st1 True split: if_splits)
      then have "x \<noteq> m \<longrightarrow> b < a \<and> KeyGroupOf x = kid \<and> ms_MemberID (sm_members st b) = x \<and>
          ms_version (sm_members st b) \<le> sm_epoch st"
        using o unfolding group_ok_def a by blast
      then show "b < sm_next st1" "KeyGroupOf x = kid" "ms_MemberID (sm_members st1 b) = x"
        "ms_version (sm_members st1 b) \<le> sm_epoch st1"
        using x ms kid by (cases "x = m"; simp add: st1)+
    qed
  next
    case False
    then have g: "sm_groups st1 h = sm_groups st h" by (simp add: st1)
    have o: "group_ok st kid h" by (rule ok [OF h])
    have "sm_members st1 b = sm_members st b" if "kg_Members (sm_groups st h) x = Some b" for x b
      using old [OF h that] by (simp add: st1)
    then show ?thesis using o unfolding group_ok_def g by (auto simp: st1 a intro: less_SucI)
  qed
  show "store_inv st1"
    using inv grp unfolding store_inv_def by (simp add: st1)
  show "member st1 = (member st)(m \<mapsto> ms\<lparr>ms_version := sm_epoch st\<rparr>)"
  proof
    fix x
    show "member st1 x = ((member st)(m \<mapsto> ms\<lparr>ms_version := sm_epoch st\<rparr>)) x"
    proof (cases "x = m")
      case True
      then show ?thesis using cell_of_member [OF c] m by simp
    next
      case False
      have e: "kg_Members (sm_groups st1 h) x = kg_Members (sm_groups st h) x"
          "sm_keyGroups st1 = sm_keyGroups st" for h
        using False by (simp_all add: st1)
      have "map_option (sm_members st1) (kg_Members (sm_groups st h) x) =
          map_option (sm_members st) (kg_Members (sm_groups st h) x)"
        if "sm_keyGroups st (KeyGroupOf x) = Some h" for h
        using old [OF that, of x] by (cases "kg_Members (sm_groups st h) x") (auto simp: st1)
      then show ?thesis
        using False by (auto simp: member_def member_of_def e split: option.splits)
    qed
  qed
qed

text \<open>The value of the member before the write, as the write finds it.\<close>

definition member_or_new :: "member_store \<Rightarrow> string \<Rightarrow> member_state" where
  "member_or_new st m = (case member st m of None \<Rightarrow> newMemberState m | Some ms \<Rightarrow> ms)"

definition written :: "member_store \<Rightarrow> string \<Rightarrow> addr \<Rightarrow> member_store \<Rightarrow> bool" where
  "written st m a st1 \<longleftrightarrow> store_inv st1 \<and> cell_of st1 m a \<and>
     sm_epoch st1 = sm_epoch st \<and> sm_frozenEpoch st1 = sm_frozenEpoch st \<and>
     (\<exists>v. sm_members st1 a = (member_or_new st m)\<lparr>ms_version := v\<rparr> \<and>
        v \<le> sm_epoch st \<and> (sm_frozenEpoch st = 0 \<or> sm_frozenEpoch st \<le> v)) \<and>
     member st1 = (member st)(m \<mapsto> sm_members st1 a)"

lemma memberForWrite_written:
  assumes inv: "store_inv st" and r: "memberForWrite m st = (a, st1)"
  shows "written st m a st1"
proof -
  obtain g st' where g: "groupForWrite m st = (g, st')" by fastforce
  note G = groupForWrite_ok [OF inv g]
  have fr: "sm_frozenEpoch st \<le> sm_epoch st" using inv by (simp add: store_inv_def)
  have new: "written st m a st1" if n: "new_member g m ms st' = (a, st1)" and i: "ms_MemberID ms = m"
    and v: "ms\<lparr>ms_version := sm_epoch st\<rparr> = (member_or_new st m)\<lparr>ms_version := sm_epoch st\<rparr>" for ms
    using new_member_ok [OF G(1,2) i n] fr v unfolding written_def G(3-5)
    by (intro conjI exI [of _ "sm_epoch st"]) simp_all
  show ?thesis
  proof (cases "kg_Members (sm_groups st' g) m")
    case None
    then have "member st' m = None" using G(2) by (simp add: member_def member_of_def)
    then have "member st m = None" using G(3) by simp
    then show ?thesis
      using r None by (intro new [of "newMemberState m"])
        (simp_all add: memberForWrite_def g member_or_new_def newMemberState_def)
  next
    case (Some b)
    then have c: "cell_of st' m b" using G(2) by (simp add: cell_of_def)
    have mem: "member_or_new st m = sm_members st' b"
      using cell_of_member [OF c] G(3) by (simp add: member_or_new_def)
    note f = cell_facts [OF G(1) c]
    show ?thesis
    proof (cases "sm_frozenEpoch st' \<noteq> 0 \<and> ms_version (sm_members st' b) < sm_frozenEpoch st'")
      case True
      then have "new_member g m (clone (sm_members st' b)) st' = (a, st1)"
        using r Some by (simp add: memberForWrite_def g)
      then show ?thesis by (rule new) (simp_all add: clone_value f mem)
    next
      case False
      have "(b, st') = (a, st1)"
        using r unfolding memberForWrite_def g Let_def prod.case Some option.case if_not_P [OF False] .
      then have *: "a = b" "st1 = st'" by simp_all
      have "\<exists>v. sm_members st' b = (sm_members st' b)\<lparr>ms_version := v\<rparr> \<and>
          v \<le> sm_epoch st \<and> (sm_frozenEpoch st = 0 \<or> sm_frozenEpoch st \<le> v)"
        using False f(3) unfolding G(4,5)
        by (intro exI [of _ "ms_version (sm_members st' b)"]) auto
      moreover have "member st' = (member st)(m \<mapsto> sm_members st' b)"
        using cell_of_member [OF c] unfolding G(3) by (simp add: fun_eq_iff)
      ultimately show ?thesis
        unfolding written_def * mem by (intro conjI G(1,4,5) c)
    qed
  qed
qed

lemmas memberForWrite_ok = memberForWrite_written [unfolded written_def]

section \<open>What a mutation may do\<close>

text \<open>The mutations of the engine never touch the member's ID or version.\<close>

definition keeps_identity :: "(member_state \<Rightarrow> member_state) \<Rightarrow> bool" where
  "keeps_identity f \<longleftrightarrow> (\<forall>ms v. ms_MemberID (f ms) = ms_MemberID ms \<and>
     f (ms\<lparr>ms_version := v\<rparr>) = (f ms)\<lparr>ms_version := v\<rparr>)"

lemma keeps_identityD:
  assumes "keeps_identity f"
  shows "ms_MemberID (f ms) = ms_MemberID ms" "ms_version (f ms) = ms_version ms"
    "f (ms\<lparr>ms_version := v\<rparr>) = (f ms)\<lparr>ms_version := v\<rparr>"
proof -
  show "ms_MemberID (f ms) = ms_MemberID ms" "f (ms\<lparr>ms_version := v\<rparr>) = (f ms)\<lparr>ms_version := v\<rparr>" for v
    using assms by (simp_all add: keeps_identity_def)
  from this(2) [of "ms_version ms"] show "ms_version (f ms) = ms_version ms"
    by (metis member_state.select_convs(5) member_state.surjective member_state.update_convs(5))
qed

text \<open>What a reader of the member sees: everything but the version.\<close>

definition unversioned :: "member_state \<Rightarrow> member_state" where
  "unversioned ms = ms\<lparr>ms_version := 0\<rparr>"

definition members_view :: "member_store \<Rightarrow> string \<Rightarrow> member_state option" where
  "members_view st m = map_option unversioned (member st m)"

lemma unversioned_version [simp]: "unversioned (ms\<lparr>ms_version := v\<rparr>) = unversioned ms"
  by (simp add: unversioned_def)

lemma unversioned_mutation: "keeps_identity f \<Longrightarrow> unversioned (f ms) = f (unversioned ms)"
  by (simp add: unversioned_def keeps_identityD)

lemma unversioned_new [simp]: "unversioned (newMemberState m) = newMemberState m"
  by (simp add: unversioned_def newMemberState_def)

definition view_or_new :: "(string \<rightharpoonup> member_state) \<Rightarrow> string \<Rightarrow> member_state" where
  "view_or_new V m = (case V m of None \<Rightarrow> newMemberState m | Some ms \<Rightarrow> ms)"

lemma view_or_new_members: "view_or_new (members_view st) m = unversioned (member_or_new st m)"
  by (simp add: view_or_new_def members_view_def member_or_new_def split: option.split)

lemma update_member_inv:
  assumes "store_inv st" "keeps_identity f"
  shows "store_inv (update_member m f st)"
proof -
  obtain a st1 where r: "memberForWrite m st = (a, st1)" by fastforce
  note W = memberForWrite_ok [OF assms(1) r]
  have inv: "store_inv st1" and c: "cell_of st1 m a" using W by blast+
  show ?thesis
    using store_inv_put [OF inv c] cell_facts [OF inv c] assms(2)
    by (simp add: update_member_def r keeps_identityD)
qed

lemma update_member_view:
  assumes "store_inv st" "keeps_identity f"
  shows "members_view (update_member m f st) =
    (members_view st)(m \<mapsto> f (view_or_new (members_view st) m))"
proof -
  obtain a st1 where r: "memberForWrite m st = (a, st1)" by fastforce
  note W = memberForWrite_ok [OF assms(1) r]
  have inv: "store_inv st1" and c: "cell_of st1 m a" using W by blast+
  obtain v where v: "sm_members st1 a = (member_or_new st m)\<lparr>ms_version := v\<rparr>" using W by blast
  have "member (update_member m f st) = (member st)(m \<mapsto> f (sm_members st1 a))"
    using member_put [OF inv c] W by (simp add: update_member_def r)
  then show ?thesis
    by (auto simp: members_view_def fun_eq_iff v keeps_identityD(3) [OF assms(2)]
        unversioned_mutation [OF assms(2)] view_or_new_members)
qed

section \<open>The store as an interface\<close>

text \<open>
  What the engine relies on: a mutation of one member changes that member's view by the mutation and
  no other member's, whatever sharing goes on below.
\<close>

locale member_updates =
  fixes view :: "'st \<Rightarrow> string \<rightharpoonup> member_state"
    and update :: "string \<Rightarrow> (member_state \<Rightarrow> member_state) \<Rightarrow> 'st \<Rightarrow> 'st"
    and inv :: "'st \<Rightarrow> bool"
  assumes inv_update: "inv st \<Longrightarrow> keeps_identity f \<Longrightarrow> inv (update m f st)"
    and view_update: "inv st \<Longrightarrow> keeps_identity f \<Longrightarrow>
      view (update m f st) = (view st)(m \<mapsto> f (view_or_new (view st) m))"
begin

lemma update_compose:
  assumes "inv st" "keeps_identity f" "keeps_identity g"
  shows "view (update m g (update m f st)) = view (update m (g \<circ> f) st)"
proof -
  have "keeps_identity (g \<circ> f)" using assms(2,3) by (simp add: keeps_identity_def)
  then show ?thesis
    using assms by (simp add: view_update inv_update view_or_new_def)
qed

lemma update_commute:
  assumes "inv st" "keeps_identity f" "keeps_identity g" "m \<noteq> m'"
  shows "view (update m f (update m' g st)) = view (update m' g (update m f st))"
  using assms by (simp add: view_update inv_update view_or_new_def fun_upd_twist)

lemma inv_updates:
  "inv st \<Longrightarrow> list_all (keeps_identity \<circ> snd) us \<Longrightarrow> inv (fold (\<lambda>(m, f). update m f) us st)"
  by (induction us arbitrary: st) (auto simp: inv_update)

lemma view_updates:
  "inv st \<Longrightarrow> list_all (keeps_identity \<circ> snd) us \<Longrightarrow>
    view (fold (\<lambda>(m, f). update m f) us st) =
    fold (\<lambda>(m, f) V. V(m \<mapsto> f (view_or_new V m))) us (view st)"
  by (induction us arbitrary: st) (auto simp: inv_update view_update)

end

interpretation ms: member_updates members_view update_member store_inv
  by unfold_locales (simp_all add: update_member_inv update_member_view)

section \<open>Copy on write\<close>

text \<open>The cells a frozen view reaches are older than the freeze.\<close>

definition frozen_view :: "member_store \<Rightarrow> shard_state \<Rightarrow> bool" where
  "frozen_view st v \<longleftrightarrow> sm_frozenEpoch st \<noteq> 0 \<and>
     (\<forall>kid g. v kid = Some g \<longrightarrow> g < sm_next st \<and> kg_version (sm_groups st g) < sm_frozenEpoch st \<and>
        (\<forall>m a. kg_Members (sm_groups st g) m = Some a \<longrightarrow>
           a < sm_next st \<and> ms_version (sm_members st a) < sm_frozenEpoch st))"

text \<open>A step leaves every allocated cell alone that is older than the freeze.\<close>

definition spares_frozen :: "member_store \<Rightarrow> member_store \<Rightarrow> bool" where
  "spares_frozen st st' \<longleftrightarrow> sm_frozenEpoch st' = sm_frozenEpoch st \<and> sm_next st \<le> sm_next st' \<and>
     (\<forall>g < sm_next st. kg_version (sm_groups st g) < sm_frozenEpoch st \<longrightarrow> sm_groups st' g = sm_groups st g) \<and>
     (\<forall>a < sm_next st. ms_version (sm_members st a) < sm_frozenEpoch st \<longrightarrow> sm_members st' a = sm_members st a)"

lemma spares_refl: "spares_frozen st st"
  by (simp add: spares_frozen_def)

lemma spares_trans: "spares_frozen st st' \<Longrightarrow> spares_frozen st' st'' \<Longrightarrow> spares_frozen st st''"
  by (auto simp: spares_frozen_def)

lemma frozen_view_spared:
  assumes "frozen_view st v" "spares_frozen st st'"
  shows "frozen_view st' v" "member_of st' v = member_of st v"
proof -
  have cells: "sm_groups st' g = sm_groups st g"
      "kg_Members (sm_groups st g) m = Some a \<Longrightarrow> sm_members st' a = sm_members st a"
    if "v kid = Some g" for kid g m a
    using assms that unfolding frozen_view_def spares_frozen_def by blast+
  show "frozen_view st' v"
    unfolding frozen_view_def
  proof (intro conjI allI impI)
    show "sm_frozenEpoch st' \<noteq> 0" using assms unfolding frozen_view_def spares_frozen_def by simp
    fix kid g assume k: "v kid = Some g"
    show "g < sm_next st'" "kg_version (sm_groups st' g) < sm_frozenEpoch st'"
      using assms k cells(1) [OF k] unfolding frozen_view_def spares_frozen_def
      by (auto intro: less_le_trans)
    fix m a assume m: "kg_Members (sm_groups st' g) m = Some a"
    then have "kg_Members (sm_groups st g) m = Some a" using cells(1) [OF k] by simp
    moreover from this have "a < sm_next st \<and> ms_version (sm_members st a) < sm_frozenEpoch st"
      using assms(1) k unfolding frozen_view_def by blast
    moreover have "sm_next st \<le> sm_next st'" "sm_frozenEpoch st' = sm_frozenEpoch st"
      using assms(2) unfolding spares_frozen_def by blast+
    ultimately show "a < sm_next st'" "ms_version (sm_members st' a) < sm_frozenEpoch st'"
      using cells(2) [OF k] by auto
  qed
  show "member_of st' v = member_of st v"
  proof
    fix m
    show "member_of st' v m = member_of st v m"
    proof (cases "v (KeyGroupOf m)")
      case None then show ?thesis by (simp add: member_of_def)
    next
      case (Some g)
      then show ?thesis
        using cells(1) [OF Some] cells(2) [OF Some, of m]
        by (cases "kg_Members (sm_groups st g) m") (simp_all add: member_of_def)
    qed
  qed
qed

lemma groupForWrite_spares:
  assumes "groupForWrite m st = (g, st1)" "sm_frozenEpoch st \<noteq> 0"
  shows "spares_frozen st st1"
  using assms by (auto simp: groupForWrite_def new_group_def Let_def spares_frozen_def
      split: option.splits if_splits)

lemma new_member_spares:
  assumes "new_member g m ms st = (a, st1)" "sm_frozenEpoch st \<le> kg_version (sm_groups st g)"
  shows "spares_frozen st st1"
  using assms by (auto simp: new_member_def Let_def spares_frozen_def not_less [symmetric])

lemma memberForWrite_spares:
  assumes inv: "store_inv st" and r: "memberForWrite m st = (a, st1)" and fz: "sm_frozenEpoch st \<noteq> 0"
  shows "spares_frozen st st1"
proof -
  obtain g st' where g: "groupForWrite m st = (g, st')" by fastforce
  note G = groupForWrite_ok [OF inv g]
  have v: "sm_frozenEpoch st' \<le> kg_version (sm_groups st' g)" using G(5,7) fz by simp
  have "spares_frozen st' st1"
    using r new_member_spares [OF _ v, of m _ a st1] spares_refl
    by (auto simp: memberForWrite_def g split: option.splits if_splits)
  then show ?thesis by (rule spares_trans [OF groupForWrite_spares [OF g fz]])
qed

lemma update_member_spares:
  assumes inv: "store_inv st" and f: "keeps_identity f" and fz: "sm_frozenEpoch st \<noteq> 0"
  shows "spares_frozen st (update_member m f st)"
proof -
  obtain a st1 where r: "memberForWrite m st = (a, st1)" by fastforce
  have "sm_frozenEpoch st \<le> ms_version (sm_members st1 a)" "sm_frozenEpoch st1 = sm_frozenEpoch st"
    using memberForWrite_ok [OF inv r] fz by auto
  then have "spares_frozen st1 (put_member a (f (sm_members st1 a)) st1)"
    by (auto simp: spares_frozen_def not_less [symmetric])
  with memberForWrite_spares [OF inv r fz] show ?thesis
    by (simp add: update_member_def r spares_trans)
qed

lemma updates_spare:
  assumes "store_inv st" "list_all (keeps_identity \<circ> snd) us" "sm_frozenEpoch st \<noteq> 0"
  shows "spares_frozen st (fold (\<lambda>(m, f). update_member m f) us st)"
  using assms
proof (induction us arbitrary: st)
  case (Cons u us)
  obtain m f where u: "u = (m, f)" by fastforce
  have f: "keeps_identity f" using Cons.prems u by simp
  note s = update_member_spares [OF Cons.prems(1) f Cons.prems(3), of m]
  have "sm_frozenEpoch (update_member m f st) \<noteq> 0" using s Cons.prems(3) by (simp add: spares_frozen_def)
  with Cons.IH [OF ms.inv_update [OF Cons.prems(1) f]] Cons.prems(2) s u show ?case
    by (auto intro: spares_trans)
qed (simp add: spares_refl)

lemma freeze_ok:
  assumes inv: "store_inv st" and wrap: "sm_epoch st < sm_epoch st + 1" and r: "freezeState st = (v, st1)"
  shows "store_inv st1" "frozen_view st1 v" "member_of st1 v = member st" "member st1 = member st"
proof -
  have v: "v = sm_keyGroups st" and st1: "st1 = st\<lparr>sm_epoch := sm_epoch st + 1, sm_frozenEpoch := sm_epoch st + 1\<rparr>"
    using r by (simp_all add: freezeState_def)
  have g: "group_ok st kid g" if "sm_keyGroups st kid = Some g" for kid g
    using inv that unfolding store_inv_def by blast
  have "group_ok st1 kid g" if "sm_keyGroups st kid = Some g" for kid g
  proof -
    have "u \<le> sm_epoch st \<Longrightarrow> u \<le> sm_epoch st + 1" for u using wrap by (meson less_imp_le order.trans)
    then show ?thesis using g [OF that] unfolding group_ok_def st1 by auto
  qed
  then show "store_inv st1" using inv unfolding store_inv_def st1 by simp
  have lt: "u \<le> sm_epoch st \<Longrightarrow> u < sm_epoch st + 1" for u using wrap by (rule le_less_trans [rotated])
  have "sm_frozenEpoch st1 \<noteq> 0" using wrap st1 by auto
  moreover have "g < sm_next st1 \<and> kg_version (sm_groups st1 g) < sm_frozenEpoch st1 \<and>
      (\<forall>m a. kg_Members (sm_groups st1 g) m = Some a \<longrightarrow>
        a < sm_next st1 \<and> ms_version (sm_members st1 a) < sm_frozenEpoch st1)"
    if "v kid = Some g" for kid g
    using g [of kid g] that lt unfolding group_ok_def st1 v by simp
  ultimately show "frozen_view st1 v" unfolding frozen_view_def by blast
  show "member_of st1 v = member st" "member st1 = member st"
    by (simp_all add: fun_eq_iff member_def member_of_def st1 v cong: option.case_cong)
qed

section \<open>A second write finds the clone\<close>

lemma memberForWrite_group:
  assumes inv: "store_inv st" and r: "memberForWrite m st = (a, st1)"
    and k: "sm_keyGroups st1 (KeyGroupOf m) = Some g"
  shows "sm_frozenEpoch st1 = 0 \<or> sm_frozenEpoch st1 \<le> kg_version (sm_groups st1 g)"
proof -
  obtain h st' where g: "groupForWrite m st = (h, st')" by fastforce
  note G = groupForWrite_ok [OF inv g]
  have "sm_keyGroups st1 = sm_keyGroups st'" "kg_version (sm_groups st1 x) = kg_version (sm_groups st' x)"
    "sm_frozenEpoch st1 = sm_frozenEpoch st'" for x
    using r by (auto simp: memberForWrite_def g new_member_def Let_def split: option.splits if_splits)
  then show ?thesis using G k by simp
qed

lemma memberForWrite_again:
  assumes inv: "store_inv st" and r: "memberForWrite m st = (a, st1)"
    and v: "sm_frozenEpoch st = 0 \<or> sm_frozenEpoch st \<le> ms_version ms"
  shows "memberForWrite m (put_member a ms st1) = (a, put_member a ms st1)"
proof -
  let ?st = "put_member a ms st1"
  obtain g where g: "sm_keyGroups st1 (KeyGroupOf m) = Some g" "kg_Members (sm_groups st1 g) m = Some a"
    using memberForWrite_ok [OF inv r] by (auto simp: cell_of_def)
  have f: "sm_frozenEpoch st1 = sm_frozenEpoch st" using memberForWrite_ok [OF inv r] by blast
  have nf: "\<not> (sm_frozenEpoch ?st \<noteq> 0 \<and> kg_version (sm_groups ?st g) < sm_frozenEpoch ?st)"
    using memberForWrite_group [OF inv r g(1)] by auto
  have "groupForWrite m ?st = (g, ?st)"
    unfolding groupForWrite_def Let_def put_simps g option.case
    using nf by (simp only: put_simps if_False)
  then show ?thesis using g f v by (auto simp: memberForWrite_def)
qed

section \<open>Properties\<close>


text \<open>Copy on write is invisible to the engine: whatever snapshots freeze and release in between,
  the members read as if every mutation had been applied to one plain map.\<close>

theorem live_state_is_plain_map:
  assumes "store_inv st" "list_all (keeps_identity \<circ> snd) us" "list_all (keeps_identity \<circ> snd) us'"
    and "st1 = fold (\<lambda>(m, f). update_member m f) us st" "sm_epoch st1 < sm_epoch st1 + 1"
    and "freezeState st1 = (v, st2)"
  shows "members_view (unfreezeState (fold (\<lambda>(m, f). update_member m f) us' st2)) =
    fold (\<lambda>(m, f) V. V(m \<mapsto> f (view_or_new V m))) (us @ us') (members_view st)"
proof -
  have inv: "store_inv st1" using ms.inv_updates [OF assms(1,2)] assms(4) by simp
  note F = freeze_ok [OF inv assms(5,6)]
  have "members_view st2 = members_view st1" using F(4) by (simp add: members_view_def fun_eq_iff)
  moreover have "members_view (unfreezeState x) = members_view x" for x
    by (simp add: members_view_def fun_eq_iff unfreezeState_def member_def member_of_def cong: option.case_cong)
  ultimately show ?thesis
    using ms.view_updates [OF assms(1,2)] ms.view_updates [OF F(1) assms(3)] assms(4) by simp
qed

text \<open>A member is cloned at most once per freeze: after one write, another write to the member
  returns the same cell and allocates nothing.\<close>

theorem one_clone_per_freeze:
  assumes "store_inv st" "memberForWrite m st = (a, st1)" "keeps_identity f"
    and "st2 = put_member a (f (sm_members st1 a)) st1"
  shows "memberForWrite m st2 = (a, st2)"
proof -
  have "sm_frozenEpoch st = 0 \<or> sm_frozenEpoch st \<le> ms_version (f (sm_members st1 a))"
    using memberForWrite_ok [OF assms(1,2)] keeps_identityD(2) [OF assms(3)] by auto
  from memberForWrite_again [OF assms(1,2) this] show ?thesis unfolding assms(4) .
qed

text \<open>The invariant of the store (no two members share a cell, every cell carries its member's ID
  and sits in that member's key group, no version is ahead of the epoch) survives every operation.\<close>

theorem store_invariant_preserved:
  assumes "store_inv st" "keeps_identity f" "sm_epoch st < sm_epoch st + 1"
  shows "store_inv (snd (memberForWrite m st)) \<and> store_inv (update_member m f st) \<and>
    store_inv (snd (freezeState st)) \<and> store_inv (unfreezeState st)"
proof -
  obtain a st1 where r: "memberForWrite m st = (a, st1)" by fastforce
  obtain v st2 where z: "freezeState st = (v, st2)" by fastforce
  have "store_inv (unfreezeState st)"
    using assms(1) unfolding store_inv_def unfreezeState_def group_ok_def by simp
  then show ?thesis
    using memberForWrite_ok [OF assms(1) r] freeze_ok(1) [OF assms(1,3) z] ms.inv_update [OF assms(1,2)]
    by (simp add: r z)
qed

section \<open>Witnesses\<close>

definition demo_touch :: "time \<Rightarrow> member_state \<Rightarrow> member_state" where
  "demo_touch t ms = ms\<lparr>ms_LastSeenAt := t\<rparr>"

lemma demo_touch [simp]: "keeps_identity (demo_touch t)"
  by (simp add: keeps_identity_def demo_touch_def)

definition demo_store :: member_store where
  "demo_store = update_member ''alice'' (demo_touch 5) empty_store"

lemma demo_store: "store_inv demo_store"
  unfolding demo_store_def by (rule ms.inv_update [OF empty_store_inv demo_touch])

lemma update_epoch: "store_inv st \<Longrightarrow> sm_epoch (update_member m f st) = sm_epoch st"
proof -
  assume inv: "store_inv st"
  obtain a st1 where r: "memberForWrite m st = (a, st1)" by fastforce
  have "sm_epoch st1 = sm_epoch st" using memberForWrite_ok [OF inv r] by blast
  then show ?thesis by (simp add: update_member_def r)
qed

lemma demo_epoch: "sm_epoch demo_store < sm_epoch demo_store + 1"
  unfolding demo_store_def update_epoch [OF empty_store_inv] by (simp add: empty_store_def)


theorem live_state_is_plain_map_witness:
  "members_view (unfreezeState (fold (\<lambda>(m, f). update_member m f)
      [(''alice'', demo_touch 7), (''bob'', demo_touch 8)]
      (snd (freezeState (fold (\<lambda>(m, f). update_member m f) [(''alice'', demo_touch 5)] empty_store))))) =
    fold (\<lambda>(m, f) V. V(m \<mapsto> f (view_or_new V m)))
      ([(''alice'', demo_touch 5)] @ [(''alice'', demo_touch 7), (''bob'', demo_touch 8)]) (members_view empty_store)"
  by (rule live_state_is_plain_map [OF empty_store_inv _ _ refl _ prod.collapse [symmetric]])
    (simp_all add: demo_epoch [unfolded demo_store_def])

theorem one_clone_per_freeze_witness:
  "let st = snd (freezeState demo_store); (a, st1) = memberForWrite ''alice'' st;
       st2 = put_member a (demo_touch 9 (sm_members st1 a)) st1
   in memberForWrite ''alice'' st2 = (a, st2)"
proof -
  let ?st = "snd (freezeState demo_store)"
  have inv: "store_inv ?st"
    using freeze_ok(1) [OF demo_store demo_epoch prod.collapse [symmetric]] .
  obtain a st1 where r: "memberForWrite ''alice'' ?st = (a, st1)" by fastforce
  from one_clone_per_freeze [OF inv r demo_touch refl] show ?thesis by (simp add: r Let_def)
qed

theorem store_invariant_preserved_witness:
  "store_inv (snd (memberForWrite ''bob'' demo_store)) \<and> store_inv (update_member ''bob'' (demo_touch 6) demo_store) \<and>
    store_inv (snd (freezeState demo_store)) \<and> store_inv (unfreezeState demo_store)"
  by (rule store_invariant_preserved [OF demo_store demo_touch demo_epoch])

end
