(* ===== verification/Cep.thy ===== *)
theory Cep
  imports NegQueue RuleFacts MemberStore "HOL-Library.Sublist"
begin

text \<open>
  \<^verbatim>\<open>service/engine/core/cep.go\<close>: registering sequence patterns, advancing a member's
  progresses on an event, starting new ones, expiring old ones, and the negative deadlines a progress
  registers when it parks on a terminal negative state.
\<close>

section \<open>Patterns\<close>

record compiled_pattern =
  cp_pattern :: cep_pattern
  cp_compiledStates :: "compiled_rule list"

definition maxDuration :: "compiled_pattern \<Rightarrow> duration" where
  "maxDuration cp = fold (\<lambda>st mx. case st_MaxWait st of
       None \<Rightarrow> mx
     | Some w \<Rightarrow> (let d = Duration (Some w) in if mx < d then d else mx)) (pt_States (cp_pattern cp)) 0"

datatype cep_error =
    ENoStates string
  | EFirstNegative string string
  | ENegativeNotTerminal string string nat nat
  | ENegativeNeedsMaxWait string string
  | ECompilePattern string string rule_error

text \<open>The first loop of \<^verbatim>\<open>AddPattern\<close>, from state \<open>i\<close> on, with \<open>n\<close> the
  number of states.\<close>

fun checkStates :: "string \<Rightarrow> nat \<Rightarrow> nat \<Rightarrow> pattern_state list \<Rightarrow> cep_error option" where
  "checkStates pid n i [] = None"
| "checkStates pid n i (st # sts) =
     (if st_IsNegative st \<and> i \<noteq> n - 1 then Some (ENegativeNotTerminal pid (st_Name st) i (n - 1))
      else if st_IsNegative st \<and> st_MaxWait st = None then Some (ENegativeNeedsMaxWait pid (st_Name st))
      else checkStates pid n (i + 1) sts)"

text \<open>The second loop.\<close>

fun compileStates :: "string \<Rightarrow> pattern_state list \<Rightarrow> cep_error + compiled_rule list" where
  "compileStates pid [] = Inr []"
| "compileStates pid (st # sts) =
     (case Compile (st_Condition st) of
        Inl e \<Rightarrow> Inl (ECompilePattern pid (st_Name st) e)
      | Inr f \<Rightarrow> (case compileStates pid sts of Inl e \<Rightarrow> Inl e | Inr fs \<Rightarrow> Inr (f # fs)))"

definition AddPattern :: "cep_pattern \<Rightarrow> compiled_pattern list \<Rightarrow> cep_error + compiled_pattern list" where
  "AddPattern pattern patterns =
     (let states = pt_States pattern in
      if states = [] then Inl (ENoStates (pt_ID pattern))
      else if st_IsNegative (states ! 0) then Inl (EFirstNegative (pt_ID pattern) (st_Name (states ! 0)))
      else case checkStates (pt_ID pattern) (length states) 0 states of
        Some e \<Rightarrow> Inl e
      | None \<Rightarrow> (case compileStates (pt_ID pattern) states of
           Inl e \<Rightarrow> Inl e
         | Inr compiled \<Rightarrow> Inr (patterns @ [\<lparr>cp_pattern = pattern, cp_compiledStates = compiled\<rparr>])))"

definition patternByID :: "compiled_pattern list \<Rightarrow> string \<Rightarrow> compiled_pattern option" where
  "patternByID patterns i = List.find (\<lambda>cp. pt_ID (cp_pattern cp) = i) patterns"

definition deterministicProgressID :: "string \<Rightarrow> string \<Rightarrow> string \<Rightarrow> string" where
  "deterministicProgressID patternID memberID startEventID =
     patternID @ ''|'' @ memberID @ ''|'' @ startEventID"

section \<open>Matching one event\<close>

text \<open>The guard \<^verbatim>\<open>len(vars) > 0\<close> saves a copy: with no variables
  \<^verbatim>\<open>WithVariables\<close> changes nothing (\<open>WithVariables_empty\<close> below).\<close>

definition cepMatchState :: "cep_event \<Rightarrow> compiled_rule \<Rightarrow> (string \<rightharpoonup> gval) \<Rightarrow> rule_error + bool" where
  "cepMatchState event compiled vars =
     (let fs = (ce_Fields event)(''behavior'' \<mapsto> VStr (ce_Behavior event),
                                 ''member_id'' \<mapsto> VStr (ce_MemberID event))
      in compiled (MapContext_ctx (WithVariables (NewMapContext fs) vars)))"

definition extractBindings :: "cep_event \<Rightarrow> (string \<rightharpoonup> string) \<Rightarrow> (string \<rightharpoonup> gval)" where
  "extractBindings event bindings = (\<lambda>varName. case bindings varName of
     None \<Rightarrow> None | Some src \<Rightarrow> ce_Fields event (trim_prefix src ''$event.''))"

text \<open>\<^verbatim>\<open>pushNegativeDeadline\<close>\<close>

definition pushNegativeDeadline :: "time \<Rightarrow> string \<Rightarrow> string \<Rightarrow> negDeadlineHeap \<Rightarrow> negDeadlineHeap" where
  "pushNegativeDeadline deadline memberID progressID h =
     heap_Push h \<lparr>nd_Deadline = deadline, nd_MemberID = memberID, nd_ProgressID = progressID\<rparr>"

text \<open>A progress that has just entered a state registers its deadline if that state is negative.\<close>

definition enterState :: "pattern_state \<Rightarrow> string \<Rightarrow> progress \<Rightarrow> negDeadlineHeap \<Rightarrow> progress \<times> negDeadlineHeap" where
  "enterState next_state memberID p h =
     (if st_IsNegative next_state then
        (let deadline = time_add (pg_StartedAt p) (Duration (st_MaxWait next_state))
         in (p\<lparr>pg_NegativeDeadline := deadline\<rparr>, pushNegativeDeadline deadline memberID (pg_ID p) h))
      else (p, h))"

definition matchOf :: "cep_pattern \<Rightarrow> cep_event \<Rightarrow> (string \<rightharpoonup> gval) \<Rightarrow> match_result" where
  "matchOf pattern event vars = \<lparr>mr_PatternID = pt_ID pattern, mr_PatternName = pt_Name pattern,
     mr_MemberID = ce_MemberID event, mr_Variables = vars, mr_MatchedAt = ce_OccurredAt event\<rparr>"

text \<open>An error of the condition counts as no match.\<close>

definition matched :: "rule_error + bool \<Rightarrow> bool" where
  "matched r \<longleftrightarrow> (case r of Inl e \<Rightarrow> False | Inr b \<Rightarrow> b)"

text \<open>The result, whether to remove the progress, the progress as mutated and the heap.\<close>

definition advanceProgress ::
    "compiled_pattern list \<Rightarrow> cep_event \<Rightarrow> progress \<Rightarrow> negDeadlineHeap \<Rightarrow>
      match_result option \<times> bool \<times> progress \<times> negDeadlineHeap" where
  "advanceProgress patterns event p h =
     (case patternByID patterns (pg_PatternID p) of
        None \<Rightarrow> (None, True, p, h)
      | Some cp \<Rightarrow>
          (let states = pt_States (cp_pattern cp); step = pg_CurrentStep p in
           if length states \<le> step then (None, True, p, h)
           else if ce_EventID event \<in> set (pg_ProcessedEvents p) then (None, False, p, h)
           else
             (let state = states ! step;
                  hit = matched (cepMatchState event (cp_compiledStates cp ! step) (pg_Variables p)) in
              if st_IsNegative state then
                (if pg_NegativeDeadline p < ce_OccurredAt event then (None, False, p, h)
                 else if \<not> hit then (None, False, p, h)
                 else (None, True, p, h))
              else if st_MaxWait state \<noteq> None \<and>
                  time_add (pg_StartedAt p) (Duration (st_MaxWait state)) < ce_OccurredAt event
              then (None, True, p, h)
              else if \<not> hit then (None, False, p, h)
              else
                (let p1 = p\<lparr>pg_Variables := pg_Variables p ++ extractBindings event (st_ContextBinding state),
                            pg_CurrentStep := step + 1,
                            pg_ProcessedEvents := pg_ProcessedEvents p @ [ce_EventID event]\<rparr> in
                 if length states \<le> step + 1
                 then (Some (matchOf (cp_pattern cp) event (pg_Variables p1)), True, p1, h)
                 else (let (p2, h2) = enterState (states ! (step + 1)) (ce_MemberID event) p1 h
                       in (None, False, p2, h2))))))"

section \<open>One event on all of a member's progresses\<close>

definition expired :: "compiled_pattern list \<Rightarrow> time \<Rightarrow> progress \<Rightarrow> bool" where
  "expired patterns watermark p \<longleftrightarrow> (case patternByID patterns (pg_PatternID p) of
     None \<Rightarrow> True
   | Some cp \<Rightarrow> (let d = maxDuration cp in 0 < d \<and> d < time_sub watermark (pg_StartedAt p)))"

definition sweepExpiredProgresses :: "compiled_pattern list \<Rightarrow> member_state \<Rightarrow> time \<Rightarrow> member_state" where
  "sweepExpiredProgresses patterns ms watermark =
     ms\<lparr>ms_Progresses := map_delete_if (\<lambda>i p. expired patterns watermark p) (ms_Progresses ms)\<rparr>"

text \<open>What both actions thread: the results so far, the member's progresses and the heap.\<close>

type_synonym cep_acc = "match_result list \<times> (string \<rightharpoonup> progress) \<times> negDeadlineHeap"

definition advanceOne :: "compiled_pattern list \<Rightarrow> cep_event \<Rightarrow> string \<Rightarrow> cep_acc \<Rightarrow> cep_acc" where
  "advanceOne patterns event i acc = (case acc of (results, progs, h) \<Rightarrow>
     (case progs i of
        None \<Rightarrow> acc
      | Some p \<Rightarrow>
          (let (r, remove, p1, h1) = advanceProgress patterns event p h
           in (case r of None \<Rightarrow> results | Some m \<Rightarrow> results @ [m],
               if remove then progs(i := None) else progs(i \<mapsto> p1), h1))))"

definition newProgress :: "string \<Rightarrow> cep_pattern \<Rightarrow> cep_event \<Rightarrow> (string \<rightharpoonup> gval) \<Rightarrow> progress" where
  "newProgress i pattern event vars =
     \<lparr>pg_ID = i, pg_PatternID = pt_ID pattern, pg_MemberID = ce_MemberID event, pg_CurrentStep = 1,
      pg_Variables = vars, pg_StartedAt = ce_OccurredAt event, pg_ExpiresAt = zero_time,
      pg_ProcessedEvents = [ce_EventID event], pg_NegativeDeadline = zero_time\<rparr>"

definition startOne :: "cep_event \<Rightarrow> compiled_pattern \<Rightarrow> cep_acc \<Rightarrow> cep_acc" where
  "startOne event cp acc = (case acc of (results, progs, h) \<Rightarrow>
     (let states = pt_States (cp_pattern cp);
          i = deterministicProgressID (pt_ID (cp_pattern cp)) (ce_MemberID event) (ce_EventID event) in
      if states = [] then acc
      else if \<not> matched (cepMatchState event (cp_compiledStates cp ! 0) Map.empty) then acc
      else if progs i \<noteq> None then acc
      else
        (let vars = extractBindings event (st_ContextBinding (states ! 0)) in
         if length states = 1 then (results @ [matchOf (cp_pattern cp) event vars], progs, h)
         else (let (p, h1) = enterState (states ! 1) (ce_MemberID event)
                 (newProgress i (cp_pattern cp) event vars) h
               in (results, progs(i \<mapsto> p), h1)))))"

definition processCEP ::
    "compiled_pattern list \<Rightarrow> string enumeration \<Rightarrow> member_state \<Rightarrow> cep_event \<Rightarrow> time \<Rightarrow> negDeadlineHeap \<Rightarrow>
      match_result list \<times> member_state \<times> negDeadlineHeap" where
  "processCEP patterns it ms event watermark h =
     (let ms1 = sweepExpiredProgresses patterns ms watermark;
          acc1 = fold (advanceOne patterns event) (it (dom (ms_Progresses ms1))) ([], ms_Progresses ms1, h);
          (results, progs, h1) = fold (startOne event) patterns acc1
      in (results, ms1\<lparr>ms_Progresses := progs\<rparr>, h1))"

lemma WithVariables_empty: "WithVariables c Map.empty = c"
  by (simp add: WithVariables_def)

section \<open>Registered patterns\<close>

text \<open>What registration promises of a pattern: a positive first state, negative states only at the end
  and with a deadline.\<close>

definition pattern_ok :: "cep_pattern \<Rightarrow> bool" where
  "pattern_ok pat \<longleftrightarrow> pt_States pat \<noteq> [] \<and> \<not> st_IsNegative (pt_States pat ! 0) \<and>
     (\<forall>i<length (pt_States pat). st_IsNegative (pt_States pat ! i) \<longrightarrow>
        i = length (pt_States pat) - 1 \<and> st_MaxWait (pt_States pat ! i) \<noteq> None)"

definition cp_ok :: "compiled_pattern \<Rightarrow> bool" where
  "cp_ok cp \<longleftrightarrow> pattern_ok (cp_pattern cp) \<and>
     list_all2 (\<lambda>st f. Compile (st_Condition st) = Inr f) (pt_States (cp_pattern cp)) (cp_compiledStates cp)"

lemma checkStates_None:
  "checkStates pid n i sts = None \<longleftrightarrow> (\<forall>k<length sts. st_IsNegative (sts ! k) \<longrightarrow>
     i + k = n - 1 \<and> st_MaxWait (sts ! k) \<noteq> None)"
proof (induction sts arbitrary: i)
  case (Cons st sts)
  have "(\<forall>k<length (st # sts). st_IsNegative ((st # sts) ! k) \<longrightarrow>
      i + k = n - 1 \<and> st_MaxWait ((st # sts) ! k) \<noteq> None) \<longleftrightarrow>
    (st_IsNegative st \<longrightarrow> i = n - 1 \<and> st_MaxWait st \<noteq> None) \<and>
    (\<forall>k<length sts. st_IsNegative (sts ! k) \<longrightarrow> i + 1 + k = n - 1 \<and> st_MaxWait (sts ! k) \<noteq> None)"
    by (simp add: All_less_Suc2)
  then show ?case using Cons.IH [of "i + 1"] by auto
qed simp

lemma compileStates_Inr:
  "compileStates pid sts = Inr fs \<longleftrightarrow> list_all2 (\<lambda>st f. Compile (st_Condition st) = Inr f) sts fs"
proof (induction sts arbitrary: fs)
  case (Cons st sts)
  show ?case
    by (auto simp: list_all2_Cons1 Cons.IH [symmetric] split: sum.splits)
qed auto

lemma is_ok_compileStates: "is_ok (compileStates pid sts) \<longleftrightarrow> list_all (\<lambda>st. rule_wf (st_Condition st)) sts"
proof (induction sts)
  case (Cons st sts)
  show ?case
    using Cons compile_ok(1) [of "st_Condition st"]
    by (cases "Compile (st_Condition st)"; cases "compileStates pid sts") auto
qed simp

lemma checkStates_pattern_ok:
  "pattern_ok pat \<longleftrightarrow> pt_States pat \<noteq> [] \<and> \<not> st_IsNegative (pt_States pat ! 0) \<and>
     checkStates (pt_ID pat) (length (pt_States pat)) 0 (pt_States pat) = None"
  by (simp add: pattern_ok_def checkStates_None)

lemma AddPattern_Inr:
  "AddPattern pat pats = Inr pats' \<longleftrightarrow>
    (\<exists>cp. pats' = pats @ [cp] \<and> cp_pattern cp = pat \<and> cp_ok cp)"
proof -
  have "(\<exists>cp. pats' = pats @ [cp] \<and> cp_pattern cp = pat \<and> cp_ok cp) \<longleftrightarrow>
      (\<exists>fs. pats' = pats @ [\<lparr>cp_pattern = pat, cp_compiledStates = fs\<rparr>] \<and> pattern_ok pat \<and>
        compileStates (pt_ID pat) (pt_States pat) = Inr fs)"
    unfolding cp_ok_def compileStates_Inr
  proof (intro iffI; clarify)
    fix cp :: compiled_pattern assume "pattern_ok (cp_pattern cp)" "list_all2 (\<lambda>st f. Compile (st_Condition st) = Inr f)
        (pt_States (cp_pattern cp)) (cp_compiledStates cp)"
    then show "\<exists>fs. pats @ [cp] = pats @ [\<lparr>cp_pattern = cp_pattern cp, cp_compiledStates = fs\<rparr>] \<and>
        pattern_ok (cp_pattern cp) \<and>
        list_all2 (\<lambda>st f. Compile (st_Condition st) = Inr f) (pt_States (cp_pattern cp)) fs"
      by (intro exI [of _ "cp_compiledStates cp"]) simp
  next
    fix fs assume "pattern_ok pat" "list_all2 (\<lambda>st f. Compile (st_Condition st) = Inr f) (pt_States pat) fs"
    then show "\<exists>cp :: compiled_pattern. pats @ [\<lparr>cp_pattern = pat, cp_compiledStates = fs\<rparr>] = pats @ [cp] \<and> cp_pattern cp = pat \<and>
        pattern_ok (cp_pattern cp) \<and>
        list_all2 (\<lambda>st f. Compile (st_Condition st) = Inr f) (pt_States (cp_pattern cp)) (cp_compiledStates cp)"
      by (intro exI [of _ "\<lparr>cp_pattern = pat, cp_compiledStates = fs\<rparr>"]) simp
  qed
  then show ?thesis
    unfolding checkStates_pattern_ok
    by (auto simp: AddPattern_def Let_def split: option.splits sum.splits)
qed

lemma is_ok_AddPattern:
  "is_ok (AddPattern pat pats) \<longleftrightarrow> pattern_ok pat \<and> list_all (\<lambda>st. rule_wf (st_Condition st)) (pt_States pat)"
  unfolding checkStates_pattern_ok is_ok_compileStates [of "pt_ID pat", symmetric]
  by (auto simp: AddPattern_def Let_def is_ok_iff split: option.splits sum.splits)

lemma patternByID_SomeD: "patternByID pats i = Some cp \<Longrightarrow> cp \<in> set pats \<and> pt_ID (cp_pattern cp) = i"
  by (auto simp: patternByID_def find_Some_iff in_set_conv_nth)

definition patterns_ok :: "compiled_pattern list \<Rightarrow> bool" where
  "patterns_ok pats \<longleftrightarrow> list_all cp_ok pats \<and> distinct (map (\<lambda>cp. pt_ID (cp_pattern cp)) pats)"

lemma patternByID_self:
  "patterns_ok pats \<Longrightarrow> cp \<in> set pats \<Longrightarrow> patternByID pats (pt_ID (cp_pattern cp)) = Some cp"
proof (induction pats)
  case (Cons c pats)
  then show ?case by (auto simp: patternByID_def patterns_ok_def rev_image_eqI)
qed simp

lemma patternByID_ok: "patterns_ok pats \<Longrightarrow> patternByID pats i = Some cp \<Longrightarrow> cp_ok cp"
  using patternByID_SomeD by (fastforce simp: patterns_ok_def list_all_iff)

lemma cp_ok_length: "cp_ok cp \<Longrightarrow> length (cp_compiledStates cp) = length (pt_States (cp_pattern cp))"
  by (auto simp: cp_ok_def dest: list_all2_lengthD)

section \<open>The sequences a match stands for\<close>

text \<open>
  \<open>follows cp es vars\<close>: the events \<open>es\<close> match the first states of the pattern one by one, each state
  under the bindings of the events before it and within its wait from the first event, and bind
  \<open>vars\<close>.
\<close>

inductive follows :: "compiled_pattern \<Rightarrow> cep_event list \<Rightarrow> (string \<rightharpoonup> gval) \<Rightarrow> bool" for cp where
  follows_first:
    "matched (cepMatchState e (cp_compiledStates cp ! 0) Map.empty) \<Longrightarrow>
      follows cp [e] (extractBindings e (st_ContextBinding (pt_States (cp_pattern cp) ! 0)))"
| follows_next:
    "follows cp es vars \<Longrightarrow> length es < length (pt_States (cp_pattern cp)) \<Longrightarrow>
      st = pt_States (cp_pattern cp) ! length es \<Longrightarrow> \<not> st_IsNegative st \<Longrightarrow>
      matched (cepMatchState e (cp_compiledStates cp ! length es) vars) \<Longrightarrow>
      (st_MaxWait st \<noteq> None \<longrightarrow> ce_OccurredAt e \<le> time_add (ce_OccurredAt (hd es)) (Duration (st_MaxWait st))) \<Longrightarrow>
      ce_EventID e \<notin> ce_EventID ` set es \<Longrightarrow>
      follows cp (es @ [e]) (vars ++ extractBindings e (st_ContextBinding st))"

inductive_cases follows_snocE: "follows cp (es @ [e]) vars"

lemma follows_nonempty: "follows cp es vars \<Longrightarrow> es \<noteq> []"
  by (induction rule: follows.induct) auto

lemma follows_distinct: "follows cp es vars \<Longrightarrow> distinct (map ce_EventID es)"
  by (induction rule: follows.induct) auto

definition explained :: "compiled_pattern \<Rightarrow> cep_event list \<Rightarrow> progress \<Rightarrow> bool" where
  "explained cp hist p \<longleftrightarrow> (\<exists>es. follows cp es (pg_Variables p) \<and> subseq es hist \<and>
     length es = pg_CurrentStep p \<and> map ce_EventID es = pg_ProcessedEvents p \<and>
     ce_OccurredAt (hd es) = pg_StartedAt p)"

text \<open>A parked progress has its deadline set and in the heap; no other progress has one.\<close>

definition covered :: "negDeadlineHeap \<Rightarrow> progress \<Rightarrow> bool" where
  "covered h p \<longleftrightarrow> pg_NegativeDeadline p \<noteq> zero_time \<longrightarrow>
     \<lparr>nd_Deadline = pg_NegativeDeadline p, nd_MemberID = pg_MemberID p, nd_ProgressID = pg_ID p\<rparr> \<in> set h"

definition parked_deadline :: "compiled_pattern \<Rightarrow> progress \<Rightarrow> time" where
  "parked_deadline cp p = (let st = pt_States (cp_pattern cp) ! pg_CurrentStep p in
     if st_IsNegative st then time_add (pg_StartedAt p) (Duration (st_MaxWait st)) else zero_time)"

definition progress_ok :: "compiled_pattern list \<Rightarrow> string \<Rightarrow> string \<Rightarrow> progress \<Rightarrow> bool" where
  "progress_ok pats m i p \<longleftrightarrow> pg_ID p = i \<and> pg_MemberID p = m \<and>
     (case patternByID pats (pg_PatternID p) of
        None \<Rightarrow> True
      | Some cp \<Rightarrow> 0 < pg_CurrentStep p \<and> pg_CurrentStep p < length (pt_States (cp_pattern cp)) \<and>
          length (pg_ProcessedEvents p) = pg_CurrentStep p \<and>
          pg_NegativeDeadline p = parked_deadline cp p)"

definition progress_explained :: "compiled_pattern list \<Rightarrow> cep_event list \<Rightarrow> progress \<Rightarrow> bool" where
  "progress_explained pats hist p \<longleftrightarrow> (case patternByID pats (pg_PatternID p) of
     None \<Rightarrow> True | Some cp \<Rightarrow> explained cp hist p)"

text \<open>What a reported sequence match must be.\<close>

definition genuine :: "compiled_pattern list \<Rightarrow> cep_event list \<Rightarrow> cep_event \<Rightarrow> match_result \<Rightarrow> bool" where
  "genuine pats hist event r \<longleftrightarrow> (\<exists>cp es. cp \<in> set pats \<and> follows cp (es @ [event]) (mr_Variables r) \<and>
     subseq (es @ [event]) hist \<and> length es + 1 = length (pt_States (cp_pattern cp)) \<and>
     r = matchOf (cp_pattern cp) event (mr_Variables r))"

lemma progress_explained_mono: "progress_explained pats hist p \<Longrightarrow> progress_explained pats (hist @ [e]) p"
  by (auto simp: progress_explained_def explained_def split: option.splits intro: subseq_rev_drop_many)

lemma enterState_ok:
  assumes "enterState st m p h = (p', h')" "heap_inv h"
  shows "heap_inv h'" "set h \<subseteq> set h'"
    "p' = p\<lparr>pg_NegativeDeadline := (if st_IsNegative st then time_add (pg_StartedAt p) (Duration (st_MaxWait st))
       else pg_NegativeDeadline p)\<rparr>"
    "pg_MemberID p = m \<Longrightarrow> pg_NegativeDeadline p = zero_time \<Longrightarrow> covered h' p'"
proof -
  have set: "set (heap_Push h x) = insert x (set h)" for x
    using heap_Push_ok(2) [OF assms(2), of x] by (metis set_mset_add_mset_insert set_mset_mset)
  show "heap_inv h'" "set h \<subseteq> set h'"
    "p' = p\<lparr>pg_NegativeDeadline := (if st_IsNegative st then time_add (pg_StartedAt p) (Duration (st_MaxWait st))
       else pg_NegativeDeadline p)\<rparr>"
    "pg_MemberID p = m \<Longrightarrow> pg_NegativeDeadline p = zero_time \<Longrightarrow> covered h' p'"
    using assms by (auto simp: enterState_def pushNegativeDeadline_def Let_def set heap_Push_ok covered_def
        split: if_splits)
qed

lemma subseq_drop_last: "subseq es (hist @ [e]) \<Longrightarrow> e \<notin> set es \<Longrightarrow> subseq es hist"
proof -
  assume s: "subseq es (hist @ [e])" and e: "e \<notin> set es"
  then obtain xs ys where "es = xs @ ys" "subseq xs hist" "subseq ys [e]" by (meson subseq_appendE)
  moreover have "ys = []" using calculation e by (cases ys) (auto elim: list_emb.cases)
  ultimately show ?thesis by simp
qed

section \<open>The matcher's invariant\<close>

definition live_ok :: "compiled_pattern list \<Rightarrow> string \<Rightarrow> cep_event list \<Rightarrow> negDeadlineHeap \<Rightarrow> string \<Rightarrow> progress \<Rightarrow> bool" where
  "live_ok pats m hist h i p \<longleftrightarrow>
     progress_ok pats m i p \<and> progress_explained pats hist p \<and> covered h p"

definition cep_ok :: "compiled_pattern list \<Rightarrow> string \<Rightarrow> cep_event list \<Rightarrow> (string \<rightharpoonup> progress) \<Rightarrow> negDeadlineHeap \<Rightarrow> bool" where
  "cep_ok pats m hist progs h \<longleftrightarrow> heap_inv h \<and> (\<forall>i p. progs i = Some p \<longrightarrow> live_ok pats m hist h i p)"

lemma live_ok_mono: "live_ok pats m hist h i p \<Longrightarrow> set h \<subseteq> set h' \<Longrightarrow> live_ok pats m hist h' i p"
  by (auto simp: live_ok_def covered_def)

lemma live_ok_snoc: "live_ok pats m hist h i p \<Longrightarrow> live_ok pats m (hist @ [e]) h i p"
  by (simp add: live_ok_def progress_explained_mono)

lemma explained_next:
  assumes ex: "explained cp (hist @ [e]) p" and new: "ce_EventID e \<notin> set (pg_ProcessedEvents p)"
    and st: "st = pt_States (cp_pattern cp) ! pg_CurrentStep p" "pg_CurrentStep p < length (pt_States (cp_pattern cp))"
    and pos: "\<not> st_IsNegative st"
    and hit: "matched (cepMatchState e (cp_compiledStates cp ! pg_CurrentStep p) (pg_Variables p))"
    and wait: "\<not> (st_MaxWait st \<noteq> None \<and> time_add (pg_StartedAt p) (Duration (st_MaxWait st)) < ce_OccurredAt e)"
    and vars: "vars = pg_Variables p ++ extractBindings e (st_ContextBinding st)"
  shows "\<exists>es. follows cp (es @ [e]) vars \<and> subseq (es @ [e]) (hist @ [e]) \<and> length es = pg_CurrentStep p \<and>
    map ce_EventID es = pg_ProcessedEvents p \<and> ce_OccurredAt (hd (es @ [e])) = pg_StartedAt p"
proof -
  obtain es where es: "follows cp es (pg_Variables p)" "subseq es (hist @ [e])" "length es = pg_CurrentStep p"
      "map ce_EventID es = pg_ProcessedEvents p" "ce_OccurredAt (hd es) = pg_StartedAt p"
    using ex by (auto simp: explained_def)
  have id: "ce_EventID e \<notin> ce_EventID ` set es" using new es(4) by (metis set_map)
  then have "subseq es hist" using subseq_drop_last [OF es(2)] by auto
  then have "subseq (es @ [e]) (hist @ [e])" by simp
  moreover have "follows cp (es @ [e]) vars"
    unfolding vars using es st pos hit wait id by (intro follows_next) auto
  moreover have "hd (es @ [e]) = hd es" using follows_nonempty [OF es(1)] by simp
  ultimately show ?thesis using es by auto
qed

text \<open>The outcome of one call of \<^verbatim>\<open>advanceProgress\<close>.\<close>

lemma advanceProgress_ok:
  assumes pats: "patterns_ok pats" and h: "heap_inv h"
    and ok: "live_ok pats (ce_MemberID e) (hist @ [e]) h i p"
    and r: "advanceProgress pats e p h = (r, rm, p', h')"
  shows "heap_inv h' \<and> set h \<subseteq> set h' \<and> (\<not> rm \<longrightarrow> live_ok pats (ce_MemberID e) (hist @ [e]) h' i p') \<and>
    (\<forall>x. r = Some x \<longrightarrow> genuine pats (hist @ [e]) e x)"
proof (cases "patternByID pats (pg_PatternID p)")
  case None
  then show ?thesis using r h by (simp add: advanceProgress_def)
next
  case (Some cp)
  note cp = patternByID_SomeD [OF Some]
  let ?states = "pt_States (cp_pattern cp)" and ?step = "pg_CurrentStep p"
  define st where "st = ?states ! ?step"
  define p1 where "p1 = p\<lparr>pg_Variables := pg_Variables p ++ extractBindings e (st_ContextBinding st),
      pg_CurrentStep := ?step + 1, pg_ProcessedEvents := pg_ProcessedEvents p @ [ce_EventID e]\<rparr>"
  have step: "?step < length ?states" and ids: "length (pg_ProcessedEvents p) = ?step"
    and dl: "pg_NegativeDeadline p = parked_deadline cp p"
    using ok Some by (simp_all add: live_ok_def progress_ok_def)
  have ex: "explained cp (hist @ [e]) p" using ok Some by (simp add: live_ok_def progress_explained_def)
  consider (stays) "(r, p', h') = (None, p, h)"
    | (advances) "ce_EventID e \<notin> set (pg_ProcessedEvents p)" "\<not> st_IsNegative st"
        "matched (cepMatchState e (cp_compiledStates cp ! ?step) (pg_Variables p))"
        "\<not> (st_MaxWait st \<noteq> None \<and> time_add (pg_StartedAt p) (Duration (st_MaxWait st)) < ce_OccurredAt e)"
        "(if length ?states \<le> ?step + 1 then (Some (matchOf (cp_pattern cp) e (pg_Variables p1)), True, p1, h)
          else (let (p2, h2) = enterState (?states ! (?step + 1)) (ce_MemberID e) p1 h in (None, False, p2, h2)))
          = (r, rm, p', h')"
    using r step unfolding advanceProgress_def Some option.case Let_def st_def [symmetric] p1_def [symmetric]
    by (auto split: if_splits)
  then show ?thesis
  proof cases
    case stays
    then show ?thesis using h ok by simp
  next
    case advances
    obtain es where es: "follows cp (es @ [e]) (pg_Variables p1)" "subseq (es @ [e]) (hist @ [e])"
        "length es = ?step" "map ce_EventID es = pg_ProcessedEvents p" "ce_OccurredAt (hd (es @ [e])) = pg_StartedAt p"
      using explained_next [OF ex advances(1) st_def step advances(2-4) refl] by (auto simp: p1_def)
    show ?thesis
    proof (cases "length ?states \<le> ?step + 1")
      case True
      then have "genuine pats (hist @ [e]) e (matchOf (cp_pattern cp) e (pg_Variables p1))"
        using es step cp unfolding genuine_def
        by (intro exI [of _ cp] exI [of _ es]) (auto simp: matchOf_def)
      then show ?thesis using True advances(5) h by auto
    next
      case False
      obtain p2 h2 where en: "enterState (?states ! (?step + 1)) (ce_MemberID e) p1 h = (p2, h2)" by fastforce
      note E = enterState_ok [OF en h]
      have res: "(r, rm, p', h') = (None, False, p2, h2)" using advances(5) False en by simp
      have z: "pg_NegativeDeadline p1 = zero_time"
        using dl advances(2) by (simp add: p1_def parked_deadline_def st_def Let_def)
      have pid: "pg_PatternID p1 = pg_PatternID p" "pg_ID p1 = i" "pg_MemberID p1 = ce_MemberID e"
        using ok by (simp_all add: p1_def live_ok_def progress_ok_def)
      have "progress_ok pats (ce_MemberID e) i p2"
        using False ids pid z unfolding progress_ok_def E(3)
        by (simp add: Some p1_def parked_deadline_def Let_def)
      moreover have "progress_explained pats (hist @ [e]) p2"
        using es pid unfolding progress_explained_def E(3)
        by (auto simp: Some explained_def p1_def intro!: exI [of _ "es @ [e]"])
      ultimately show ?thesis
        using res E(1,2) E(4) [OF pid(3) z] by (simp add: live_ok_def)
    qed
  qed
qed

lemma advanceOne_ok:
  assumes pats: "patterns_ok pats" and ok: "cep_ok pats (ce_MemberID e) (hist @ [e]) progs h"
    and gen: "list_all (genuine pats (hist @ [e]) e) results"
    and r: "advanceOne pats e i (results, progs, h) = (results', progs', h')"
  shows "cep_ok pats (ce_MemberID e) (hist @ [e]) progs' h' \<and> set h \<subseteq> set h' \<and>
    list_all (genuine pats (hist @ [e]) e) results'"
proof (cases "progs i")
  case None
  then show ?thesis using ok gen r by (simp add: advanceOne_def)
next
  case (Some p)
  obtain x rm p1 h1 where a: "advanceProgress pats e p h = (x, rm, p1, h1)" by (metis prod_cases4)
  have live: "live_ok pats (ce_MemberID e) (hist @ [e]) h i p" and h: "heap_inv h"
    using ok Some by (simp_all add: cep_ok_def)
  note A = advanceProgress_ok [OF pats h live a]
  have res: "results' = (case x of None \<Rightarrow> results | Some m \<Rightarrow> results @ [m])"
      "progs' = (if rm then progs(i := None) else progs(i \<mapsto> p1))" "h' = h1"
    using r Some a by (simp_all add: advanceOne_def)
  have "live_ok pats (ce_MemberID e) (hist @ [e]) h1 j q" if "progs' j = Some q" for j q
  proof (cases "j = i")
    case True then show ?thesis using that A res(2) by (auto split: if_splits)
  next
    case False
    then have "progs j = Some q" using that res(2) by (auto split: if_splits)
    then have "live_ok pats (ce_MemberID e) (hist @ [e]) h j q" using ok by (simp add: cep_ok_def)
    then show ?thesis by (rule live_ok_mono) (use A in simp)
  qed
  then show ?thesis using A gen res by (auto simp: cep_ok_def split: option.split)
qed

lemma startOne_ok:
  assumes pats: "patterns_ok pats" and cp: "cp \<in> set pats"
    and ok: "cep_ok pats (ce_MemberID e) (hist @ [e]) progs h"
    and gen: "list_all (genuine pats (hist @ [e]) e) results"
    and r: "startOne e cp (results, progs, h) = (results', progs', h')"
  shows "cep_ok pats (ce_MemberID e) (hist @ [e]) progs' h' \<and> set h \<subseteq> set h' \<and>
    list_all (genuine pats (hist @ [e]) e) results'"
proof -
  let ?states = "pt_States (cp_pattern cp)"
  let ?i = "deterministicProgressID (pt_ID (cp_pattern cp)) (ce_MemberID e) (ce_EventID e)"
  let ?vars = "extractBindings e (st_ContextBinding (?states ! 0))"
  let ?p = "newProgress ?i (cp_pattern cp) e ?vars"
  have h: "heap_inv h" using ok by (simp add: cep_ok_def)
  have sub: "subseq [e] (hist @ [e])" by (simp add: subseq_singleton_left)
  consider (same) "(results', progs', h') = (results, progs, h)"
    | (instant) "length ?states = 1" "matched (cepMatchState e (cp_compiledStates cp ! 0) Map.empty)"
        "(results', progs', h') = (results @ [matchOf (cp_pattern cp) e ?vars], progs, h)"
    | (opens) p2 h2 where "1 < length ?states" "matched (cepMatchState e (cp_compiledStates cp ! 0) Map.empty)"
        "enterState (?states ! 1) (ce_MemberID e) ?p h = (p2, h2)"
        "(results', progs', h') = (results, progs(?i \<mapsto> p2), h2)"
    using r by (cases "enterState (?states ! 1) (ce_MemberID e) ?p h"; cases ?states)
      (auto simp: startOne_def Let_def split: if_splits)
  then show ?thesis
  proof cases
    case same then show ?thesis using ok gen by simp
  next
    case instant
    have "genuine pats (hist @ [e]) e (matchOf (cp_pattern cp) e ?vars)"
      using follows_first [OF instant(2)] instant(1) cp sub unfolding genuine_def
      by (intro exI [of _ cp] exI [of _ "[]"]) (simp add: matchOf_def)
    then show ?thesis using instant(3) ok gen by simp
  next
    case opens
    note E = enterState_ok [OF opens(3) h]
    have by_id: "patternByID pats (pt_ID (cp_pattern cp)) = Some cp" by (rule patternByID_self [OF pats cp])
    have p: "pg_PatternID ?p = pt_ID (cp_pattern cp)" "pg_MemberID ?p = ce_MemberID e"
        "pg_NegativeDeadline ?p = zero_time" "pg_ID ?p = ?i" "pg_CurrentStep ?p = 1"
        "pg_ProcessedEvents ?p = [ce_EventID e]" "pg_StartedAt ?p = ce_OccurredAt e" "pg_Variables ?p = ?vars"
      by (simp_all add: newProgress_def)
    have "progress_ok pats (ce_MemberID e) ?i p2"
      using opens(1) unfolding progress_ok_def E(3) by (simp add: p by_id parked_deadline_def Let_def)
    moreover have "progress_explained pats (hist @ [e]) p2"
      using follows_first [OF opens(2)] sub unfolding progress_explained_def E(3)
      by (auto simp: p by_id explained_def intro!: exI [of _ "[e]"])
    ultimately have new: "live_ok pats (ce_MemberID e) (hist @ [e]) h2 ?i p2"
      using E(4) p by (simp add: live_ok_def)
    have "live_ok pats (ce_MemberID e) (hist @ [e]) h2 j q" if "progs' j = Some q" for j q
      using that opens(4) new ok E(2) by (auto simp: cep_ok_def intro: live_ok_mono split: if_splits)
    then show ?thesis using opens(4) E(1,2) gen by (simp add: cep_ok_def)
  qed
qed

lemma cep_loop_ok:
  assumes step: "\<And>x results progs h results' progs' h'. x \<in> set xs \<Longrightarrow>
      cep_ok pats m hist progs h \<Longrightarrow> list_all G results \<Longrightarrow> f x (results, progs, h) = (results', progs', h') \<Longrightarrow>
      cep_ok pats m hist progs' h' \<and> set h \<subseteq> set h' \<and> list_all G results'"
    and ok: "cep_ok pats m hist progs h" "list_all G results"
    and r: "fold f xs (results, progs, h) = (results', progs', h')"
  shows "cep_ok pats m hist progs' h' \<and> set h \<subseteq> set h' \<and> list_all G results'"
  using assms
proof (induction xs arbitrary: results progs h)
  case (Cons x xs)
  obtain r1 p1 h1 where f: "f x (results, progs, h) = (r1, p1, h1)" by (metis prod_cases3)
  have 1: "cep_ok pats m hist p1 h1 \<and> set h \<subseteq> set h1 \<and> list_all G r1"
    by (rule Cons.prems(1) [OF _ Cons.prems(2,3) f]) simp
  have "cep_ok pats m hist progs' h' \<and> set h1 \<subseteq> set h' \<and> list_all G results'"
    by (rule Cons.IH [OF Cons.prems(1) [OF list.set_intros(2)]]) (use 1 Cons.prems(4) f in auto)
  with 1 show ?case by auto
qed auto

lemma processCEP_ok:
  assumes pats: "patterns_ok pats"
    and ok: "cep_ok pats (ce_MemberID e) hist (ms_Progresses ms) h"
    and r: "processCEP pats it ms e wm h = (results, ms', h')"
  shows "cep_ok pats (ce_MemberID e) (hist @ [e]) (ms_Progresses ms') h'" "set h \<subseteq> set h'"
    "list_all (genuine pats (hist @ [e]) e) results"
    "ms' = ms\<lparr>ms_Progresses := ms_Progresses ms'\<rparr>"
proof -
  let ?G = "genuine pats (hist @ [e]) e" let ?m = "ce_MemberID e"
  define ms1 where "ms1 = sweepExpiredProgresses pats ms wm"
  obtain r1 p1 h1 where A: "fold (advanceOne pats e) (it (dom (ms_Progresses ms1)))
      ([], ms_Progresses ms1, h) = (r1, p1, h1)" by (metis prod_cases3)
  obtain r2 p2 h2 where B: "fold (startOne e) pats (r1, p1, h1) = (r2, p2, h2)" by (metis prod_cases3)
  have res: "results = r2" "ms' = ms1\<lparr>ms_Progresses := p2\<rparr>" "h' = h2"
    using r by (simp_all add: processCEP_def ms1_def [symmetric] A B)
  have "cep_ok pats ?m (hist @ [e]) (ms_Progresses ms1) h"
    using ok by (auto simp: cep_ok_def ms1_def sweepExpiredProgresses_def map_delete_if_Some intro: live_ok_snoc)
  from cep_loop_ok [where G = ?G, OF advanceOne_ok [OF pats] this _ A]
  have 1: "cep_ok pats ?m (hist @ [e]) p1 h1 \<and> set h \<subseteq> set h1 \<and> list_all ?G r1" by simp
  have "cep_ok pats ?m (hist @ [e]) p2 h2 \<and> set h1 \<subseteq> set h2 \<and> list_all ?G r2"
    by (rule cep_loop_ok [OF startOne_ok [OF pats] _ _ B]) (use 1 in auto)
  with 1 show "cep_ok pats ?m (hist @ [e]) (ms_Progresses ms') h'" "set h \<subseteq> set h'" "list_all ?G results"
    by (auto simp: res)
  show "ms' = ms\<lparr>ms_Progresses := ms_Progresses ms'\<rparr>"
    by (simp add: res ms1_def sweepExpiredProgresses_def)
qed

end
