(* ===== verification/Core.thy ===== *)
theory Core
  imports Cep
begin

text \<open>
  \<^verbatim>\<open>service/engine/core/core.go\<close>, \<^verbatim>\<open>eval.go\<close>, \<^verbatim>\<open>watermark.go\<close> and the drain
  of \<^verbatim>\<open>negative_queue.go\<close>: one shard's event processor. \<open>ProcessEvent\<close> composes the
  copy-on-write store, the buckets, the rules, the watermark, the pattern matcher and the deadline
  queue exactly as the code does.
\<close>

section \<open>Rules on one event (eval.go)\<close>

record matched_rule =
  mu_ID :: uint64
  mu_Name :: string

text \<open>The orders of the range loops of one call: over the buckets for each aggregate key, and over the
  member's progresses.\<close>

record loop_orders =
  lo_buckets :: "agg_key \<Rightarrow> int enumeration"
  lo_progresses :: "string enumeration"

definition aggregateCache :: "(agg_key \<Rightarrow> int enumeration) \<Rightarrow> member_state \<Rightarrow> time \<Rightarrow> agg_key list \<Rightarrow> (string \<rightharpoonup> gval)" where
  "aggregateCache its ms occurredAt keys =
     fold (\<lambda>k cache. cache(CacheKey k \<mapsto> VF64 (computeBucketAggregation (its k) ms k occurredAt))) keys Map.empty"

definition evaluateRules ::
    "(agg_key \<Rightarrow> int enumeration) \<Rightarrow> member_state \<Rightarrow> (string \<rightharpoonup> gval) \<Rightarrow> time \<Rightarrow> compiled_rule_set \<Rightarrow> matched_rule list" where
  "evaluateRules its ms fs occurredAt ruleSet =
     (let allKeys = CollectUniqueAggregateKeys (rs_Strategies ruleSet);
          aggCache = aggregateCache its ms occurredAt allKeys
      in map (\<lambda>cs. \<lparr>mu_ID = cs_ID cs, mu_Name = cs_Name cs\<rparr>)
           (filter (\<lambda>cs. matched (cs_Eval cs (Preloaded_ctx (NewPreloadedEvalContext fs aggCache))))
             (rs_Strategies ruleSet)))"

definition buildEvalFields :: "behavior_event \<Rightarrow> (string \<rightharpoonup> gval)" where
  "buildEvalFields event = (ev_Fields event)(''behavior'' \<mapsto> VStr (ev_Behavior event),
     ''member_id'' \<mapsto> VStr (ev_MemberID event))"

section \<open>The shard (core.go)\<close>

definition defaultMaxWindow :: duration where
  "defaultMaxWindow = 24 * Hour"

definition defaultAllowedLateness :: duration where
  "defaultAllowedLateness = 5 * Second"

text \<open>\<^verbatim>\<open>c_store\<close> holds \<^verbatim>\<open>State\<close> and the two epochs. The optional late sink is a flag,
  and the calls made to it are the list \<open>c_lateOut\<close>.\<close>

record core =
  c_ShardID :: int
  c_store :: member_store
  c_ruleSet :: compiled_rule_set
  c_maxWindow :: duration
  c_watermark :: int
  c_allowedLateness :: duration
  c_lateSink :: bool
  c_lateOut :: "behavior_event list"
  c_patterns :: "compiled_pattern list"
  c_negDeadlines :: negDeadlineHeap
  c_lastSeq :: uint64
  c_replaying :: bool

datatype core_option = WithAllowedLateness duration | WithLateSink

fun apply_option :: "core_option \<Rightarrow> core \<Rightarrow> core" where
  "apply_option (WithAllowedLateness d) c = c\<lparr>c_allowedLateness := d\<rparr>"
| "apply_option WithLateSink c = c\<lparr>c_lateSink := True\<rparr>"

definition NewCore :: "int \<Rightarrow> compiled_rule_set \<Rightarrow> core_option list \<Rightarrow> core" where
  "NewCore shardID ruleSet opts =
     (let maxWindow = (if rs_MaxWindow ruleSet = 0 then defaultMaxWindow else rs_MaxWindow ruleSet)
      in fold apply_option opts
        \<lparr>c_ShardID = shardID, c_store = empty_store, c_ruleSet = ruleSet, c_maxWindow = maxWindow,
         c_watermark = 0, c_allowedLateness = defaultAllowedLateness, c_lateSink = False, c_lateOut = [],
         c_patterns = [], c_negDeadlines = [], c_lastSeq = 0, c_replaying = False\<rparr>)"

definition BeginReplay :: "core \<Rightarrow> core" where
  "BeginReplay c = c\<lparr>c_replaying := True\<rparr>"

definition EndReplay :: "core \<Rightarrow> core" where
  "EndReplay c = c\<lparr>c_replaying := False\<rparr>"

section \<open>Watermark (watermark.go)\<close>

definition isLate :: "core \<Rightarrow> time \<Rightarrow> bool" where
  "isLate c t \<longleftrightarrow> unix_nano t < c_watermark c"

definition advanceWatermark :: "time \<Rightarrow> core \<Rightarrow> core" where
  "advanceWatermark t c =
     (let candidate = unix_nano (time_add t (i64 (- c_allowedLateness c)))
      in if c_watermark c < candidate then c\<lparr>c_watermark := candidate\<rparr> else c)"

definition Watermark :: "core \<Rightarrow> time" where
  "Watermark c = c_watermark c"

definition laterOf :: "time \<Rightarrow> time \<Rightarrow> time" where
  "laterOf a b = (if a < b then b else a)"

section \<open>Draining the deadlines (negative\_queue.go)\<close>

definition negativeMatch :: "cep_pattern \<Rightarrow> progress \<Rightarrow> match_result" where
  "negativeMatch pattern p = \<lparr>mr_PatternID = pt_ID pattern, mr_PatternName = pt_Name pattern,
     mr_MemberID = pg_MemberID p, mr_Variables = pg_Variables p, mr_MatchedAt = pg_NegativeDeadline p\<rparr>"

text \<open>The body of the loop after the pop. The write finds the progress the read found (the read and the
  clone see the same member), so its second lookup never misses.\<close>

definition fireEntry :: "compiled_pattern list \<Rightarrow> negDeadlineEntry \<Rightarrow> member_store \<Rightarrow> match_result list \<times> member_store" where
  "fireEntry patterns entry st =
     (case member st (nd_MemberID entry) of
        None \<Rightarrow> ([], st)
      | Some ro \<Rightarrow>
          (case ms_Progresses ro (nd_ProgressID entry) of
             None \<Rightarrow> ([], st)
           | Some p \<Rightarrow>
               if is_zero_time (pg_NegativeDeadline p) \<or> pg_NegativeDeadline p \<noteq> nd_Deadline entry then ([], st)
               else
                 (let (a, st1) = memberForWrite (nd_MemberID entry) st;
                      ms = sm_members st1 a;
                      p1 = (case ms_Progresses ms (nd_ProgressID entry) of None \<Rightarrow> p | Some q \<Rightarrow> q);
                      ms1 = ms\<lparr>ms_Progresses := (ms_Progresses ms)(nd_ProgressID entry := None)\<rparr>
                  in (case patternByID patterns (pg_PatternID p1) of
                        None \<Rightarrow> []
                      | Some cp \<Rightarrow> [negativeMatch (cp_pattern cp) p1],
                      put_member a ms1 st1))))"

function drainNegativeMatches :: "time \<Rightarrow> core \<Rightarrow> match_result list \<times> core" where
  "drainNegativeMatches watermark c =
     (if c_negDeadlines c = [] \<or> \<not> nd_Deadline (c_negDeadlines c ! 0) < watermark then ([], c)
      else
        (let (entry, h) = heap_Pop (c_negDeadlines c);
             (rs, st) = fireEntry (c_patterns c) (c_negDeadlines c ! 0) (c_store c);
             (rest, c1) = drainNegativeMatches watermark (c\<lparr>c_negDeadlines := h, c_store := st\<rparr>)
         in (rs @ rest, c1)))"
  by pat_completeness auto
termination
proof (relation "measure (\<lambda>(w, c). length (c_negDeadlines c))", goal_cases)
  case (2 w c x entry h y rs st)
  then have "h = snd (heap_Pop (c_negDeadlines c))" "c_negDeadlines c \<noteq> []" by (metis snd_conv, blast)
  then show ?case using length_heap_Pop [of "c_negDeadlines c"] by simp
qed simp

declare drainNegativeMatches.simps [simp del]

section \<open>One event (core.go)\<close>

record process_result =
  pr_MatchedRules :: "matched_rule list"
  pr_MatchedPatterns :: "match_result list"

definition no_result :: process_result where
  "no_result = \<lparr>pr_MatchedRules = [], pr_MatchedPatterns = []\<rparr>"

definition cepEvent :: "behavior_event \<Rightarrow> cep_event" where
  "cepEvent event = \<lparr>ce_EventID = ev_EventID event, ce_MemberID = ev_MemberID event,
     ce_Behavior = ev_Behavior event, ce_Fields = ev_Fields event, ce_OccurredAt = ev_OccurredAt event\<rparr>"

text \<open>The part that every event goes through, late or not: the member folded with the event.\<close>

definition foldEvent :: "duration \<Rightarrow> behavior_event \<Rightarrow> member_state \<Rightarrow> member_state" where
  "foldEvent maxWindow event ms =
     (let ms1 = updateAggregations ms (ev_Behavior event) (ev_EventID event) (ev_OccurredAt event)
            (numericFieldsOf (ev_Fields event)) maxWindow
      in ms1\<lparr>ms_LastSeenAt := laterOf (ms_LastSeenAt ms1) (ev_OccurredAt event)\<rparr>)"

definition ProcessEvent :: "loop_orders \<Rightarrow> behavior_event \<Rightarrow> core \<Rightarrow> process_result \<times> core" where
  "ProcessEvent lo event c =
     (let (a, st) = memberForWrite (ev_MemberID event) (c_store c);
          late = isLate c (ev_OccurredAt event);
          ms = foldEvent (c_maxWindow c) event (sm_members st a);
          c1 = c\<lparr>c_store := put_member a ms st\<rparr>
      in if late then
           (no_result,
            if c_lateSink c1 \<and> \<not> c_replaying c1 then c1\<lparr>c_lateOut := c_lateOut c1 @ [event]\<rparr> else c1)
         else
           (let c2 = advanceWatermark (ev_OccurredAt event) c1;
                fs = buildEvalFields event;
                rules = evaluateRules (lo_buckets lo) ms fs (ev_OccurredAt event) (c_ruleSet c2);
                watermark = Watermark c2;
                (ps, ms1, h) = processCEP (c_patterns c2) (lo_progresses lo) ms (cepEvent event) watermark
                  (c_negDeadlines c2);
                c3 = c2\<lparr>c_store := put_member a ms1 (c_store c2), c_negDeadlines := h\<rparr>;
                (expired, c4) = drainNegativeMatches watermark c3
            in (\<lparr>pr_MatchedRules = rules, pr_MatchedPatterns = ps @ expired\<rparr>, c4)))"

section \<open>The shard on plain members\<close>

text \<open>
  The same steps on a plain map from members to their values: what a shard without snapshots and
  copy on write would do. The theorems below show that the code does exactly this.
\<close>

definition fire_view :: "compiled_pattern list \<Rightarrow> negDeadlineEntry \<Rightarrow> (string \<rightharpoonup> member_state) \<Rightarrow>
    match_result list \<times> (string \<rightharpoonup> member_state)" where
  "fire_view pats entry V =
     (case V (nd_MemberID entry) of
        None \<Rightarrow> ([], V)
      | Some ms \<Rightarrow>
          (case ms_Progresses ms (nd_ProgressID entry) of
             None \<Rightarrow> ([], V)
           | Some p \<Rightarrow>
               if is_zero_time (pg_NegativeDeadline p) \<or> pg_NegativeDeadline p \<noteq> nd_Deadline entry then ([], V)
               else (case patternByID pats (pg_PatternID p) of
                       None \<Rightarrow> [] | Some cp \<Rightarrow> [negativeMatch (cp_pattern cp) p],
                     V(nd_MemberID entry \<mapsto>
                       ms\<lparr>ms_Progresses := (ms_Progresses ms)(nd_ProgressID entry := None)\<rparr>))))"

fun fire_all :: "compiled_pattern list \<Rightarrow> negDeadlineEntry list \<Rightarrow> (string \<rightharpoonup> member_state) \<Rightarrow>
    match_result list \<times> (string \<rightharpoonup> member_state)" where
  "fire_all pats [] V = ([], V)"
| "fire_all pats (e # es) V =
     (let (rs, V1) = fire_view pats e V; (rest, V2) = fire_all pats es V1 in (rs @ rest, V2))"

definition process_view :: "loop_orders \<Rightarrow> behavior_event \<Rightarrow> core \<Rightarrow> (string \<rightharpoonup> member_state) \<Rightarrow>
    process_result \<times> (string \<rightharpoonup> member_state) \<times> negDeadlineHeap" where
  "process_view lo event c V =
     (let m = ev_MemberID event; t = ev_OccurredAt event;
          ms = foldEvent (c_maxWindow c) event (view_or_new V m)
      in if isLate c t then (no_result, V(m \<mapsto> ms), c_negDeadlines c)
         else
           (let wm = c_watermark (advanceWatermark t c);
                (ps, ms1, h) = processCEP (c_patterns c) (lo_progresses lo) ms (cepEvent event) wm (c_negDeadlines c);
                (due, h1) = due_entries wm h;
                (expired, V1) = fire_all (c_patterns c) due (V(m \<mapsto> ms1))
            in (\<lparr>pr_MatchedRules = evaluateRules (lo_buckets lo) ms (buildEvalFields event) t (c_ruleSet c),
                 pr_MatchedPatterns = ps @ expired\<rparr>, V1, h1)))"

section \<open>Versions do not matter\<close>

lemma compute_version [simp]:
  "computeBucketAggregation it (ms\<lparr>ms_version := v\<rparr>) k t = computeBucketAggregation it ms k t"
  by (simp add: computeBucketAggregation_def)

lemma evaluateRules_version [simp]:
  "evaluateRules its (ms\<lparr>ms_version := v\<rparr>) fs t rs = evaluateRules its ms fs t rs"
  by (simp add: evaluateRules_def aggregateCache_def)

lemma foldEvent_keeps: "keeps_identity (foldEvent w e)"
  by (simp add: keeps_identity_def foldEvent_def Let_def updateAggregations_eq buckets_of_def)

lemma processCEP_version:
  "processCEP pats it (ms\<lparr>ms_version := v\<rparr>) e wm h =
    (case processCEP pats it ms e wm h of (rs, ms1, h1) \<Rightarrow> (rs, ms1\<lparr>ms_version := v\<rparr>, h1))"
  by (simp add: processCEP_def sweepExpiredProgresses_def Let_def split: prod.split)

lemma processCEP_frame:
  assumes "processCEP pats it ms e wm h = (rs, ms1, h1)"
  shows "ms_MemberID ms1 = ms_MemberID ms" "ms_version ms1 = ms_version ms"
    "ms_Aggregations ms1 = ms_Aggregations ms" "ms_LastSeenAt ms1 = ms_LastSeenAt ms"
  using assms by (auto simp: processCEP_def sweepExpiredProgresses_def Let_def split: prod.splits)

section \<open>Firing on the store\<close>

lemma member_view_Some: "members_view st m = Some u \<longleftrightarrow> (\<exists>ms. member st m = Some ms \<and> u = unversioned ms)"
  by (auto simp: members_view_def)

lemma unversioned_sel [simp]:
  "ms_Progresses (unversioned ms) = ms_Progresses ms" "ms_Aggregations (unversioned ms) = ms_Aggregations ms"
  "ms_MemberID (unversioned ms) = ms_MemberID ms" "ms_LastSeenAt (unversioned ms) = ms_LastSeenAt ms"
  by (simp_all add: unversioned_def)

lemma unversioned_progs [simp]:
  "unversioned (ms\<lparr>ms_Progresses := x\<rparr>) = (unversioned ms)\<lparr>ms_Progresses := x\<rparr>"
  by (simp add: unversioned_def)

lemma write_read:
  assumes inv: "store_inv st" and r: "memberForWrite m st = (a, st1)"
    and ms: "ms_MemberID ms = ms_MemberID (sm_members st1 a)" "ms_version ms = ms_version (sm_members st1 a)"
  shows "store_inv (put_member a ms st1)"
    and "members_view (put_member a ms st1) = (members_view st)(m \<mapsto> unversioned ms)"
    and "unversioned (sm_members st1 a) = view_or_new (members_view st) m"
proof -
  have W: "store_inv st1" "cell_of st1 m a" "member st1 = (member st)(m \<mapsto> sm_members st1 a)"
      "\<exists>v. sm_members st1 a = (member_or_new st m)\<lparr>ms_version := v\<rparr>"
    using memberForWrite_ok [OF inv r] by blast+
  note c = cell_facts [OF W(1,2)]
  show "store_inv (put_member a ms st1)"
    by (rule store_inv_put [OF W(1,2)]) (simp_all add: ms c)
  show "members_view (put_member a ms st1) = (members_view st)(m \<mapsto> unversioned ms)"
    using member_put [OF W(1,2), of ms] W(3) by (auto simp: members_view_def fun_eq_iff)
  show "unversioned (sm_members st1 a) = view_or_new (members_view st) m"
    using W(4) by (auto simp: view_or_new_members)
qed

lemma fireEntry_view:
  assumes inv: "store_inv st" and r: "fireEntry pats entry st = (rs, st1)"
  shows "store_inv st1" "fire_view pats entry (members_view st) = (rs, members_view st1)"
proof -
  let ?m = "nd_MemberID entry" and ?i = "nd_ProgressID entry"
  have "store_inv st1 \<and> fire_view pats entry (members_view st) = (rs, members_view st1)"
  proof (cases "member st ?m")
    case None
    then show ?thesis using r inv by (simp add: fireEntry_def fire_view_def members_view_def)
  next
    case (Some ro)
    then have v: "members_view st ?m = Some (unversioned ro)" by (simp add: members_view_def)
    show ?thesis
    proof (cases "ms_Progresses ro ?i")
      case None
      then show ?thesis using r inv Some v by (simp add: fireEntry_def fire_view_def)
    next
      case p: (Some p)
      show ?thesis
      proof (cases "is_zero_time (pg_NegativeDeadline p) \<or> pg_NegativeDeadline p \<noteq> nd_Deadline entry")
        case True
        have "(rs, st1) = ([], st)"
          using r unfolding fireEntry_def Some p option.case if_P [OF True] by simp
        moreover have "fire_view pats entry (members_view st) = ([], members_view st)"
          unfolding fire_view_def v option.case unversioned_sel p if_P [OF True] ..
        ultimately show ?thesis using inv by simp
      next
        case False
        obtain a st2 where w: "memberForWrite ?m st = (a, st2)" by fastforce
        let ?ms = "sm_members st2 a"
        let ?ms1 = "?ms\<lparr>ms_Progresses := (ms_Progresses ?ms)(?i := None)\<rparr>"
        note R = write_read [OF inv w, of ?ms1, simplified]
        have u: "unversioned ?ms = unversioned ro" using R(3) by (simp add: view_or_new_def v)
        have pr: "ms_Progresses ?ms = ms_Progresses ro" using arg_cong [OF u, of ms_Progresses] by simp
        have "(rs, st1) = (case patternByID pats (pg_PatternID p) of
            None \<Rightarrow> [] | Some cp \<Rightarrow> [negativeMatch (cp_pattern cp) p], put_member a ?ms1 st2)"
          using r unfolding fireEntry_def Some p option.case if_not_P [OF False] w Let_def prod.case
          by (simp add: pr p cong: option.case_cong)
        moreover have "fire_view pats entry (members_view st) = (case patternByID pats (pg_PatternID p) of
            None \<Rightarrow> [] | Some cp \<Rightarrow> [negativeMatch (cp_pattern cp) p], members_view (put_member a ?ms1 st2))"
          unfolding fire_view_def v option.case unversioned_sel p if_not_P [OF False]
          using R(2) u pr by simp
        ultimately show ?thesis using R(1) by simp
      qed
    qed
  qed
  then show "store_inv st1" "fire_view pats entry (members_view st) = (rs, members_view st1)" by auto
qed

lemma drain_view:
  assumes "store_inv (c_store c)" "heap_inv (c_negDeadlines c)"
    and "drainNegativeMatches wm c = (rs, c')" "length (c_negDeadlines c) \<le> fuel"
  shows "\<exists>es h. drain_due (\<lambda>h. h = []) (\<lambda>h. h ! 0) heap_Pop nd_Deadline fuel wm (c_negDeadlines c) = (es, h) \<and>
    c' = c\<lparr>c_store := c_store c', c_negDeadlines := h\<rparr> \<and> store_inv (c_store c') \<and>
    fire_all (c_patterns c) es (members_view (c_store c)) = (rs, members_view (c_store c'))"
  using assms
proof (induction fuel arbitrary: c rs)
  case 0
  then have "(rs, c') = ([], c)" by (simp add: drainNegativeMatches.simps)
  then show ?case using 0 by simp
next
  case (Suc fuel)
  let ?h = "c_negDeadlines c"
  show ?case
  proof (cases "?h = [] \<or> \<not> nd_Deadline (?h ! 0) < wm")
    case True
    then have "(rs, c') = ([], c)" using Suc.prems(3) by (subst (asm) drainNegativeMatches.simps) simp
    then show ?thesis using True Suc.prems(1) by auto
  next
    case False
    then have ne: "?h \<noteq> []" by simp
    obtain x h where p: "heap_Pop ?h = (x, h)" by fastforce
    obtain r1 st where f: "fireEntry (c_patterns c) (?h ! 0) (c_store c) = (r1, st)" by fastforce
    let ?c = "c\<lparr>c_negDeadlines := h, c_store := st\<rparr>"
    obtain r2 c2 where d: "drainNegativeMatches wm ?c = (r2, c2)" by fastforce
    have res: "rs = r1 @ r2" "c' = c2"
      using Suc.prems(3) False p f d by (subst (asm) drainNegativeMatches.simps; simp)+
    note F = fireEntry_view [OF Suc.prems(1) f]
    note P = heap_Pop_ok [OF Suc.prems(2) ne]
    have x: "x = ?h ! 0" "heap_inv h" using P p by simp_all
    have "length h \<le> fuel" using length_heap_Pop [of ?h] p ne Suc.prems(4) by (cases ?h) simp_all
    then obtain es h2 where IH: "drain_due (\<lambda>h. h = []) (\<lambda>h. h ! 0) heap_Pop nd_Deadline fuel wm h = (es, h2)"
        "c2 = c\<lparr>c_store := c_store c2, c_negDeadlines := h2\<rparr>" "store_inv (c_store c2)"
        "fire_all (c_patterns c) es (members_view st) = (r2, members_view (c_store c2))"
      using Suc.IH [of ?c r2] d F(1) x res(2) by auto
    then show ?thesis
      using False p x F(2) res by (auto simp: Let_def)
  qed
qed

section \<open>What a drain fires\<close>

definition progress_at :: "(string \<rightharpoonup> member_state) \<Rightarrow> string \<times> string \<Rightarrow> progress option" where
  "progress_at V mi = Option.bind (V (fst mi)) (\<lambda>ms. ms_Progresses ms (snd mi))"

definition parked_until :: "(string \<rightharpoonup> member_state) \<Rightarrow> string \<times> string \<Rightarrow> time option" where
  "parked_until V mi = (case progress_at V mi of
     None \<Rightarrow> None
   | Some p \<Rightarrow> if pg_NegativeDeadline p = zero_time then None else Some (pg_NegativeDeadline p))"

definition drop_progresses :: "(string \<times> string) set \<Rightarrow> (string \<rightharpoonup> member_state) \<Rightarrow> (string \<rightharpoonup> member_state)" where
  "drop_progresses S V = (\<lambda>m. map_option (\<lambda>ms. ms\<lparr>ms_Progresses :=
     (\<lambda>i. if (m, i) \<in> S then None else ms_Progresses ms i)\<rparr>) (V m))"

definition fired_match :: "compiled_pattern list \<Rightarrow> (string \<rightharpoonup> member_state) \<Rightarrow> string \<times> string \<Rightarrow> match_result list" where
  "fired_match pats V mi = (case progress_at V mi of
     None \<Rightarrow> []
   | Some p \<Rightarrow> (case patternByID pats (pg_PatternID p) of
       None \<Rightarrow> [] | Some cp \<Rightarrow> [negativeMatch (cp_pattern cp) p]))"

definition entry_at :: "negDeadlineEntry \<Rightarrow> string \<times> string" where
  "entry_at e = (nd_MemberID e, nd_ProgressID e)"

lemma progress_at_drop:
  "progress_at (drop_progresses S V) mi = (if mi \<in> S then None else progress_at V mi)"
  by (cases mi; cases "V (fst mi)") (simp_all add: progress_at_def drop_progresses_def)

lemma parked_until_drop:
  "parked_until (drop_progresses S V) mi = (if mi \<in> S then None else parked_until V mi)"
  by (simp add: parked_until_def progress_at_drop)

lemma drop_nothing [simp]: "drop_progresses {} V = V"
  by (simp add: drop_progresses_def fun_eq_iff option.map_ident)

lemma drop_drop: "drop_progresses S (drop_progresses T V) = drop_progresses (S \<union> T) V"
proof
  fix m show "drop_progresses S (drop_progresses T V) m = drop_progresses (S \<union> T) V m"
    by (cases "V m") (auto simp: drop_progresses_def fun_eq_iff)
qed

lemma fire_view_cases:
  "fire_view pats e V = (if parked_until V (entry_at e) = Some (nd_Deadline e)
     then (fired_match pats V (entry_at e), drop_progresses {entry_at e} V) else ([], V))"
proof (cases "progress_at V (entry_at e)")
  case None
  then show ?thesis
    by (auto simp: fire_view_def progress_at_def entry_at_def parked_until_def split: option.splits)
next
  case (Some p)
  then obtain ms where ms: "V (nd_MemberID e) = Some ms" "ms_Progresses ms (nd_ProgressID e) = Some p"
    by (cases "V (nd_MemberID e)") (auto simp: progress_at_def entry_at_def)
  have d: "drop_progresses {entry_at e} V = V(nd_MemberID e \<mapsto>
      ms\<lparr>ms_Progresses := (ms_Progresses ms)(nd_ProgressID e := None)\<rparr>)"
  proof
    fix m show "drop_progresses {entry_at e} V m = (V(nd_MemberID e \<mapsto>
        ms\<lparr>ms_Progresses := (ms_Progresses ms)(nd_ProgressID e := None)\<rparr>)) m"
      by (cases "V m") (auto simp: drop_progresses_def entry_at_def ms fun_eq_iff intro!: arg_cong [where f = "\<lambda>x. ms_Progresses_update x _"])
  qed
  have f: "fired_match pats V (entry_at e) = (case patternByID pats (pg_PatternID p) of
      None \<Rightarrow> [] | Some cp \<Rightarrow> [negativeMatch (cp_pattern cp) p])"
    by (simp add: fired_match_def Some)
  show ?thesis
    unfolding d f by (auto simp: fire_view_def ms parked_until_def Some is_zero_time_def)
qed

text \<open>The pairs that fire, in the order of the entries that fire them.\<close>

lemma fire_all_spec:
  "\<exists>L. distinct L \<and> set L = {mi. \<exists>e\<in>set es. entry_at e = mi \<and> parked_until V mi = Some (nd_Deadline e)} \<and>
     fire_all pats es V = (concat (map (fired_match pats V) L), drop_progresses (set L) V) \<and>
     subseq (map (\<lambda>mi. the (parked_until V mi)) L) (map nd_Deadline es)"
proof (induction es arbitrary: V)
  case Nil
  show ?case by (intro exI [of _ "[]"]) simp
next
  case (Cons e es)
  show ?case
  proof (cases "parked_until V (entry_at e) = Some (nd_Deadline e)")
    case False
    from Cons.IH [of V] obtain L where L: "distinct L"
      "set L = {mi. \<exists>e\<in>set es. entry_at e = mi \<and> parked_until V mi = Some (nd_Deadline e)}"
      "fire_all pats es V = (concat (map (fired_match pats V) L), drop_progresses (set L) V)"
      "subseq (map (\<lambda>mi. the (parked_until V mi)) L) (map nd_Deadline es)" by blast
    then show ?thesis using False by (intro exI [of _ L]) (auto simp: fire_view_cases intro: list_emb_Cons)
  next
    case True
    let ?mi = "entry_at e" and ?V = "drop_progresses {entry_at e} V"
    from Cons.IH [of ?V] obtain L where L: "distinct L"
      "set L = {mi. \<exists>e\<in>set es. entry_at e = mi \<and> parked_until ?V mi = Some (nd_Deadline e)}"
      "fire_all pats es ?V = (concat (map (fired_match pats ?V) L), drop_progresses (set L) ?V)"
      "subseq (map (\<lambda>mi. the (parked_until ?V mi)) L) (map nd_Deadline es)" by blast
    have nin: "?mi \<notin> set L" using L(2) by (auto simp: parked_until_drop)
    have same: "fired_match pats ?V x = fired_match pats V x" "parked_until ?V x = parked_until V x"
      if "x \<in> set L" for x
      using that nin by (auto simp: fired_match_def progress_at_drop parked_until_drop)
    have maps: "map (fired_match pats ?V) L = map (fired_match pats V) L"
        "map (\<lambda>mi. the (parked_until ?V mi)) L = map (\<lambda>mi. the (parked_until V mi)) L"
      using same by simp_all
    show ?thesis
    proof (intro exI [of _ "?mi # L"] conjI)
      show "distinct (?mi # L)" using L(1) nin by simp
      show "set (?mi # L) = {mi. \<exists>x\<in>set (e # es). entry_at x = mi \<and> parked_until V mi = Some (nd_Deadline x)}"
        using True by (auto simp: L(2) parked_until_drop split: if_splits)
      show "fire_all pats (e # es) V =
          (concat (map (fired_match pats V) (?mi # L)), drop_progresses (set (?mi # L)) V)"
        using L(3) by (simp add: fire_view_cases True maps(1) drop_drop)
      show "subseq (map (\<lambda>mi. the (parked_until V mi)) (?mi # L)) (map nd_Deadline (e # es))"
        using L(4) True by (simp add: maps(2))
    qed
  qed
qed

lemma sorted_subseq: "subseq xs ys \<Longrightarrow> sorted ys \<Longrightarrow> sorted xs"
proof (induction rule: list_emb.induct)
  case (list_emb_Cons2 x y xs ys)
  then show ?case by (auto elim: list_emb_set)
qed auto

text \<open>With every parked progress covered by the heap, a drain fires exactly the overdue ones.\<close>

definition overdue :: "(string \<rightharpoonup> member_state) \<Rightarrow> time \<Rightarrow> (string \<times> string) set" where
  "overdue V wm = {mi. \<exists>d. parked_until V mi = Some d \<and> d < wm}"

definition all_covered :: "(string \<rightharpoonup> member_state) \<Rightarrow> negDeadlineHeap \<Rightarrow> bool" where
  "all_covered V h \<longleftrightarrow> (\<forall>mi d. parked_until V mi = Some d \<longrightarrow>
     \<lparr>nd_Deadline = d, nd_MemberID = fst mi, nd_ProgressID = snd mi\<rparr> \<in> set h)"

lemma fire_due:
  assumes h: "heap_inv h" and cov: "all_covered V h" and d: "due_entries wm h = (es, h1)"
  shows "\<exists>L. distinct L \<and> set L = overdue V wm \<and>
     fire_all pats es V = (concat (map (fired_match pats V) L), drop_progresses (overdue V wm) V) \<and>
     sorted (map (\<lambda>mi. the (parked_until V mi)) L)"
    and "all_covered (drop_progresses (overdue V wm) V) h1"
proof -
  note D = due_entries_ok [OF h d]
  have es: "set es = {x \<in> set h. nd_Deadline x < wm}" "set h1 = {x \<in> set h. \<not> nd_Deadline x < wm}"
    using arg_cong [OF D(2), of set_mset] arg_cong [OF D(3), of set_mset] by auto
  have fires: "{mi. \<exists>e\<in>set es. entry_at e = mi \<and> parked_until V mi = Some (nd_Deadline e)} = overdue V wm"
  proof (intro set_eqI iffI)
    fix mi assume "mi \<in> overdue V wm"
    then obtain t where t: "parked_until V mi = Some t" "t < wm" by (auto simp: overdue_def)
    let ?e = "\<lparr>nd_Deadline = t, nd_MemberID = fst mi, nd_ProgressID = snd mi\<rparr>"
    have "?e \<in> set h" using cov t(1) by (simp add: all_covered_def)
    then have "?e \<in> set es" "entry_at ?e = mi" "nd_Deadline ?e = t"
      using t(2) by (simp_all add: es entry_at_def)
    then show "mi \<in> {mi. \<exists>e\<in>set es. entry_at e = mi \<and> parked_until V mi = Some (nd_Deadline e)}"
      using t(1) by (intro CollectI bexI [of _ ?e]) simp_all
  qed (auto simp: overdue_def es)
  obtain L where L: "distinct L" "set L = overdue V wm"
      "fire_all pats es V = (concat (map (fired_match pats V) L), drop_progresses (set L) V)"
      "subseq (map (\<lambda>mi. the (parked_until V mi)) L) (map nd_Deadline es)"
    using fire_all_spec [of es V pats] unfolding fires by blast
  have "sorted (map (\<lambda>mi. the (parked_until V mi)) L)"
    using L(4) D(4) by (rule sorted_subseq)
  with L show "\<exists>L. distinct L \<and> set L = overdue V wm \<and>
     fire_all pats es V = (concat (map (fired_match pats V) L), drop_progresses (overdue V wm) V) \<and>
     sorted (map (\<lambda>mi. the (parked_until V mi)) L)" by auto
  show "all_covered (drop_progresses (overdue V wm) V) h1"
    using cov by (auto simp: all_covered_def parked_until_drop overdue_def es split: if_splits)
qed

section \<open>The shard's invariant\<close>

text \<open>\<open>hist m\<close>: the events of member \<open>m\<close> that the matcher has seen, in order.\<close>

definition core_inv :: "core \<Rightarrow> (string \<Rightarrow> cep_event list) \<Rightarrow> bool" where
  "core_inv c hist \<longleftrightarrow> store_inv (c_store c) \<and> patterns_ok (c_patterns c) \<and> heap_inv (c_negDeadlines c) \<and>
     (\<forall>m ms. members_view (c_store c) m = Some ms \<longrightarrow> ms_MemberID ms = m \<and>
        cep_ok (c_patterns c) m (hist m) (ms_Progresses ms) (c_negDeadlines c))"

definition after_event :: "behavior_event \<Rightarrow> core \<Rightarrow> core" where
  "after_event event c =
     (if isLate c (ev_OccurredAt event) then
        (if c_lateSink c \<and> \<not> c_replaying c then c\<lparr>c_lateOut := c_lateOut c @ [event]\<rparr> else c)
      else advanceWatermark (ev_OccurredAt event) c)"

lemma foldEvent_frame [simp]:
  "ms_MemberID (foldEvent w e ms) = ms_MemberID ms" "ms_version (foldEvent w e ms) = ms_version ms"
  "ms_Progresses (foldEvent w e ms) = ms_Progresses ms"
  by (simp_all add: foldEvent_def Let_def)

lemma view_or_new_ok:
  assumes "core_inv c hist" "ms = view_or_new (members_view (c_store c)) m"
  shows "ms_MemberID ms = m" "ms_version ms = 0"
    "cep_ok (c_patterns c) m (hist m) (ms_Progresses ms) (c_negDeadlines c)"
proof -
  have "ms_version u = 0" if "members_view (c_store c) m = Some u" for u
    using that by (auto simp: members_view_def unversioned_def)
  then show "ms_MemberID ms = m" "ms_version ms = 0"
    "cep_ok (c_patterns c) m (hist m) (ms_Progresses ms) (c_negDeadlines c)"
    using assms by (auto simp: core_inv_def view_or_new_def newMemberState_def cep_ok_def split: option.splits)
qed

lemma advanceWatermark_frame [simp]:
  "c_store (advanceWatermark t c) = c_store c" "c_negDeadlines (advanceWatermark t c) = c_negDeadlines c"
  "c_patterns (advanceWatermark t c) = c_patterns c" "c_ruleSet (advanceWatermark t c) = c_ruleSet c"
  "c_maxWindow (advanceWatermark t c) = c_maxWindow c" "c_replaying (advanceWatermark t c) = c_replaying c"
  "c_lateSink (advanceWatermark t c) = c_lateSink c" "c_lateOut (advanceWatermark t c) = c_lateOut c"
  "c_allowedLateness (advanceWatermark t c) = c_allowedLateness c" "c_lastSeq (advanceWatermark t c) = c_lastSeq c"
  by (simp_all add: advanceWatermark_def Let_def)

lemma advanceWatermark_store [simp]:
  "advanceWatermark t (c\<lparr>c_store := st\<rparr>) = (advanceWatermark t c)\<lparr>c_store := st\<rparr>"
  by (simp add: advanceWatermark_def Let_def)

lemma put_put [simp]: "put_member a x (put_member a y st) = put_member a x st"
  by (simp add: put_member_def)

lemma ProcessEvent_view:
  assumes inv: "core_inv c hist" and r: "ProcessEvent lo e c = (res, c')"
  shows "store_inv (c_store c')"
    and "process_view lo e c (members_view (c_store c)) = (res, members_view (c_store c'), c_negDeadlines c')"
    and "c' = (after_event e c)\<lparr>c_store := c_store c', c_negDeadlines := c_negDeadlines c'\<rparr>"
proof -
  let ?V = "members_view (c_store c)" and ?m = "ev_MemberID e" and ?t = "ev_OccurredAt e"
  have st: "store_inv (c_store c)" using inv by (simp add: core_inv_def)
  obtain a st1 where w: "memberForWrite ?m (c_store c) = (a, st1)" by fastforce
  define M where "M = view_or_new ?V ?m"
  note N = view_or_new_ok [OF inv M_def]
  define v where "v = ms_version (sm_members st1 a)"
  have id: "ms_MemberID (sm_members st1 a) = ?m"
    using cell_facts(2) memberForWrite_ok(1) [OF st w] by blast
  have "unversioned (sm_members st1 a) = M"
    using write_read(3) [OF st w, of "sm_members st1 a"] by (simp add: M_def)
  then have X: "sm_members st1 a = M\<lparr>ms_version := v\<rparr>"
    by (cases "sm_members st1 a") (auto simp: unversioned_def v_def)
  define F where "F = foldEvent (c_maxWindow c) e M"
  have FX: "foldEvent (c_maxWindow c) e (sm_members st1 a) = F\<lparr>ms_version := v\<rparr>"
    unfolding X F_def by (rule keeps_identityD(3) [OF foldEvent_keeps])
  have F0: "ms_version F = 0" "ms_MemberID F = ?m" "unversioned F = F"
    using N by (simp_all add: F_def unversioned_def)
  note W = write_read(1,2) [OF st w, of "ms\<lparr>ms_version := v\<rparr>" for ms, simplified id, folded v_def, simplified]
  have "store_inv (c_store c') \<and>
    process_view lo e c ?V = (res, members_view (c_store c'), c_negDeadlines c') \<and>
    c' = (after_event e c)\<lparr>c_store := c_store c', c_negDeadlines := c_negDeadlines c'\<rparr>"
  proof (cases "isLate c ?t")
    case True
    have "(res, c') = (no_result, if c_lateSink c \<and> \<not> c_replaying c
        then c\<lparr>c_store := put_member a (F\<lparr>ms_version := v\<rparr>) st1, c_lateOut := c_lateOut c @ [e]\<rparr>
        else c\<lparr>c_store := put_member a (F\<lparr>ms_version := v\<rparr>) st1\<rparr>)"
      using r True unfolding ProcessEvent_def Let_def w prod.case FX by auto
    then show ?thesis
      using True W [of F] F0 by (auto simp: process_view_def after_event_def F_def M_def Let_def)
  next
    case False
    let ?c2 = "advanceWatermark ?t c"
    obtain ps ms1 h where cep: "processCEP (c_patterns c) (lo_progresses lo) F (cepEvent e) (c_watermark ?c2)
        (c_negDeadlines c) = (ps, ms1, h)" by (metis prod_cases3)
    note G = processCEP_frame [OF cep]
    have ms1: "ms_version ms1 = 0" "ms_MemberID ms1 = ?m" "unversioned ms1 = ms1"
      using G F0 by (simp_all add: unversioned_def)
    let ?st = "put_member a (ms1\<lparr>ms_version := v\<rparr>) st1"
    let ?c3 = "?c2\<lparr>c_store := ?st, c_negDeadlines := h\<rparr>"
    obtain ex c4 where d: "drainNegativeMatches (c_watermark ?c2) ?c3 = (ex, c4)" by fastforce
    have cok: "cep_ok (c_patterns c) (ce_MemberID (cepEvent e)) (hist ?m) (ms_Progresses F) (c_negDeadlines c)"
      using N(3) by (simp add: F_def cepEvent_def)
    have "patterns_ok (c_patterns c)" using inv by (simp add: core_inv_def)
    note P = processCEP_ok [OF this cok cep]
    have h: "heap_inv h" using P(1) by (simp add: cep_ok_def)
    have st3: "store_inv ?st" "members_view ?st = ?V(?m \<mapsto> ms1)" using W [of ms1] ms1 by simp_all
    obtain es h1 where D: "due_entries (c_watermark ?c2) h = (es, h1)" by fastforce
    have D': "c4 = ?c3\<lparr>c_store := c_store c4, c_negDeadlines := h1\<rparr>" "store_inv (c_store c4)"
      "fire_all (c_patterns c) es (?V(?m \<mapsto> ms1)) = (ex, members_view (c_store c4))"
      using drain_view [of ?c3 "c_watermark ?c2" ex c4 "length h"] st3 h d D by (auto simp: due_entries_def)
    have res: "res = \<lparr>pr_MatchedRules = evaluateRules (lo_buckets lo) F (buildEvalFields e) ?t (c_ruleSet c),
        pr_MatchedPatterns = ps @ ex\<rparr>" "c' = c4"
      using r False unfolding ProcessEvent_def Let_def w prod.case FX
      by (simp_all add: processCEP_version cep Watermark_def d)
    have n: "c_negDeadlines c4 = h1" by (subst D'(1)) simp
    have "c4 = ?c2\<lparr>c_store := c_store c4, c_negDeadlines := c_negDeadlines c4\<rparr>"
      unfolding n using D'(1) by simp
    then show ?thesis
      using False D D'(2,3) res n
      by (simp add: process_view_def Let_def F_def [symmetric] M_def [symmetric] cep after_event_def)
  qed
  then show "store_inv (c_store c')"
    and "process_view lo e c ?V = (res, members_view (c_store c'), c_negDeadlines c')"
    and "c' = (after_event e c)\<lparr>c_store := c_store c', c_negDeadlines := c_negDeadlines c'\<rparr>" by blast+
qed

definition next_hist :: "behavior_event \<Rightarrow> core \<Rightarrow> (string \<Rightarrow> cep_event list) \<Rightarrow> string \<Rightarrow> cep_event list" where
  "next_hist e c hist = (if isLate c (ev_OccurredAt e) then hist
     else hist(ev_MemberID e := hist (ev_MemberID e) @ [cepEvent e]))"

definition members_ok :: "compiled_pattern list \<Rightarrow> (string \<Rightarrow> cep_event list) \<Rightarrow> (string \<rightharpoonup> member_state) \<Rightarrow> negDeadlineHeap \<Rightarrow> bool" where
  "members_ok pats hist V h \<longleftrightarrow> (\<forall>m ms. V m = Some ms \<longrightarrow>
     ms_MemberID ms = m \<and> cep_ok pats m (hist m) (ms_Progresses ms) h)"

lemma members_ok_covered:
  assumes "members_ok pats hist V h"
  shows "all_covered V h"
  unfolding all_covered_def
proof (intro allI impI)
  fix mi d assume p: "parked_until V mi = Some d"
  obtain m i where mi: "mi = (m, i)" by fastforce
  from p obtain q where q: "progress_at V mi = Some q" "pg_NegativeDeadline q = d" "d \<noteq> zero_time"
    by (auto simp: parked_until_def split: option.splits if_splits)
  then obtain ms where ms: "V m = Some ms" "ms_Progresses ms i = Some q"
    by (cases "V m") (auto simp: progress_at_def mi)
  then have "live_ok pats m (hist m) h i q" using assms by (auto simp: members_ok_def cep_ok_def)
  then show "\<lparr>nd_Deadline = d, nd_MemberID = fst mi, nd_ProgressID = snd mi\<rparr> \<in> set h"
    using q unfolding live_ok_def covered_def progress_ok_def mi by auto
qed

lemma members_ok_drop:
  assumes ok: "members_ok pats hist V h" and cov: "all_covered (drop_progresses S V) h1" and h1: "heap_inv h1"
  shows "members_ok pats hist (drop_progresses S V) h1"
  unfolding members_ok_def
proof (intro allI impI)
  fix m ms assume "drop_progresses S V m = Some ms"
  then obtain u where u: "V m = Some u"
      "ms = u\<lparr>ms_Progresses := \<lambda>i. if (m, i) \<in> S then None else ms_Progresses u i\<rparr>"
    by (auto simp: drop_progresses_def)
  have old: "ms_MemberID u = m" "cep_ok pats m (hist m) (ms_Progresses u) h"
    using ok u(1) by (auto simp: members_ok_def)
  have "live_ok pats m (hist m) h1 i p" if p: "ms_Progresses ms i = Some p" for i p
  proof -
    have pu: "ms_Progresses u i = Some p" "(m, i) \<notin> S" using p u(2) by (auto split: if_splits)
    then have live: "live_ok pats m (hist m) h i p" using old(2) by (simp add: cep_ok_def)
    have at: "progress_at (drop_progresses S V) (m, i) = Some p"
      using pu u(1) by (simp add: progress_at_drop) (simp add: progress_at_def)
    have "covered h1 p"
      unfolding covered_def
    proof
      assume "pg_NegativeDeadline p \<noteq> zero_time"
      then have "parked_until (drop_progresses S V) (m, i) = Some (pg_NegativeDeadline p)"
        by (simp add: parked_until_def at)
      then have "\<lparr>nd_Deadline = pg_NegativeDeadline p, nd_MemberID = m, nd_ProgressID = i\<rparr> \<in> set h1"
        using cov unfolding all_covered_def by fastforce
      then show "\<lparr>nd_Deadline = pg_NegativeDeadline p, nd_MemberID = pg_MemberID p, nd_ProgressID = pg_ID p\<rparr> \<in> set h1"
        using live by (simp add: live_ok_def progress_ok_def)
    qed
    then show ?thesis using live by (simp add: live_ok_def)
  qed
  then show "ms_MemberID ms = m \<and> cep_ok pats m (hist m) (ms_Progresses ms) h1"
    using h1 old(1) u(2) by (simp add: cep_ok_def)
qed

lemma core_inv_eq:
  "core_inv c hist \<longleftrightarrow> store_inv (c_store c) \<and> patterns_ok (c_patterns c) \<and> heap_inv (c_negDeadlines c) \<and>
     members_ok (c_patterns c) hist (members_view (c_store c)) (c_negDeadlines c)"
  by (simp add: core_inv_def members_ok_def)

text \<open>The members after the matcher, before the drain.\<close>

lemma matcher_step:
  assumes inv: "core_inv c hist"
    and F: "F = foldEvent (c_maxWindow c) e (view_or_new (members_view (c_store c)) (ev_MemberID e))"
    and cep: "processCEP (c_patterns c) it F (cepEvent e) wm (c_negDeadlines c) = (ps, ms1, h)"
    and t: "\<not> isLate c (ev_OccurredAt e)"
  shows "members_ok (c_patterns c) (next_hist e c hist) ((members_view (c_store c))(ev_MemberID e \<mapsto> ms1)) h"
    "heap_inv h" "list_all (genuine (c_patterns c) (next_hist e c hist (ev_MemberID e)) (cepEvent e)) ps"
proof -
  let ?V = "members_view (c_store c)" and ?m = "ev_MemberID e"
  note N = view_or_new_ok [OF inv refl, of ?m]
  have cm: "ce_MemberID (cepEvent e) = ?m" by (simp add: cepEvent_def)
  have cok: "cep_ok (c_patterns c) (ce_MemberID (cepEvent e)) (hist ?m) (ms_Progresses F) (c_negDeadlines c)"
    using N(3) by (simp add: F cm)
  have pats: "patterns_ok (c_patterns c)" using inv by (simp add: core_inv_def)
  note P = processCEP_ok [OF pats cok cep, unfolded cm]
  note G = processCEP_frame [OF cep]
  show h: "heap_inv h" using P(1) by (simp add: cep_ok_def)
  show "list_all (genuine (c_patterns c) (next_hist e c hist ?m) (cepEvent e)) ps"
    using P(3) t by (simp add: next_hist_def)
  show "members_ok (c_patterns c) (next_hist e c hist) (?V(?m \<mapsto> ms1)) h"
    unfolding members_ok_def
  proof (intro allI impI)
    fix m ms assume ms: "(?V(?m \<mapsto> ms1)) m = Some ms"
    show "ms_MemberID ms = m \<and> cep_ok (c_patterns c) m (next_hist e c hist m) (ms_Progresses ms) h"
    proof (cases "m = ?m")
      case True
      then show ?thesis using ms P(1) G(1) N(1) t by (simp add: next_hist_def F)
    next
      case False
      then have "ms_MemberID ms = m \<and> cep_ok (c_patterns c) m (hist m) (ms_Progresses ms) (c_negDeadlines c)"
        using ms inv by (simp add: core_inv_def)
      then show ?thesis using P(2) h False by (auto simp: cep_ok_def next_hist_def intro: live_ok_mono)
    qed
  qed
qed

text \<open>One event on time: what the matcher reports, what the drain fires and what is left.\<close>

lemma on_time_step:
  assumes inv: "core_inv c hist" and r: "ProcessEvent lo e c = (res, c')" and t: "\<not> isLate c (ev_OccurredAt e)"
  obtains ps ms1 W h where
    "W = (members_view (c_store c))(ev_MemberID e \<mapsto> ms1)"
    "processCEP (c_patterns c) (lo_progresses lo)
       (foldEvent (c_maxWindow c) e (view_or_new (members_view (c_store c)) (ev_MemberID e)))
       (cepEvent e) (c_watermark c') (c_negDeadlines c) = (ps, ms1, h)"
    "members_ok (c_patterns c) (next_hist e c hist) W h" "heap_inv h"
    "list_all (genuine (c_patterns c) (next_hist e c hist (ev_MemberID e)) (cepEvent e)) ps"
    "\<exists>L. distinct L \<and> set L = overdue W (c_watermark c') \<and>
       pr_MatchedPatterns res = ps @ concat (map (fired_match (c_patterns c) W) L) \<and>
       sorted (map (\<lambda>mi. the (parked_until W mi)) L)"
    "members_view (c_store c') = drop_progresses (overdue W (c_watermark c')) W"
    "all_covered (members_view (c_store c')) (c_negDeadlines c')" "heap_inv (c_negDeadlines c')"
    "pr_MatchedRules res = evaluateRules (lo_buckets lo)
       (foldEvent (c_maxWindow c) e (view_or_new (members_view (c_store c)) (ev_MemberID e)))
       (buildEvalFields e) (ev_OccurredAt e) (c_ruleSet c)"
proof -
  let ?V = "members_view (c_store c)" and ?m = "ev_MemberID e" and ?t = "ev_OccurredAt e"
  note S = ProcessEvent_view [OF inv r]
  have wm: "c_watermark c' = c_watermark (advanceWatermark ?t c)"
    by (subst S(3)) (simp add: after_event_def t)
  define F where "F = foldEvent (c_maxWindow c) e (view_or_new ?V ?m)"
  obtain ps ms1 h where cep: "processCEP (c_patterns c) (lo_progresses lo) F (cepEvent e) (c_watermark c')
      (c_negDeadlines c) = (ps, ms1, h)" by (metis prod_cases3)
  let ?W = "?V(?m \<mapsto> ms1)"
  obtain es h1 where D: "due_entries (c_watermark c') h = (es, h1)" by fastforce
  obtain ex V1 where X: "fire_all (c_patterns c) es ?W = (ex, V1)" by fastforce
  have res: "res = \<lparr>pr_MatchedRules = evaluateRules (lo_buckets lo) F (buildEvalFields e) ?t (c_ruleSet c),
      pr_MatchedPatterns = ps @ ex\<rparr>" "members_view (c_store c') = V1" "c_negDeadlines c' = h1"
    using S(2) t unfolding process_view_def Let_def wm [symmetric]
    by (simp_all add: F_def [symmetric] cep D X)
  note Y = matcher_step [OF inv F_def cep t]
  note FD = fire_due [OF Y(2) members_ok_covered [OF Y(1)] D]
  from FD(1) [of "c_patterns c"] obtain L where L: "distinct L" "set L = overdue ?W (c_watermark c')"
      "ex = concat (map (fired_match (c_patterns c) ?W) L)" "V1 = drop_progresses (overdue ?W (c_watermark c')) ?W"
      "sorted (map (\<lambda>mi. the (parked_until ?W mi)) L)" using X by auto
  show thesis
  proof (rule that [OF refl cep [unfolded F_def] Y])
    show "\<exists>L. distinct L \<and> set L = overdue ?W (c_watermark c') \<and>
       pr_MatchedPatterns res = ps @ concat (map (fired_match (c_patterns c) ?W) L) \<and>
       sorted (map (\<lambda>mi. the (parked_until ?W mi)) L)"
      using L res(1) by auto
    show "members_view (c_store c') = drop_progresses (overdue ?W (c_watermark c')) ?W" using res(2) L(4) by simp
    show "all_covered (members_view (c_store c')) (c_negDeadlines c')" using FD(2) res L(4) by simp
    show "heap_inv (c_negDeadlines c')" using due_entries_ok(1) [OF Y(2) D] res(3) by simp
    show "pr_MatchedRules res = evaluateRules (lo_buckets lo)
       (foldEvent (c_maxWindow c) e (view_or_new ?V ?m)) (buildEvalFields e) ?t (c_ruleSet c)"
      using res(1) by (simp add: F_def)
  qed
qed

lemma late_step:
  assumes inv: "core_inv c hist" and r: "ProcessEvent lo e c = (res, c')" and t: "isLate c (ev_OccurredAt e)"
  shows "res = no_result" "c_negDeadlines c' = c_negDeadlines c" "c_watermark c' = c_watermark c"
    "members_view (c_store c') = (members_view (c_store c))(ev_MemberID e \<mapsto>
       foldEvent (c_maxWindow c) e (view_or_new (members_view (c_store c)) (ev_MemberID e)))"
    "c_lateOut c' = (if c_lateSink c \<and> \<not> c_replaying c then c_lateOut c @ [e] else c_lateOut c)"
proof -
  note S = ProcessEvent_view [OF inv r]
  show "res = no_result" "c_negDeadlines c' = c_negDeadlines c"
    "members_view (c_store c') = (members_view (c_store c))(ev_MemberID e \<mapsto>
       foldEvent (c_maxWindow c) e (view_or_new (members_view (c_store c)) (ev_MemberID e)))"
    using S(2) t by (auto simp: process_view_def Let_def)
  show "c_watermark c' = c_watermark c"
    "c_lateOut c' = (if c_lateSink c \<and> \<not> c_replaying c then c_lateOut c @ [e] else c_lateOut c)"
    by (subst S(3), simp add: after_event_def t)+
qed

lemma ProcessEvent_patterns:
  assumes "core_inv c hist" "ProcessEvent lo e c = (res, c')"
  shows "c_patterns c' = c_patterns c"
  by (subst ProcessEvent_view(3) [OF assms]) (simp add: after_event_def)

lemma core_inv_step:
  assumes inv: "core_inv c hist" and r: "ProcessEvent lo e c = (res, c')"
  shows "core_inv c' (next_hist e c hist)"
proof -
  have pats: "c_patterns c' = c_patterns c" by (rule ProcessEvent_patterns [OF inv r])
  have st: "store_inv (c_store c')" "patterns_ok (c_patterns c)"
    using ProcessEvent_view(1) [OF inv r] inv by (simp_all add: core_inv_def)
  show ?thesis
  proof (cases "isLate c (ev_OccurredAt e)")
    case True
    note L = late_step [OF inv r True]
    have "ms_MemberID ms = m \<and> cep_ok (c_patterns c) m (hist m) (ms_Progresses ms) (c_negDeadlines c)"
      if "members_view (c_store c') m = Some ms" for m ms
    proof (cases "m = ev_MemberID e")
      case same: True
      then have "ms = foldEvent (c_maxWindow c) e (view_or_new (members_view (c_store c)) m)"
        using that unfolding L(4) by simp
      then show ?thesis using view_or_new_ok [OF inv refl, of m] by simp
    next
      case False
      then have "members_view (c_store c) m = Some ms" using that unfolding L(4) by simp
      then show ?thesis using inv unfolding core_inv_def by blast
    qed
    then show ?thesis
      using st pats L(2) inv True unfolding core_inv_def next_hist_def by simp
  next
    case False
    obtain W h where W: "members_ok (c_patterns c) (next_hist e c hist) W h"
      "members_view (c_store c') = drop_progresses (overdue W (c_watermark c')) W"
      "all_covered (members_view (c_store c')) (c_negDeadlines c')" "heap_inv (c_negDeadlines c')"
      using on_time_step [OF inv r False] by metis
    from members_ok_drop [OF W(1) W(3) [unfolded W(2)] W(4)]
    show ?thesis using st pats W(2,4) by (simp add: core_inv_eq)
  qed
qed

end
