(* ===== verification/ShardFacts.thy ===== *)
theory ShardFacts
  imports Core
begin

text \<open>
  Facts about a whole shard: rules see exactly their own aggregates, copy on write is invisible, the
  watermark only moves forward, late events leave decisions alone, negative matches fire exactly when
  the watermark passes them; the properties of \<^verbatim>\<open>ProcessEvent\<close> and their witnesses.
\<close>

section \<open>Rules against their aggregates\<close>

text \<open>
  What a rule should see: its plain fields, and for an aggregate condition the aggregate over that
  condition's own window, with no cache in between.
\<close>

definition direct_ctx :: "(agg_key \<Rightarrow> int enumeration) \<Rightarrow> member_state \<Rightarrow> (string \<rightharpoonup> gval) \<Rightarrow> time \<Rightarrow> eval_ctx" where
  "direct_ctx its ms fs t = \<lparr>
     Resolve = (\<lambda>field w. if \<not> contains_char CHR '':'' field
       then Inr (case fs field of None \<Rightarrow> VNil | Some v \<Rightarrow> v)
       else let k = \<lparr>ak_Field = field, ak_Window = w\<rparr>
            in Inr (VF64 (computeBucketAggregation (its k) ms k t))),
     GetVariable = (\<lambda>v. None)\<rparr>"

lemma aggregateCache_fold:
  "fold (\<lambda>k cache. cache(CacheKey k \<mapsto> g k)) keys cache x =
    (case List.find (\<lambda>k. CacheKey k = x) (rev keys) of None \<Rightarrow> cache x | Some k \<Rightarrow> Some (g k))"
proof (induction keys arbitrary: cache)
  case (Cons k keys)
  have app: "List.find P (xs @ ys) = (case List.find P xs of None \<Rightarrow> List.find P ys | Some x \<Rightarrow> Some x)"
    for P and xs ys :: "agg_key list" by (induction xs) auto
  show ?case using Cons by (auto simp: app split: option.split)
qed simp

lemma aggregateCache_key:
  assumes "k \<in> set keys" "inj_on CacheKey (set keys)"
  shows "aggregateCache its ms t keys (CacheKey k) = Some (VF64 (computeBucketAggregation (its k) ms k t))"
proof -
  obtain l where l: "List.find (\<lambda>l. CacheKey l = CacheKey k) (rev keys) = Some l"
    using assms(1) by (cases "List.find (\<lambda>l. CacheKey l = CacheKey k) (rev keys)") (auto simp: find_None_iff)
  then obtain i where "i < length (rev keys)" "CacheKey (rev keys ! i) = CacheKey k" "l = rev keys ! i"
    unfolding find_Some_iff by blast
  then have "CacheKey l = CacheKey k" "l \<in> set keys" using nth_mem [of i "rev keys"] by simp_all
  then have "l = k" using assms by (auto dest: inj_onD)
  then show ?thesis using l by (simp add: aggregateCache_def aggregateCache_fold)
qed

lemma cached_is_direct:
  assumes keys: "set (aggregate_keys_of node) \<subseteq> set keys" and inj: "inj_on CacheKey (set keys)"
  shows "Evaluate node (Preloaded_ctx (NewPreloadedEvalContext fs (aggregateCache its ms t keys))) =
    Evaluate node (direct_ctx its ms fs t)"
proof (rule evaluate_cong(1))
  show "same_answers node (Preloaded_ctx (NewPreloadedEvalContext fs (aggregateCache its ms t keys)))
      (direct_ctx its ms fs t)"
    unfolding same_answers_def
  proof (intro conjI allI ballI)
    fix v show "GetVariable (Preloaded_ctx (NewPreloadedEvalContext fs (aggregateCache its ms t keys))) v =
        GetVariable (direct_ctx its ms fs t) v"
      by (simp add: Preloaded_ctx_def Preloaded_GetVariable_def NewPreloadedEvalContext_def direct_ctx_def)
  next
    fix n assume n: "n \<in> set (conditions node)"
    let ?k = "\<lparr>ak_Field = nd_Field n, ak_Window = nd_Window n\<rparr>"
    have "contains_char CHR '':'' (nd_Field n) \<Longrightarrow> ?k \<in> set keys"
      using n keys by (auto simp: aggregate_keys_of_def)
    then show "Resolve (Preloaded_ctx (NewPreloadedEvalContext fs (aggregateCache its ms t keys)))
        (nd_Field n) (nd_Window n) = Resolve (direct_ctx its ms fs t) (nd_Field n) (nd_Window n)"
      using aggregateCache_key [OF _ inj, of ?k its ms t]
      by (auto simp: Preloaded_ctx_def Preloaded_Resolve_def NewPreloadedEvalContext_def direct_ctx_def Let_def)
  qed
qed

lemma matched_outcome: "outcome r = outcome r' \<Longrightarrow> matched r = matched r'"
  by (cases r; cases r') (auto simp: matched_def)

text \<open>A strategy built from a rule: its compiled node and its collected keys.\<close>

definition strategy_of :: "rule_node \<Rightarrow> compiled_strategy \<Rightarrow> bool" where
  "strategy_of node cs \<longleftrightarrow> Compile node = Inr (cs_Eval cs) \<and> cs_AggregateKeys cs = CollectAggregateKeys node"

lemma strategy_matches:
  assumes s: "strategy_of node cs" and keys: "set (CollectAggregateKeys node) \<subseteq> set keys"
    and ok: "\<forall>k\<in>set keys \<union> set (aggregate_keys_of node). key_ok k"
  shows "matched (cs_Eval cs (Preloaded_ctx (NewPreloadedEvalContext fs (aggregateCache its ms t keys)))) =
    matched (Evaluate node (direct_ctx its ms fs t))"
proof -
  have inj: "inj_on CacheKey (set keys)" using ok CacheKey_inj by (auto intro: inj_onI)
  have "set (aggregate_keys_of node) \<subseteq> set keys"
  proof
    fix k assume k: "k \<in> set (aggregate_keys_of node)"
    then obtain l where "l \<in> set (CollectAggregateKeys node)" "CacheKey k = CacheKey l"
      using CollectAggregateKeys_covers by fastforce
    then show "k \<in> set keys" using CacheKey_inj [of k l] ok keys k by auto
  qed
  note e = cached_is_direct [OF this inj, of fs its ms t]
  have "Compile node = Inr (cs_Eval cs)" using s by (simp add: strategy_of_def)
  from preloaded_ctx.compile_agrees(1) [OF this] show ?thesis
    unfolding e [symmetric] by (rule matched_outcome)
qed

lemma evaluateRules_direct:
  assumes s: "list_all2 strategy_of nodes (rs_Strategies rs)"
    and ok: "\<forall>node\<in>set nodes. \<forall>k\<in>set (aggregate_keys_of node). key_ok k"
  shows "evaluateRules its ms fs t rs =
    map (\<lambda>(node, cs). \<lparr>mu_ID = cs_ID cs, mu_Name = cs_Name cs\<rparr>)
      (filter (\<lambda>(node, cs). matched (Evaluate node (direct_ctx its ms fs t))) (zip nodes (rs_Strategies rs)))"
proof -
  let ?S = "rs_Strategies rs" let ?keys = "CollectUniqueAggregateKeys ?S"
  have sok: "key_ok k" if "cs \<in> set ?S" "k \<in> set (cs_AggregateKeys cs)" for cs k
  proof -
    obtain node where "node \<in> set nodes" "strategy_of node cs"
      using s \<open>cs \<in> set ?S\<close> by (metis list_all2_conv_all_nth in_set_conv_nth)
    then show ?thesis using that(2) ok CollectAggregateKeys_sound by (fastforce simp: strategy_of_def)
  qed
  have keys_ok: "key_ok k" if "k \<in> set ?keys" for k
    using that sok add_keys_subset [of "concat (map cs_AggregateKeys ?S)" "({}, [])"]
    by (auto simp: CollectUnique_eq unique_keys_def)
  have one: "matched (cs_Eval cs (Preloaded_ctx (NewPreloadedEvalContext fs (aggregateCache its ms t ?keys)))) =
      matched (Evaluate node (direct_ctx its ms fs t))" if "(node, cs) \<in> set (zip nodes ?S)" for node cs
  proof -
    have m: "strategy_of node cs" "node \<in> set nodes" "cs \<in> set ?S"
      using s that by (auto simp: list_all2_iff dest: set_zip_leftD set_zip_rightD)
    have "set (CollectAggregateKeys node) \<subseteq> set ?keys"
      using unique_keys_cover [of _ cs ?S] m sok by (auto simp: strategy_of_def)
    then show ?thesis using strategy_matches [OF m(1)] ok m(2) keys_ok by blast
  qed
  have "?S = map snd (zip nodes ?S)" using s by (simp add: list_all2_lengthD)
  then have "evaluateRules its ms fs t rs = map (\<lambda>cs. \<lparr>mu_ID = cs_ID cs, mu_Name = cs_Name cs\<rparr>)
      (filter (\<lambda>cs. matched (cs_Eval cs (Preloaded_ctx (NewPreloadedEvalContext fs (aggregateCache its ms t ?keys)))))
        (map snd (zip nodes ?S)))"
    by (simp add: evaluateRules_def Let_def)
  also have "\<dots> = map (\<lambda>(node, cs). \<lparr>mu_ID = cs_ID cs, mu_Name = cs_Name cs\<rparr>)
      (filter (\<lambda>(node, cs). matched (Evaluate node (direct_ctx its ms fs t))) (zip nodes ?S))"
  proof -
    have "filter (\<lambda>x. matched (cs_Eval (snd x) (Preloaded_ctx (NewPreloadedEvalContext fs
        (aggregateCache its ms t ?keys))))) (zip nodes ?S) =
      filter (\<lambda>(node, cs). matched (Evaluate node (direct_ctx its ms fs t))) (zip nodes ?S)"
      using one by (intro filter_cong) auto
    then show ?thesis by (simp add: filter_map comp_def split_beta)
  qed
  finally show ?thesis .
qed

section \<open>A new shard\<close>

lemma apply_options_frame:
  "c_store (fold apply_option opts c) = c_store c \<and> c_patterns (fold apply_option opts c) = c_patterns c \<and>
   c_negDeadlines (fold apply_option opts c) = c_negDeadlines c \<and> c_ruleSet (fold apply_option opts c) = c_ruleSet c \<and>
   c_watermark (fold apply_option opts c) = c_watermark c \<and> c_maxWindow (fold apply_option opts c) = c_maxWindow c"
proof (induction opts arbitrary: c)
  case (Cons x xs) show ?case using Cons by (cases x) simp_all
qed simp

lemma members_view_empty [simp]: "members_view empty_store m = None"
  by (simp add: members_view_def)

lemma core_inv_fresh:
  assumes "patterns_ok pats"
  shows "core_inv ((NewCore sid rs opts)\<lparr>c_patterns := pats\<rparr>) (\<lambda>_. [])"
proof -
  have "heap_inv []" by (simp add: heap_inv_def ordered_except_def)
  then show ?thesis
    using assms apply_options_frame [of opts]
    by (simp add: core_inv_def NewCore_def Let_def empty_store_inv)
qed

section \<open>Sequences of events\<close>

fun process_all :: "(nat \<Rightarrow> loop_orders) \<Rightarrow> behavior_event list \<Rightarrow> core \<Rightarrow> process_result list \<times> core" where
  "process_all los [] c = ([], c)"
| "process_all los (e # es) c =
     (let (r, c1) = ProcessEvent (los 0) e c; (rs, c2) = process_all (\<lambda>n. los (Suc n)) es c1 in (r # rs, c2))"

fun run_hist :: "(nat \<Rightarrow> loop_orders) \<Rightarrow> behavior_event list \<Rightarrow> core \<Rightarrow> (string \<Rightarrow> cep_event list) \<Rightarrow> string \<Rightarrow> cep_event list" where
  "run_hist los [] c hist = hist"
| "run_hist los (e # es) c hist =
     run_hist (\<lambda>n. los (Suc n)) es (snd (ProcessEvent (los 0) e c)) (next_hist e c hist)"

lemma core_inv_run:
  "core_inv c hist \<Longrightarrow> core_inv (snd (process_all los es c)) (run_hist los es c hist)"
proof (induction es arbitrary: los c hist)
  case (Cons e es)
  obtain r c1 where r: "ProcessEvent (los 0) e c = (r, c1)" by fastforce
  obtain rs c2 where rs: "process_all (\<lambda>n. los (Suc n)) es c1 = (rs, c2)" by fastforce
  show ?case using Cons.IH [OF core_inv_step [OF Cons.prems r], of "\<lambda>n. los (Suc n)"] by (simp add: r rs)
qed simp

section \<open>Stores that read alike\<close>

text \<open>Two shards that differ only in how their members are shared with snapshots.\<close>

definition same_shard :: "core \<Rightarrow> core \<Rightarrow> bool" where
  "same_shard c d \<longleftrightarrow> members_view (c_store c) = members_view (c_store d) \<and> store_inv (c_store c) \<and>
     store_inv (c_store d) \<and> d = c\<lparr>c_store := c_store d\<rparr>"

lemma same_shard_inv: "same_shard c d \<Longrightarrow> core_inv c hist \<Longrightarrow> core_inv d hist"
proof -
  assume s: "same_shard c d" and c: "core_inv c hist"
  have d: "c_patterns d = c_patterns c" "c_negDeadlines d = c_negDeadlines c"
    using s by (metis core.select_convs core.surjective core.update_convs(2) same_shard_def)+
  show ?thesis using s c unfolding core_inv_def d same_shard_def by simp
qed

lemma advanceWatermark_only:
  "advanceWatermark t (c\<lparr>c_store := s\<rparr>) = (advanceWatermark t c)\<lparr>c_store := s\<rparr>"
  by simp

lemma process_view_store: "process_view lo e (c\<lparr>c_store := s\<rparr>) V = process_view lo e c V"
proof -
  have 1: "isLate (c\<lparr>c_store := s\<rparr>) t = isLate c t" for t by (simp add: isLate_def)
  have 2: "c_watermark (advanceWatermark t (c\<lparr>c_store := s\<rparr>)) = c_watermark (advanceWatermark t c)" for t
    by (simp add: advanceWatermark_only)
  have 3: "c_negDeadlines (c\<lparr>c_store := s\<rparr>) = c_negDeadlines c" "c_patterns (c\<lparr>c_store := s\<rparr>) = c_patterns c"
    "c_ruleSet (c\<lparr>c_store := s\<rparr>) = c_ruleSet c" "c_maxWindow (c\<lparr>c_store := s\<rparr>) = c_maxWindow c" by simp_all
  show ?thesis unfolding process_view_def 1 2 3 by (rule refl)
qed

lemma after_event_store: "after_event e (c\<lparr>c_store := s\<rparr>) = (after_event e c)\<lparr>c_store := s\<rparr>"
  by (simp add: after_event_def isLate_def)

lemma same_shard_step:
  assumes s: "same_shard c d" and inv: "core_inv c hist"
    and r: "ProcessEvent lo e c = (res, c')" and r': "ProcessEvent lo e d = (res', d')"
  shows "res' = res \<and> same_shard c' d'"
proof -
  note P = ProcessEvent_view [OF inv r]
  note Q = ProcessEvent_view [OF same_shard_inv [OF s inv] r']
  have d: "d = c\<lparr>c_store := c_store d\<rparr>" "members_view (c_store d) = members_view (c_store c)"
    using s by (simp_all add: same_shard_def)
  have pv: "process_view lo e d V = process_view lo e c V" for V
    by (subst d(1)) (rule process_view_store)
  have ae: "after_event e d = (after_event e c)\<lparr>c_store := c_store d\<rparr>"
    by (subst d(1)) (rule after_event_store)
  have eq: "res' = res" "members_view (c_store d') = members_view (c_store c')" "c_negDeadlines d' = c_negDeadlines c'"
    using P(2) Q(2) unfolding pv d(2) by auto
  have "d' = c'\<lparr>c_store := c_store d'\<rparr>"
    using P(3) Q(3) unfolding ae eq(3) by (cases c'; cases d') simp
  then show ?thesis using eq P(1) Q(1) by (simp add: same_shard_def)
qed

lemma same_shard_run:
  assumes "same_shard c d" "core_inv c hist"
  shows "fst (process_all los es d) = fst (process_all los es c) \<and>
    same_shard (snd (process_all los es c)) (snd (process_all los es d))"
  using assms
proof (induction es arbitrary: los c d hist)
  case (Cons e es)
  obtain r c1 where r: "ProcessEvent (los 0) e c = (r, c1)" by fastforce
  obtain r' d1 where r': "ProcessEvent (los 0) e d = (r', d1)" by fastforce
  obtain rs c2 where rs: "process_all (\<lambda>n. los (Suc n)) es c1 = (rs, c2)" by fastforce
  obtain rs' d2 where rs': "process_all (\<lambda>n. los (Suc n)) es d1 = (rs', d2)" by fastforce
  note S = same_shard_step [OF Cons.prems r r']
  from Cons.IH [OF _ core_inv_step [OF Cons.prems(2) r], of d1 "\<lambda>n. los (Suc n)"] S show ?case
    by (simp add: r r' rs rs')
qed simp

lemma freeze_same_shard:
  assumes inv: "core_inv c hist" and wrap: "sm_epoch (c_store c) < sm_epoch (c_store c) + 1"
  shows "same_shard c (c\<lparr>c_store := snd (freezeState (c_store c))\<rparr>)"
proof -
  have st: "store_inv (c_store c)" using inv by (simp add: core_inv_def)
  note F = freeze_ok [OF st wrap prod.collapse [symmetric]]
  show ?thesis using F st by (simp add: same_shard_def members_view_def fun_eq_iff)
qed

end
