(* ===== verification/RuleStore.thy ===== *)
theory RuleStore
  imports ShardFacts
begin

text \<open>
  The control plane: the rule table and its repository (\<^verbatim>\<open>service/base/rule/repository/db/rule.go\<close>),
  the strategy usecase with its cache of the compiled rule set (\<^verbatim>\<open>service/base/rule/usecase/strategy.go\<close>),
  the HTTP handlers (\<^verbatim>\<open>service/bff/apis\<close>). The database is what its calls answer: a context
  says whether the call made under it succeeds, in which order rows come back and which ID a new row gets.
  A failed call changes nothing. The column \<^verbatim>\<open>rule_node\<close> holds the node its JSON stands for.
\<close>

section \<open>Rules and rows (entity.go, request.go)\<close>

datatype node_json = NodeJson rule_node | NoNode string

definition RuleStrategyStatusActive :: int where "RuleStrategyStatusActive = 1"
definition RuleStrategyStatusInactive :: int where "RuleStrategyStatusInactive = 2"

record rule_strategy =
  rg_ID :: uint64
  rg_Name :: string
  rg_Description :: string
  rg_RuleNode :: rule_node
  rg_RuleNodeJSON :: node_json
  rg_Status :: int

record rule_row =
  rw_ID :: uint64
  rw_Name :: string
  rw_Description :: string
  rw_RuleNode :: node_json
  rw_Status :: int

record CreateRuleStrategyReq =
  cr_Name :: string
  cr_Description :: string
  cr_RuleNode :: rule_node

record UpdateRuleStrategyReq =
  ur_Name :: "string option"
  ur_Description :: "string option"
  ur_RuleNode :: "rule_node option"

datatype store_error =
    EDatabase
  | ERecordNotFound
  | EUnmarshalNode
  | EValidate rule_error
  | ECompileRule uint64 string rule_error

text \<open>The map of column updates.\<close>

datatype column_value = ColText string | ColNode node_json | ColStatus int

type_synonym updates = "string \<rightharpoonup> column_value"

record db_ctx =
  dx_ok :: bool
  dx_order :: "rule_row list \<Rightarrow> rule_row list"
  dx_newID :: uint64

section \<open>The repository (repository/db/rule.go)\<close>

definition zero_node :: rule_node where
  "zero_node = RuleNode [] [] [] [] VNil None"

definition marshalRuleNode :: "rule_strategy \<Rightarrow> rule_strategy" where
  "marshalRuleNode obj = obj\<lparr>rg_RuleNodeJSON := NodeJson (rg_RuleNode obj)\<rparr>"

definition unmarshalRuleNode :: "rule_strategy \<Rightarrow> store_error + rule_strategy" where
  "unmarshalRuleNode obj = (case rg_RuleNodeJSON obj of
     NodeJson node \<Rightarrow> Inr (obj\<lparr>rg_RuleNode := node\<rparr>)
   | NoNode s \<Rightarrow> Inl EUnmarshalNode)"

definition scan :: "rule_row \<Rightarrow> rule_strategy" where
  "scan row = \<lparr>rg_ID = rw_ID row, rg_Name = rw_Name row, rg_Description = rw_Description row, rg_RuleNode = zero_node,
     rg_RuleNodeJSON = rw_RuleNode row, rg_Status = rw_Status row\<rparr>"

definition repo_Get :: "db_ctx \<Rightarrow> uint64 \<Rightarrow> rule_row list \<Rightarrow> store_error + rule_strategy" where
  "repo_Get ctx i t =
     (if \<not> dx_ok ctx then Inl EDatabase
      else case find (\<lambda>row. rw_ID row = i) t of
        None \<Rightarrow> Inl ERecordNotFound
      | Some row \<Rightarrow> unmarshalRuleNode (scan row))"

fun unmarshal_all :: "rule_strategy list \<Rightarrow> store_error + rule_strategy list" where
  "unmarshal_all [] = Inr []"
| "unmarshal_all (obj # objs) =
     (case unmarshalRuleNode obj of
        Inl e \<Rightarrow> Inl e
      | Inr obj1 \<Rightarrow> (case unmarshal_all objs of Inl e \<Rightarrow> Inl e | Inr objs1 \<Rightarrow> Inr (obj1 # objs1)))"

definition wanted :: "int option \<Rightarrow> rule_row \<Rightarrow> bool" where
  "wanted status row \<longleftrightarrow> (case status of None \<Rightarrow> True | Some s \<Rightarrow> rw_Status row = s)"

definition repo_List :: "db_ctx \<Rightarrow> int option \<Rightarrow> rule_row list \<Rightarrow> store_error + rule_strategy list" where
  "repo_List ctx status t =
     (if \<not> dx_ok ctx then Inl EDatabase
      else unmarshal_all (map scan (dx_order ctx (filter (wanted status) t))))"

definition row_of :: "uint64 \<Rightarrow> rule_strategy \<Rightarrow> rule_row" where
  "row_of i obj = \<lparr>rw_ID = i, rw_Name = rg_Name obj, rw_Description = rg_Description obj,
     rw_RuleNode = rg_RuleNodeJSON obj, rw_Status = rg_Status obj\<rparr>"

definition repo_Create :: "db_ctx \<Rightarrow> rule_strategy \<Rightarrow> rule_row list \<Rightarrow> (store_error + rule_strategy) \<times> rule_row list" where
  "repo_Create ctx obj t =
     (let obj1 = marshalRuleNode obj in
      if \<not> dx_ok ctx then (Inl EDatabase, t)
      else (Inr (obj1\<lparr>rg_ID := dx_newID ctx\<rparr>), t @ [row_of (dx_newID ctx) obj1]))"

definition set_columns :: "updates \<Rightarrow> rule_row \<Rightarrow> rule_row" where
  "set_columns u row = row\<lparr>
     rw_Name := (case u ''name'' of Some (ColText s) \<Rightarrow> s | _ \<Rightarrow> rw_Name row),
     rw_Description := (case u ''description'' of Some (ColText s) \<Rightarrow> s | _ \<Rightarrow> rw_Description row),
     rw_RuleNode := (case u ''rule_node'' of Some (ColNode j) \<Rightarrow> j | _ \<Rightarrow> rw_RuleNode row),
     rw_Status := (case u ''status'' of Some (ColStatus s) \<Rightarrow> s | _ \<Rightarrow> rw_Status row)\<rparr>"

definition repo_Update :: "db_ctx \<Rightarrow> uint64 \<Rightarrow> updates \<Rightarrow> rule_row list \<Rightarrow> store_error option \<times> rule_row list" where
  "repo_Update ctx i u t =
     (if \<not> dx_ok ctx then (Some EDatabase, t)
      else (None, map (\<lambda>row. if rw_ID row = i then set_columns u row else row) t))"

text \<open>The interface value.\<close>

record 's rule_repo =
  rp_Get :: "db_ctx \<Rightarrow> uint64 \<Rightarrow> 's \<Rightarrow> store_error + rule_strategy"
  rp_List :: "db_ctx \<Rightarrow> int option \<Rightarrow> 's \<Rightarrow> store_error + rule_strategy list"
  rp_Create :: "db_ctx \<Rightarrow> rule_strategy \<Rightarrow> 's \<Rightarrow> (store_error + rule_strategy) \<times> 's"
  rp_Update :: "db_ctx \<Rightarrow> uint64 \<Rightarrow> updates \<Rightarrow> 's \<Rightarrow> store_error option \<times> 's"

definition RuleStrategyRepo :: "rule_row list rule_repo" where
  "RuleStrategyRepo = \<lparr>rp_Get = repo_Get, rp_List = repo_List, rp_Create = repo_Create, rp_Update = repo_Update\<rparr>"

section \<open>The usecase (strategy.go)\<close>

record 's strategy_uc =
  su_repo :: "'s rule_repo"
  su_store :: 's
  su_cached :: "compiled_rule_set option"

definition NewRuleStrategyUsecaseWith :: "'s rule_repo \<Rightarrow> 's \<Rightarrow> 's strategy_uc" where
  "NewRuleStrategyUsecaseWith repo s = \<lparr>su_repo = repo, su_store = s, su_cached = None\<rparr>"

definition invalidateCache :: "'s strategy_uc \<Rightarrow> 's strategy_uc" where
  "invalidateCache uc = uc\<lparr>su_cached := None\<rparr>"

definition strategy_Get :: "db_ctx \<Rightarrow> uint64 \<Rightarrow> 's strategy_uc \<Rightarrow> store_error + rule_strategy" where
  "strategy_Get ctx i uc = rp_Get (su_repo uc) ctx i (su_store uc)"

definition strategy_List :: "db_ctx \<Rightarrow> int option \<Rightarrow> 's strategy_uc \<Rightarrow> store_error + rule_strategy list" where
  "strategy_List ctx status uc = rp_List (su_repo uc) ctx status (su_store uc)"

definition strategy_Create :: "db_ctx \<Rightarrow> CreateRuleStrategyReq \<Rightarrow> 's strategy_uc \<Rightarrow>
    (store_error + rule_strategy) \<times> 's strategy_uc" where
  "strategy_Create ctx req uc = (case ValidateRuleNode (cr_RuleNode req) of
     Some e \<Rightarrow> (Inl (EValidate e), uc)
   | None \<Rightarrow>
       (let obj = \<lparr>rg_ID = 0, rg_Name = cr_Name req, rg_Description = cr_Description req,
              rg_RuleNode = cr_RuleNode req, rg_RuleNodeJSON = NoNode [], rg_Status = RuleStrategyStatusActive\<rparr>;
            (r, s) = rp_Create (su_repo uc) ctx obj (su_store uc);
            uc1 = uc\<lparr>su_store := s\<rparr>
        in case r of Inl e \<Rightarrow> (Inl e, uc1) | Inr obj1 \<Rightarrow> (Inr obj1, invalidateCache uc1)))"

definition request_updates :: "UpdateRuleStrategyReq \<Rightarrow> updates" where
  "request_updates req =
     (\<lambda>col. if col = ''name'' then map_option ColText (ur_Name req)
       else if col = ''description'' then map_option ColText (ur_Description req)
       else if col = ''rule_node'' then map_option (\<lambda>n. ColNode (NodeJson n)) (ur_RuleNode req)
       else None)"

definition strategy_Update :: "db_ctx \<Rightarrow> uint64 \<Rightarrow> UpdateRuleStrategyReq \<Rightarrow> 's strategy_uc \<Rightarrow>
    store_error option \<times> 's strategy_uc" where
  "strategy_Update ctx i req uc = (case Option.bind (ur_RuleNode req) ValidateRuleNode of
     Some e \<Rightarrow> (Some (EValidate e), uc)
   | None \<Rightarrow>
       (if ur_Name req = None \<and> ur_Description req = None \<and> ur_RuleNode req = None then (None, uc)
        else
          (let (r, s) = rp_Update (su_repo uc) ctx i (request_updates req) (su_store uc);
               uc1 = uc\<lparr>su_store := s\<rparr>
           in case r of Some e \<Rightarrow> (Some e, uc1) | None \<Rightarrow> (None, invalidateCache uc1))))"

definition strategy_SetStatus :: "db_ctx \<Rightarrow> uint64 \<Rightarrow> int \<Rightarrow> 's strategy_uc \<Rightarrow> store_error option \<times> 's strategy_uc" where
  "strategy_SetStatus ctx i status uc =
     (let (r, s) = rp_Update (su_repo uc) ctx i [''status'' \<mapsto> ColStatus status] (su_store uc);
          uc1 = uc\<lparr>su_store := s\<rparr>
      in case r of Some e \<Rightarrow> (Some e, uc1) | None \<Rightarrow> (None, invalidateCache uc1))"

definition ListActive :: "db_ctx \<Rightarrow> 's strategy_uc \<Rightarrow> store_error + rule_strategy list" where
  "ListActive ctx uc = rp_List (su_repo uc) ctx (Some RuleStrategyStatusActive) (su_store uc)"

fun compile_strategies :: "rule_strategy list \<Rightarrow> store_error + compiled_strategy list" where
  "compile_strategies [] = Inr []"
| "compile_strategies (rule # rules) =
     (case Compile (rg_RuleNode rule) of
        Inl e \<Rightarrow> Inl (ECompileRule (rg_ID rule) (rg_Name rule) e)
      | Inr eval \<Rightarrow>
          (case compile_strategies rules of
             Inl e \<Rightarrow> Inl e
           | Inr css \<Rightarrow> Inr (\<lparr>cs_ID = rg_ID rule, cs_Name = rg_Name rule, cs_Eval = eval,
               cs_AggregateKeys = CollectAggregateKeys (rg_RuleNode rule)\<rparr> # css)))"

definition compile_rules :: "rule_strategy list \<Rightarrow> store_error + compiled_rule_set" where
  "compile_rules rules = (case compile_strategies rules of
     Inl e \<Rightarrow> Inl e
   | Inr strategies \<Rightarrow> Inr \<lparr>rs_Strategies = strategies,
       rs_MaxWindow = MaxWindowFromKeys (CollectUniqueAggregateKeys strategies)\<rparr>)"

definition compileAndCache :: "db_ctx \<Rightarrow> 's strategy_uc \<Rightarrow> (store_error + compiled_rule_set) \<times> 's strategy_uc" where
  "compileAndCache ctx uc = (case ListActive ctx uc of
     Inl e \<Rightarrow> (Inl e, uc)
   | Inr rules \<Rightarrow>
       (case compile_rules rules of
          Inl e \<Rightarrow> (Inl e, uc)
        | Inr rs \<Rightarrow> (Inr rs, uc\<lparr>su_cached := Some rs\<rparr>)))"

definition ListActiveCompiled :: "db_ctx \<Rightarrow> 's strategy_uc \<Rightarrow> (store_error + compiled_rule_set) \<times> 's strategy_uc" where
  "ListActiveCompiled ctx uc = (case su_cached uc of
     Some rs \<Rightarrow> (Inr rs, uc)
   | None \<Rightarrow> compileAndCache ctx uc)"

section \<open>Administration (usecase/rule\_admin.go)\<close>

text \<open>The admin usecase holds the strategy usecase and passes every call on to it.\<close>

definition admin_CreateRule :: "db_ctx \<Rightarrow> CreateRuleStrategyReq \<Rightarrow> 's strategy_uc \<Rightarrow>
    (store_error + rule_strategy) \<times> 's strategy_uc" where
  [simp]: "admin_CreateRule ctx req uc = strategy_Create ctx req uc"

definition admin_GetRule :: "db_ctx \<Rightarrow> uint64 \<Rightarrow> 's strategy_uc \<Rightarrow> store_error + rule_strategy" where
  [simp]: "admin_GetRule ctx i uc = strategy_Get ctx i uc"

definition admin_ListRules :: "db_ctx \<Rightarrow> int option \<Rightarrow> 's strategy_uc \<Rightarrow> store_error + rule_strategy list" where
  [simp]: "admin_ListRules ctx status uc = strategy_List ctx status uc"

definition admin_UpdateRule :: "db_ctx \<Rightarrow> uint64 \<Rightarrow> UpdateRuleStrategyReq \<Rightarrow> 's strategy_uc \<Rightarrow>
    store_error option \<times> 's strategy_uc" where
  [simp]: "admin_UpdateRule ctx i req uc = strategy_Update ctx i req uc"

definition admin_SetRuleStatus :: "db_ctx \<Rightarrow> uint64 \<Rightarrow> int \<Rightarrow> 's strategy_uc \<Rightarrow> store_error option \<times> 's strategy_uc" where
  [simp]: "admin_SetRuleStatus ctx i status uc = strategy_SetStatus ctx i status uc"

section \<open>The handlers (controller/rule.go)\<close>

text \<open>A response: the status and what the body holds. A handler gets the outcome of binding the JSON body.\<close>

datatype response_body = BodyError | BodyRule rule_strategy | BodyRules "rule_strategy list" | BodyEmpty

type_synonym response = "int \<times> response_body"

definition StatusOK :: int where "StatusOK = 200"
definition StatusBadRequest :: int where "StatusBadRequest = 400"
definition StatusInternalServerError :: int where "StatusInternalServerError = 500"

definition digit_value :: "char \<Rightarrow> int" where
  "digit_value c = int (of_char c) - 48"

definition digits_value :: "string \<Rightarrow> int" where
  "digits_value s = fold (\<lambda>c v. 10 * v + digit_value c) s 0"

definition parseID :: "string \<Rightarrow> uint64 option" where
  "parseID s =
     (if s \<noteq> [] \<and> list_all decimal_digit s \<and> digits_value s < 2 ^ 64 then Some (word_of_int (digits_value s)) else None)"

definition atoi :: "string \<Rightarrow> int option" where
  "atoi s =
     (let (neg, ds) = (case s of [] \<Rightarrow> (False, []) | c # cs \<Rightarrow>
            if c = CHR ''-'' then (True, cs) else if c = CHR ''+'' then (False, cs) else (False, s));
          v = (if neg then - digits_value ds else digits_value ds)
      in if ds \<noteq> [] \<and> list_all decimal_digit ds \<and> - (2 ^ 63) \<le> v \<and> v < 2 ^ 63 then Some v else None)"

definition ctrl_Create :: "db_ctx \<Rightarrow> CreateRuleStrategyReq option \<Rightarrow> 's strategy_uc \<Rightarrow> response \<times> 's strategy_uc" where
  "ctrl_Create ctx bound uc = (case bound of
     None \<Rightarrow> ((StatusBadRequest, BodyError), uc)
   | Some req \<Rightarrow>
       (case admin_CreateRule ctx req uc of
          (Inl e, uc1) \<Rightarrow> ((StatusInternalServerError, BodyError), uc1)
        | (Inr rule, uc1) \<Rightarrow> ((StatusOK, BodyRule rule), uc1)))"

text \<open>The rule is never nil when there is no error.\<close>

definition ctrl_Get :: "db_ctx \<Rightarrow> string \<Rightarrow> 's strategy_uc \<Rightarrow> response" where
  "ctrl_Get ctx param uc = (case parseID param of
     None \<Rightarrow> (StatusBadRequest, BodyError)
   | Some i \<Rightarrow>
       (case admin_GetRule ctx i uc of
          Inl e \<Rightarrow> (StatusInternalServerError, BodyError)
        | Inr rule \<Rightarrow> (StatusOK, BodyRule rule)))"

definition ctrl_List :: "db_ctx \<Rightarrow> string \<Rightarrow> 's strategy_uc \<Rightarrow> response" where
  "ctrl_List ctx query uc =
     (if query \<noteq> [] \<and> atoi query = None then (StatusBadRequest, BodyError)
      else case admin_ListRules ctx (if query = [] then None else atoi query) uc of
        Inl e \<Rightarrow> (StatusInternalServerError, BodyError)
      | Inr rules \<Rightarrow> (StatusOK, BodyRules rules))"

definition ctrl_Update :: "db_ctx \<Rightarrow> string \<Rightarrow> UpdateRuleStrategyReq option \<Rightarrow> 's strategy_uc \<Rightarrow> response \<times> 's strategy_uc" where
  "ctrl_Update ctx param bound uc = (case parseID param of
     None \<Rightarrow> ((StatusBadRequest, BodyError), uc)
   | Some i \<Rightarrow>
       (case bound of
          None \<Rightarrow> ((StatusBadRequest, BodyError), uc)
        | Some req \<Rightarrow>
            (case admin_UpdateRule ctx i req uc of
               (Some e, uc1) \<Rightarrow> ((StatusInternalServerError, BodyError), uc1)
             | (None, uc1) \<Rightarrow> ((StatusOK, BodyEmpty), uc1))))"

definition ctrl_SetStatus :: "db_ctx \<Rightarrow> string \<Rightarrow> int option \<Rightarrow> 's strategy_uc \<Rightarrow> response \<times> 's strategy_uc" where
  "ctrl_SetStatus ctx param bound uc = (case parseID param of
     None \<Rightarrow> ((StatusBadRequest, BodyError), uc)
   | Some i \<Rightarrow>
       (case bound of
          None \<Rightarrow> ((StatusBadRequest, BodyError), uc)
        | Some status \<Rightarrow>
            (case admin_SetRuleStatus ctx i status uc of
               (Some e, uc1) \<Rightarrow> ((StatusInternalServerError, BodyError), uc1)
             | (None, uc1) \<Rightarrow> ((StatusOK, BodyEmpty), uc1))))"

section \<open>What a repository promises\<close>

definition fair_order :: "db_ctx \<Rightarrow> bool" where
  "fair_order ctx \<longleftrightarrow> (\<forall>xs. mset (dx_order ctx xs) = mset xs)"

definition active_rows :: "rule_row list \<Rightarrow> rule_row list" where
  "active_rows t = filter (wanted (Some RuleStrategyStatusActive)) t"

text \<open>A compiled set is current for a table when it comes from the active rows, in some order.\<close>

definition current :: "rule_row list \<Rightarrow> compiled_rule_set \<Rightarrow> bool" where
  "current t rs \<longleftrightarrow> (\<exists>ls objs. mset ls = mset (active_rows t) \<and> unmarshal_all (map scan ls) = Inr objs \<and>
     compile_rules objs = Inr rs)"

locale rule_repository =
  fixes repo :: "'s rule_repo"
    and rows :: "'s \<Rightarrow> rule_row list"
  assumes lists: "fair_order ctx \<Longrightarrow> rp_List repo ctx status s = Inr objs \<Longrightarrow>
      \<exists>ls. mset ls = mset (filter (wanted status) (rows s)) \<and> unmarshal_all (map scan ls) = Inr objs"
    and gets: "rp_Get repo ctx i s = Inr obj \<Longrightarrow>
      \<exists>row\<in>set (rows s). rw_ID row = i \<and> unmarshalRuleNode (scan row) = Inr obj"
    and creates: "rp_Create repo ctx obj s = (Inr obj1, s1) \<Longrightarrow>
      obj1 = (marshalRuleNode obj)\<lparr>rg_ID := rg_ID obj1\<rparr> \<and> rows s1 = rows s @ [row_of (rg_ID obj1) obj1]"
    and create_fails: "rp_Create repo ctx obj s = (Inl e, s1) \<Longrightarrow> rows s1 = rows s"
    and updates: "rp_Update repo ctx i u s = (None, s1) \<Longrightarrow>
      rows s1 = map (\<lambda>row. if rw_ID row = i then set_columns u row else row) (rows s)"
    and update_fails: "rp_Update repo ctx i u s = (Some e, s1) \<Longrightarrow> rows s1 = rows s"
begin

definition coherent :: "'s strategy_uc \<Rightarrow> bool" where
  "coherent uc \<longleftrightarrow> su_repo uc = repo \<and> (\<forall>rs. su_cached uc = Some rs \<longrightarrow> current (rows (su_store uc)) rs)"

lemma create_coherent:
  assumes "coherent uc" "strategy_Create ctx req uc = (r, uc1)"
  shows "coherent uc1"
  using assms create_fails [of ctx _ "su_store uc"]
  by (auto simp: strategy_Create_def coherent_def invalidateCache_def Let_def split: option.splits sum.splits prod.splits)

lemma update_coherent:
  assumes "coherent uc" "strategy_Update ctx i req uc = (r, uc1)"
  shows "coherent uc1"
  using assms update_fails [of ctx i _ "su_store uc"]
  by (auto simp: strategy_Update_def coherent_def invalidateCache_def Let_def split: option.splits if_splits prod.splits)

lemma status_coherent:
  assumes "coherent uc" "strategy_SetStatus ctx i status uc = (r, uc1)"
  shows "coherent uc1"
  using assms update_fails [of ctx i _ "su_store uc"]
  by (auto simp: strategy_SetStatus_def coherent_def invalidateCache_def Let_def split: option.splits prod.splits)

lemma load_current:
  assumes "coherent uc" "fair_order ctx" "ListActiveCompiled ctx uc = (r, uc1)"
  shows "coherent uc1 \<and> su_store uc1 = su_store uc \<and> (\<forall>rs. r = Inr rs \<longrightarrow> current (rows (su_store uc)) rs)"
proof (cases "su_cached uc")
  case (Some rs)
  then show ?thesis using assms by (auto simp: ListActiveCompiled_def coherent_def)
next
  case None
  then have c: "compileAndCache ctx uc = (r, uc1)" using assms(3) by (simp add: ListActiveCompiled_def)
  show ?thesis
  proof (cases "ListActive ctx uc")
    case (Inl e)
    then show ?thesis using c assms(1) by (auto simp: compileAndCache_def)
  next
    case (Inr objs)
    have "su_repo uc = repo" using assms(1) by (simp add: coherent_def)
    with Inr obtain ls where ls: "mset ls = mset (active_rows (rows (su_store uc)))" "unmarshal_all (map scan ls) = Inr objs"
      using lists [OF assms(2)] unfolding ListActive_def active_rows_def by metis
    then have "compile_rules objs = Inr rs \<Longrightarrow> current (rows (su_store uc)) rs" for rs
      unfolding current_def by blast
    then show ?thesis using c assms(1) Inr
      by (cases "compile_rules objs") (auto simp: compileAndCache_def coherent_def)
  qed
qed

end

interpretation rule_db: rule_repository RuleStrategyRepo "\<lambda>t. t"
proof unfold_locales
  fix ctx status s objs
  assume "fair_order ctx" "rp_List RuleStrategyRepo ctx status s = Inr objs"
  then show "\<exists>ls. mset ls = mset (filter (wanted status) s) \<and> unmarshal_all (map scan ls) = Inr objs"
    by (auto simp: RuleStrategyRepo_def repo_List_def fair_order_def split: if_splits
        intro!: exI [of _ "dx_order ctx (filter (wanted status) s)"])
next
  fix ctx i s obj
  assume "rp_Get RuleStrategyRepo ctx i s = Inr obj"
  then show "\<exists>row\<in>set s. rw_ID row = i \<and> unmarshalRuleNode (scan row) = Inr obj"
    by (auto simp: RuleStrategyRepo_def repo_Get_def find_Some_iff split: if_splits option.splits
        intro: bexI [OF _ nth_mem])
next
  fix ctx obj s obj1 s1
  assume "rp_Create RuleStrategyRepo ctx obj s = (Inr obj1, s1)"
  then show "obj1 = (marshalRuleNode obj)\<lparr>rg_ID := rg_ID obj1\<rparr> \<and> s1 = s @ [row_of (rg_ID obj1) obj1]"
    by (auto simp: RuleStrategyRepo_def repo_Create_def Let_def marshalRuleNode_def row_of_def split: if_splits)
qed (auto simp: RuleStrategyRepo_def repo_Create_def repo_Update_def Let_def split: if_splits)

section \<open>The service over its life\<close>

inductive store_reach :: "rule_row list strategy_uc \<Rightarrow> bool" where
  sr_new: "store_reach (NewRuleStrategyUsecaseWith RuleStrategyRepo t)"
| sr_create: "store_reach uc \<Longrightarrow> ctrl_Create ctx bound uc = (r, uc1) \<Longrightarrow> store_reach uc1"
| sr_update: "store_reach uc \<Longrightarrow> ctrl_Update ctx param b uc = (r, uc1) \<Longrightarrow> store_reach uc1"
| sr_status: "store_reach uc \<Longrightarrow> ctrl_SetStatus ctx param st uc = (r, uc1) \<Longrightarrow> store_reach uc1"
| sr_load: "store_reach uc \<Longrightarrow> fair_order ctx \<Longrightarrow> ListActiveCompiled ctx uc = (lr, uc1) \<Longrightarrow> store_reach uc1"

lemma store_reach_coherent: "store_reach uc \<Longrightarrow> rule_db.coherent uc"
proof (induction rule: store_reach.induct)
  case (sr_new t)
  show ?case by (simp add: rule_db.coherent_def NewRuleStrategyUsecaseWith_def)
next
  case (sr_create uc ctx bound r uc1)
  then show ?case using rule_db.create_coherent
    by (auto simp: ctrl_Create_def split: option.splits prod.splits sum.splits)
next
  case (sr_update uc ctx param b r uc1)
  then show ?case using rule_db.update_coherent
    by (auto simp: ctrl_Update_def split: option.splits prod.splits)
next
  case (sr_status uc ctx param st r uc1)
  then show ?case using rule_db.status_coherent
    by (auto simp: ctrl_SetStatus_def split: option.splits prod.splits)
next
  case (sr_load uc ctx lr uc1)
  then show ?case using rule_db.load_current by blast
qed

lemma store_reach_repo: "store_reach uc \<Longrightarrow> su_repo uc = RuleStrategyRepo"
  using store_reach_coherent by (simp add: rule_db.coherent_def)

text \<open>C25 The cache never shows an old rule set: whatever requests came before, succeeded or failed, a load
  that succeeds returns the compilation of the rules that are active in the table now, each once.\<close>

theorem loaded_rules_are_current:
  assumes "store_reach uc" "fair_order ctx" "ListActiveCompiled ctx uc = (Inr rs, uc1)"
  shows "\<exists>ls objs. mset ls = mset (filter (\<lambda>row. rw_Status row = RuleStrategyStatusActive) (su_store uc)) \<and>
    unmarshal_all (map scan ls) = Inr objs \<and> compile_rules objs = Inr rs"
  using rule_db.load_current [OF store_reach_coherent [OF assms(1)] assms(2,3)]
  by (simp add: current_def active_rows_def wanted_def)

lemma compile_strategies_fail:
  "obj \<in> set objs \<Longrightarrow> \<not> is_ok (Compile (rg_RuleNode obj)) \<Longrightarrow> \<not> is_ok (compile_strategies objs)"
  by (induction objs) (auto split: sum.splits)

lemma unmarshal_all_Inr:
  "unmarshal_all objs = Inr objs1 \<longleftrightarrow> list_all2 (\<lambda>o1 o2. unmarshalRuleNode o1 = Inr o2) objs objs1"
proof (induction objs arbitrary: objs1)
  case (Cons x xs)
  show ?case using Cons.IH by (cases objs1; cases "unmarshal_all xs") (auto split: sum.splits)
qed auto

lemma strategy_Create_Inr:
  assumes "su_repo uc = RuleStrategyRepo" "strategy_Create ctx req uc = (Inr obj, uc1)"
  shows "obj = \<lparr>rg_ID = dx_newID ctx, rg_Name = cr_Name req, rg_Description = cr_Description req,
      rg_RuleNode = cr_RuleNode req, rg_RuleNodeJSON = NodeJson (cr_RuleNode req), rg_Status = RuleStrategyStatusActive\<rparr>"
    "su_store uc1 = su_store uc @ [row_of (dx_newID ctx) obj]" "su_cached uc1 = None" "su_repo uc1 = RuleStrategyRepo"
    "ValidateRuleNode (cr_RuleNode req) = None"
  using assms by (auto simp: strategy_Create_def RuleStrategyRepo_def repo_Create_def marshalRuleNode_def invalidateCache_def
      row_of_def Let_def split: option.splits if_splits)

text \<open>What the API stores it gives back: a rule that was created under a fresh ID is read back, field for
  field and node for node, under that ID.\<close>

theorem created_rule_reads_back:
  assumes "store_reach uc" "strategy_Create ctx req uc = (Inr obj, uc1)"
    and "\<forall>row\<in>set (su_store uc). rw_ID row \<noteq> dx_newID ctx" "dx_ok ctx'"
  shows "strategy_Get ctx' (rg_ID obj) uc1 = Inr obj \<and> rg_Name obj = cr_Name req \<and>
    rg_Description obj = cr_Description req \<and> rg_RuleNode obj = cr_RuleNode req \<and> rg_Status obj = RuleStrategyStatusActive"
proof -
  note C = strategy_Create_Inr [OF store_reach_repo [OF assms(1)] assms(2)]
  have f: "find (\<lambda>row. rw_ID row = dx_newID ctx) (su_store uc1) = Some (row_of (dx_newID ctx) obj)"
  proof -
    have "find P xs = None \<Longrightarrow> find P (xs @ [x]) = (if P x then Some x else None)" for P and x :: rule_row and xs
      by (induction xs) (auto split: if_splits)
    moreover have "find (\<lambda>row. rw_ID row = dx_newID ctx) (su_store uc) = None" using assms(3) by (simp add: find_None_iff)
    ultimately show ?thesis by (simp add: C(2) row_of_def)
  qed
  show ?thesis using f assms(4)
    by (simp add: strategy_Get_def C(4) RuleStrategyRepo_def repo_Get_def) (simp add: C(1) unmarshalRuleNode_def scan_def row_of_def)
qed

text \<open>The API accepts rules that stop every engine from starting: once a rule that validates but does not
  compile is stored, no load succeeds.\<close>

theorem accepted_rule_blocks_loading:
  assumes "store_reach uc" "ctrl_Create ctx (Some req) uc = ((StatusOK, body), uc1)"
    and "\<not> is_ok (Compile (cr_RuleNode req))" "fair_order ctx'"
  shows "\<exists>e. fst (ListActiveCompiled ctx' uc1) = Inl e"
proof (cases "ListActiveCompiled ctx' uc1")
  case (Pair r uc2)
  obtain obj where obj: "strategy_Create ctx req uc = (Inr obj, uc1)"
    using assms(2) by (auto simp: ctrl_Create_def StatusOK_def StatusInternalServerError_def split: prod.splits sum.splits)
  note C = strategy_Create_Inr [OF store_reach_repo [OF assms(1)] obj]
  have row: "row_of (dx_newID ctx) obj \<in> set (active_rows (su_store uc1))"
    by (simp add: C(2) active_rows_def wanted_def) (simp add: row_of_def C(1))
  have "False" if r: "r = Inr rs" for rs
  proof -
    have "current (su_store uc1) rs"
      using rule_db.load_current [OF store_reach_coherent [OF sr_create [OF assms(1,2)]] assms(4) Pair] r by blast
    then obtain ls objs where ls: "mset ls = mset (active_rows (su_store uc1))" "unmarshal_all (map scan ls) = Inr objs"
        "compile_rules objs = Inr rs" unfolding current_def by blast
    have "row_of (dx_newID ctx) obj \<in> set ls" using row ls(1) by (metis set_mset_mset)
    then obtain k where k: "k < length ls" "ls ! k = row_of (dx_newID ctx) obj" by (metis in_set_conv_nth)
    have "k < length objs \<and> unmarshalRuleNode (scan (row_of (dx_newID ctx) obj)) = Inr (objs ! k)"
      using ls(2) k unfolding unmarshal_all_Inr list_all2_map1 list_all2_conv_all_nth by auto
    then obtain o2 where "unmarshalRuleNode (scan (row_of (dx_newID ctx) obj)) = Inr o2" "o2 \<in> set objs"
      using nth_mem by blast
    then have "\<not> is_ok (compile_strategies objs)"
      using compile_strategies_fail [of o2 objs] assms(3)
      by (auto simp: unmarshalRuleNode_def scan_def row_of_def C(1))
    then show False using ls(3) by (auto simp: compile_rules_def split: sum.splits)
  qed
  then show ?thesis using Pair by (cases r) auto
qed

text \<open>An unknown ID is never answered with 404: reading it is answered with 500, updating it with 200 and
  no effect.\<close>

theorem unknown_rule_answers:
  assumes "store_reach uc" "dx_ok ctx" "parseID param = Some i" "\<forall>row\<in>set (su_store uc). rw_ID row \<noteq> i"
  shows "ctrl_Get ctx param uc = (StatusInternalServerError, BodyError) \<and>
    (\<exists>uc1. ctrl_SetStatus ctx param (Some status) uc = ((StatusOK, BodyEmpty), uc1) \<and> su_store uc1 = su_store uc)"
proof -
  have "find (\<lambda>row. rw_ID row = i) (su_store uc) = None" using assms(4) by (simp add: find_None_iff)
  moreover have "map (\<lambda>row. if rw_ID row = i then set_columns u row else row) (su_store uc) = su_store uc" for u
    using assms(4) by (simp add: map_idI)
  ultimately show ?thesis using assms(2,3) store_reach_repo [OF assms(1)]
    by (simp add: ctrl_Get_def ctrl_SetStatus_def strategy_Get_def strategy_SetStatus_def RuleStrategyRepo_def repo_Get_def
        repo_Update_def invalidateCache_def Let_def)
qed

section \<open>A sample service\<close>

definition demo_ctx :: "uint64 \<Rightarrow> db_ctx" where
  "demo_ctx i = \<lparr>dx_ok = True, dx_order = (\<lambda>xs. xs), dx_newID = i\<rparr>"

definition demo_service :: "rule_row list strategy_uc" where
  "demo_service = NewRuleStrategyUsecaseWith RuleStrategyRepo []"

definition demo_request :: "rule_node \<Rightarrow> CreateRuleStrategyReq" where
  "demo_request node = \<lparr>cr_Name = ''burst'', cr_Description = [], cr_RuleNode = node\<rparr>"

definition demo_stored :: "rule_node \<Rightarrow> rule_strategy" where
  "demo_stored node = \<lparr>rg_ID = 7, rg_Name = ''burst'', rg_Description = [], rg_RuleNode = node,
     rg_RuleNodeJSON = NodeJson node, rg_Status = RuleStrategyStatusActive\<rparr>"

definition demo_row :: "rule_node \<Rightarrow> rule_row" where
  "demo_row node = \<lparr>rw_ID = 7, rw_Name = ''burst'', rw_Description = [], rw_RuleNode = NodeJson node,
     rw_Status = RuleStrategyStatusActive\<rparr>"

definition demo_after_create :: "rule_node \<Rightarrow> rule_row list strategy_uc" where
  "demo_after_create node = \<lparr>su_repo = RuleStrategyRepo, su_store = [demo_row node], su_cached = None\<rparr>"

text \<open>An operator that the compiler does not know; the validation never looks at operators.\<close>

definition odd_rule :: rule_node where
  "odd_rule = RuleNode ''CONDITION'' [] ''amount'' ''=>'' (VInt KInt 5) None"

lemma odd_rule: "ValidateRuleNode odd_rule = None" "\<not> is_ok (Compile odd_rule)"
  unfolding odd_rule_def compile_ok by code_simp+

lemma demo_service_reach: "store_reach demo_service"
  unfolding demo_service_def by (rule sr_new)

lemma demo_ctx_fair [simp]: "fair_order (demo_ctx i)" "dx_ok (demo_ctx i)" "dx_newID (demo_ctx i) = i"
  "dx_order (demo_ctx i) xs = xs"
  by (simp_all add: demo_ctx_def fair_order_def)

lemma demo_create:
  assumes "ValidateRuleNode node = None"
  shows "strategy_Create (demo_ctx 7) (demo_request node) demo_service = (Inr (demo_stored node), demo_after_create node)"
    "ctrl_Create (demo_ctx 7) (Some (demo_request node)) demo_service =
       ((StatusOK, BodyRule (demo_stored node)), demo_after_create node)"
proof -
  show s: "strategy_Create (demo_ctx 7) (demo_request node) demo_service = (Inr (demo_stored node), demo_after_create node)"
    using assms by (simp add: strategy_Create_def demo_request_def demo_service_def NewRuleStrategyUsecaseWith_def
        RuleStrategyRepo_def repo_Create_def marshalRuleNode_def Let_def invalidateCache_def row_of_def demo_stored_def
        demo_after_create_def demo_row_def)
  then show "ctrl_Create (demo_ctx 7) (Some (demo_request node)) demo_service =
      ((StatusOK, BodyRule (demo_stored node)), demo_after_create node)" by (simp add: ctrl_Create_def)
qed

lemma demo_active:
  "ListActive (demo_ctx 0) (demo_after_create node) = Inr [demo_stored node]"
  by (simp add: ListActive_def demo_after_create_def RuleStrategyRepo_def repo_List_def wanted_def demo_row_def scan_def
      unmarshalRuleNode_def demo_stored_def)

definition demo_set :: "rule_node \<Rightarrow> compiled_rule \<Rightarrow> compiled_rule_set" where
  "demo_set node eval = \<lparr>rs_Strategies = [\<lparr>cs_ID = 7, cs_Name = ''burst'', cs_Eval = eval,
     cs_AggregateKeys = CollectAggregateKeys node\<rparr>],
     rs_MaxWindow = MaxWindowFromKeys (CollectUniqueAggregateKeys [\<lparr>cs_ID = 7, cs_Name = ''burst'', cs_Eval = eval,
       cs_AggregateKeys = CollectAggregateKeys node\<rparr>])\<rparr>"

lemma demo_compiled:
  assumes "Compile node = Inr eval"
  shows "compile_rules [demo_stored node] = Inr (demo_set node eval)"
  by (simp add: compile_rules_def demo_stored_def demo_set_def assms)

lemma demo_load:
  obtains eval where "Compile demo_rule = Inr eval"
    "ListActiveCompiled (demo_ctx 0) (demo_after_create demo_rule) =
      (Inr (demo_set demo_rule eval), (demo_after_create demo_rule)\<lparr>su_cached := Some (demo_set demo_rule eval)\<rparr>)"
proof -
  obtain eval where eval: "Compile demo_rule = Inr eval" using demo_wf compile_ok by (metis is_ok_iff)
  have "ListActiveCompiled (demo_ctx 0) (demo_after_create demo_rule) =
      (Inr (demo_set demo_rule eval), (demo_after_create demo_rule)\<lparr>su_cached := Some (demo_set demo_rule eval)\<rparr>)"
    by (simp add: ListActiveCompiled_def demo_after_create_def)
      (simp add: compileAndCache_def demo_active [unfolded demo_after_create_def] demo_compiled [OF eval])
  then show thesis by (rule that [OF eval])
qed

lemma demo_after_reach: "store_reach (demo_after_create demo_rule)"
  by (rule sr_create [OF demo_service_reach demo_create(2) [OF demo_valid]])

theorem loaded_rules_are_current_witness:
  "\<exists>rs. fst (ListActiveCompiled (demo_ctx 0) (demo_after_create demo_rule)) = Inr rs \<and>
    (\<exists>ls objs. mset ls = mset (filter (\<lambda>row. rw_Status row = RuleStrategyStatusActive) (su_store (demo_after_create demo_rule))) \<and>
      unmarshal_all (map scan ls) = Inr objs \<and> compile_rules objs = Inr rs)"
proof -
  obtain eval where load: "ListActiveCompiled (demo_ctx 0) (demo_after_create demo_rule) =
      (Inr (demo_set demo_rule eval), (demo_after_create demo_rule)\<lparr>su_cached := Some (demo_set demo_rule eval)\<rparr>)"
    using demo_load by metis
  from loaded_rules_are_current [OF demo_after_reach demo_ctx_fair(1) load] show ?thesis using load by auto
qed

theorem created_rule_reads_back_witness:
  "strategy_Get (demo_ctx 0) 7 (demo_after_create demo_rule) = Inr (demo_stored demo_rule)"
  using created_rule_reads_back [OF demo_service_reach demo_create(1) [OF demo_valid], of "demo_ctx 0"]
  by (simp add: demo_service_def NewRuleStrategyUsecaseWith_def demo_stored_def)

theorem accepted_rule_blocks_loading_witness:
  "\<exists>e. fst (ListActiveCompiled (demo_ctx 0) (demo_after_create odd_rule)) = Inl e"
  by (rule accepted_rule_blocks_loading [OF demo_service_reach demo_create(2) [OF odd_rule(1)] _ demo_ctx_fair(1)])
    (simp add: demo_request_def odd_rule(2))

theorem unknown_rule_answers_witness:
  "ctrl_Get (demo_ctx 0) ''12'' (demo_after_create demo_rule) = (StatusInternalServerError, BodyError) \<and>
   (\<exists>uc1. ctrl_SetStatus (demo_ctx 0) ''12'' (Some 2) (demo_after_create demo_rule) = ((StatusOK, BodyEmpty), uc1) \<and>
      su_store uc1 = su_store (demo_after_create demo_rule))"
proof (rule unknown_rule_answers [OF demo_after_reach demo_ctx_fair(2)])
  show "parseID ''12'' = Some 12" by (simp add: parseID_def digits_value_def digit_value_def decimal_digit_def)
  show "\<forall>row\<in>set (su_store (demo_after_create demo_rule)). rw_ID row \<noteq> 12"
    by (simp add: demo_after_create_def demo_row_def)
qed

text \<open>The cache is only coherent for requests that do not overlap: a load that has read the table, a rule
  switched off meanwhile, and then the store into the cache leave a compiled set behind that still holds
  the rule, and that later loads return.\<close>

theorem overlapping_load_caches_old_rules:
  "\<exists>uc objs rs uc1. store_reach uc \<and> ListActive (demo_ctx 0) uc = Inr objs \<and> compile_rules objs = Inr rs \<and>
    strategy_SetStatus (demo_ctx 0) 7 RuleStrategyStatusInactive uc = (None, uc1) \<and>
    fst (ListActiveCompiled (demo_ctx 0) (uc1\<lparr>su_cached := Some rs\<rparr>)) = Inr rs \<and> \<not> current (su_store uc1) rs"
proof -
  obtain eval where eval: "Compile demo_rule = Inr eval" using demo_wf compile_ok by (metis is_ok_iff)
  let ?off = "(demo_row demo_rule)\<lparr>rw_Status := RuleStrategyStatusInactive\<rparr>"
  let ?uc1 = "\<lparr>su_repo = RuleStrategyRepo, su_store = [?off], su_cached = None\<rparr>"
  have s: "strategy_SetStatus (demo_ctx 0) 7 RuleStrategyStatusInactive (demo_after_create demo_rule) = (None, ?uc1)"
    by (simp add: strategy_SetStatus_def demo_after_create_def RuleStrategyRepo_def repo_Update_def Let_def
        invalidateCache_def set_columns_def demo_row_def)
  have "\<not> current [?off] (demo_set demo_rule eval)"
    by (auto simp: current_def active_rows_def wanted_def compile_rules_def demo_set_def
        RuleStrategyStatusActive_def RuleStrategyStatusInactive_def)
  then show ?thesis
    using demo_after_reach demo_active demo_compiled [OF eval] s
    by (intro exI [of _ "demo_after_create demo_rule"] exI [of _ "[demo_stored demo_rule]"]
        exI [of _ "demo_set demo_rule eval"] exI [of _ ?uc1]) (simp add: ListActiveCompiled_def)
qed

end
