(* ===== verification/CepFacts.thy ===== *)
theory CepFacts
  imports Cep
begin

text \<open>
  What one event does to each of a member's progresses on its own: the matcher neither reads the
  deadline heap nor lets one progress influence another, so the order of its loop does not matter. On
  this rests the meaning of a parked progress: since its last event no event forbade it.
\<close>

section \<open>The heap is only written\<close>

lemma mset_concat_map: "mset xs = mset ys \<Longrightarrow> mset (concat (map f xs)) = mset (concat (map f ys))"
  by (metis mset_concat mset_map sum_mset_sum_list)

lemma enterState_heap: "fst (enterState st m p h) = fst (enterState st m p h')"
  by (simp add: enterState_def Let_def)

lemma advanceProgress_heap:
  "(case advanceProgress pats e p h of (r, rm, p1, _) \<Rightarrow> (r, rm, p1)) =
    (case advanceProgress pats e p h' of (r, rm, p1, _) \<Rightarrow> (r, rm, p1))"
  using enterState_heap [of _ _ _ h h']
  by (auto simp: advanceProgress_def Let_def split_beta split: option.split)

lemma advanceOne_heap:
  assumes "fst acc = fst acc'" "fst (snd acc) = fst (snd acc')"
  shows "fst (advanceOne pats e i acc) = fst (advanceOne pats e i acc') \<and>
    fst (snd (advanceOne pats e i acc)) = fst (snd (advanceOne pats e i acc'))"
proof -
  obtain rs progs h h' where a: "acc = (rs, progs, h)" "acc' = (rs, progs, h')"
    using assms by (cases acc; cases acc') auto
  show ?thesis
  proof (cases "progs i")
    case (Some p)
    obtain r rm p1 h1 where A: "advanceProgress pats e p h = (r, rm, p1, h1)" by (metis prod_cases4)
    obtain r' rm' p1' h1' where B: "advanceProgress pats e p h' = (r', rm', p1', h1')" by (metis prod_cases4)
    have "(r, rm, p1) = (r', rm', p1')" using advanceProgress_heap [of pats e p h h'] by (simp add: A B)
    then show ?thesis using Some by (simp add: advanceOne_def a A B)
  qed (simp add: advanceOne_def a)
qed

lemma startOne_heap:
  assumes "fst acc = fst acc'" "fst (snd acc) = fst (snd acc')"
  shows "fst (startOne e cp acc) = fst (startOne e cp acc') \<and>
    fst (snd (startOne e cp acc)) = fst (snd (startOne e cp acc'))"
proof -
  obtain rs progs h h' where a: "acc = (rs, progs, h)" "acc' = (rs, progs, h')"
    using assms by (cases acc; cases acc') auto
  show ?thesis using enterState_heap [of _ _ _ h h'] by (auto simp: startOne_def a Let_def split_beta)
qed

lemma fold_heap:
  assumes "\<And>x acc acc'. fst acc = fst acc' \<Longrightarrow> fst (snd acc) = fst (snd acc') \<Longrightarrow>
      fst (f x acc) = fst (f x acc') \<and> fst (snd (f x acc)) = fst (snd (f x acc'))"
    and "fst acc = fst acc'" "fst (snd acc) = fst (snd acc')"
  shows "fst (fold f xs acc) = fst (fold f xs acc') \<and> fst (snd (fold f xs acc)) = fst (snd (fold f xs acc'))"
  using assms(2,3)
proof (induction xs arbitrary: acc acc')
  case (Cons x xs)
  note s = assms(1) [OF Cons.prems, of x]
  show ?case using Cons.IH [OF conjunct1 [OF s] conjunct2 [OF s]] by simp
qed simp

lemma processCEP_heap:
  assumes "processCEP pats it ms e wm h = (rs, ms1, h1)"
  shows "\<exists>h2. processCEP pats it ms e wm h' = (rs, ms1, h2)"
proof -
  let ?P = "ms_Progresses (sweepExpiredProgresses pats ms wm)"
  let ?A = "\<lambda>h. fold (advanceOne pats e) (it (dom ?P)) ([], ?P, h)"
  have A: "fst (?A h) = fst (?A h') \<and> fst (snd (?A h)) = fst (snd (?A h'))"
    by (rule fold_heap [OF advanceOne_heap]) simp_all
  have "fst (fold (startOne e) pats (?A h)) = fst (fold (startOne e) pats (?A h')) \<and>
      fst (snd (fold (startOne e) pats (?A h))) = fst (snd (fold (startOne e) pats (?A h')))"
    using A by (intro fold_heap startOne_heap) simp_all
  then show ?thesis using assms by (auto simp: processCEP_def Let_def split_beta)
qed

section \<open>One progress at a time\<close>

text \<open>What is left of a progress after the event, and what it reports.\<close>

definition after_progress :: "compiled_pattern list \<Rightarrow> cep_event \<Rightarrow> progress \<Rightarrow> progress option" where
  "after_progress pats e p = (case advanceProgress pats e p [] of (r, rm, p1, h) \<Rightarrow> if rm then None else Some p1)"

definition progress_report :: "compiled_pattern list \<Rightarrow> cep_event \<Rightarrow> progress \<Rightarrow> match_result list" where
  "progress_report pats e p = (case advanceProgress pats e p [] of (r, rm, p1, h) \<Rightarrow>
     (case r of None \<Rightarrow> [] | Some m \<Rightarrow> [m]))"

lemma advanceOne_eq:
  "\<exists>h1. advanceOne pats e i (rs, progs, h) =
    (rs @ (case progs i of None \<Rightarrow> [] | Some p \<Rightarrow> progress_report pats e p),
     progs(i := Option.bind (progs i) (after_progress pats e)), h1)"
proof (cases "progs i")
  case None
  then show ?thesis by (simp add: advanceOne_def fun_upd_idem)
next
  case (Some p)
  obtain r rm p1 h1 where A: "advanceProgress pats e p h = (r, rm, p1, h1)" by (metis prod_cases4)
  obtain r' rm' p1' h1' where B: "advanceProgress pats e p [] = (r', rm', p1', h1')" by (metis prod_cases4)
  have "(r, rm, p1) = (r', rm', p1')" using advanceProgress_heap [of pats e p h "[]"] by (simp add: A B)
  then show ?thesis
    using Some by (auto simp: advanceOne_def A B after_progress_def progress_report_def split: option.split)
qed

lemma advance_all:
  assumes "distinct xs" "fold (advanceOne pats e) xs (rs, progs, h) = (rs1, progs1, h1)"
  shows "rs1 = rs @ concat (map (\<lambda>i. case progs i of None \<Rightarrow> [] | Some p \<Rightarrow> progress_report pats e p) xs) \<and>
    progs1 = (\<lambda>i. if i \<in> set xs then Option.bind (progs i) (after_progress pats e) else progs i)"
  using assms
proof (induction xs arbitrary: rs progs h)
  case (Cons x xs)
  obtain h2 where a: "advanceOne pats e x (rs, progs, h) =
      (rs @ (case progs x of None \<Rightarrow> [] | Some p \<Rightarrow> progress_report pats e p),
       progs(x := Option.bind (progs x) (after_progress pats e)), h2)" using advanceOne_eq by blast
  have x: "x \<notin> set xs" "distinct xs" using Cons.prems(1) by simp_all
  have eq: "map (\<lambda>i. case (progs(x := u)) i of None \<Rightarrow> [] | Some p \<Rightarrow> progress_report pats e p) xs =
      map (\<lambda>i. case progs i of None \<Rightarrow> [] | Some p \<Rightarrow> progress_report pats e p) xs" for u
    using x(1) by (intro map_cong) auto
  have "fold (advanceOne pats e) xs (advanceOne pats e x (rs, progs, h)) = (rs1, progs1, h1)"
    using Cons.prems(2) by simp
  note IH = Cons.IH [OF x(2) this [unfolded a], unfolded eq]
  show ?case using IH x(1) by (auto simp: fun_eq_iff)
qed auto

lemma advance_order:
  assumes "distinct xs" "distinct ys" "set xs = set ys"
    and "fold (advanceOne pats e) xs (rs, progs, h) = (rs1, progs1, h1)"
    and "fold (advanceOne pats e) ys (rs, progs, h') = (rs2, progs2, h2)"
  shows "mset rs1 = mset rs2 \<and> progs1 = progs2"
proof -
  let ?f = "\<lambda>i. case progs i of None \<Rightarrow> [] | Some p \<Rightarrow> progress_report pats e p"
  note X = advance_all [OF assms(1,4)] and Y = advance_all [OF assms(2,5)]
  have "mset xs = mset ys" using assms(1-3) by (simp add: set_eq_iff_mset_eq_distinct [symmetric])
  then have "mset (concat (map ?f xs)) = mset (concat (map ?f ys))" by (rule mset_concat_map)
  then have "mset rs1 = mset rs2" using conjunct1 [OF X] conjunct1 [OF Y] by (simp only: mset_append)
  moreover have "progs1 = progs2" using conjunct2 [OF X] conjunct2 [OF Y] by (simp only: assms(3))
  ultimately show ?thesis by simp
qed

text \<open>The reports so far are never read.\<close>

lemma startOne_reports:
  "startOne e cp (rs, progs, h) = (case startOne e cp ([], progs, h) of (rs1, progs1, h1) \<Rightarrow> (rs @ rs1, progs1, h1))"
  by (simp add: startOne_def Let_def split: prod.split)

lemma start_reports:
  "fold (startOne e) cps (rs, progs, h) =
    (case fold (startOne e) cps ([], progs, h) of (rs1, progs1, h1) \<Rightarrow> (rs @ rs1, progs1, h1))"
proof (induction cps arbitrary: rs progs h)
  case (Cons cp cps)
  obtain rs1 progs1 h1 where s: "startOne e cp ([], progs, h) = (rs1, progs1, h1)" by (metis prod_cases3)
  then have t: "startOne e cp (rs, progs, h) = (rs @ rs1, progs1, h1)"
    using startOne_reports [of e cp rs progs h] by simp
  show ?case
    using Cons.IH [of "rs @ rs1" progs1 h1] Cons.IH [of rs1 progs1 h1]
    by (simp add: s t split: prod.split)
qed simp

lemma processCEP_order:
  assumes "enumerates it" "enumerates it'" "finite (dom (ms_Progresses ms))"
    and "processCEP pats it ms e wm h = (rs, ms1, h1)" "processCEP pats it' ms e wm h' = (rs', ms1', h1')"
  shows "mset rs = mset rs' \<and> ms1 = ms1'"
proof -
  let ?ms = "sweepExpiredProgresses pats ms wm"
  let ?P = "ms_Progresses ?ms"
  have fin: "finite (dom ?P)" using assms(3) by (auto simp: sweepExpiredProgresses_def)
  obtain r p k where A: "fold (advanceOne pats e) (it (dom ?P)) ([], ?P, h) = (r, p, k)" by (metis prod_cases3)
  obtain r' p' k' where B: "fold (advanceOne pats e) (it' (dom ?P)) ([], ?P, h') = (r', p', k')" by (metis prod_cases3)
  have o: "mset r = mset r' \<and> p = p'"
    by (rule advance_order [OF _ _ _ A B])
      (use enumeratesD [OF assms(1) fin] enumeratesD [OF assms(2) fin] in simp_all)
  obtain u q l where C: "fold (startOne e) pats ([], p, k) = (u, q, l)" by (metis prod_cases3)
  obtain u' q' l' where D: "fold (startOne e) pats ([], p, k') = (u', q', l')" by (metis prod_cases3)
  have "u = u' \<and> q = q'"
    using fold_heap [of "startOne e", OF startOne_heap, of "([], p, k)" "([], p, k')" pats] C D by simp
  moreover have "rs = r @ u" "ms1 = ?ms\<lparr>ms_Progresses := q\<rparr>" "rs' = r' @ u'" "ms1' = ?ms\<lparr>ms_Progresses := q'\<rparr>"
    using assms(4,5) A B C D o start_reports [of e pats r p k] start_reports [of e pats r' p' k']
    by (simp_all add: processCEP_def Let_def)
  ultimately show ?thesis using o by simp
qed

section \<open>What a parked progress has waited through\<close>

definition forbids :: "compiled_pattern \<Rightarrow> progress \<Rightarrow> cep_event \<Rightarrow> bool" where
  "forbids cp p x \<longleftrightarrow> ce_EventID x \<notin> set (pg_ProcessedEvents p) \<and> ce_OccurredAt x \<le> pg_NegativeDeadline p \<and>
     matched (cepMatchState x (cp_compiledStates cp ! pg_CurrentStep p) (pg_Variables p))"

definition undisturbed :: "compiled_pattern \<Rightarrow> cep_event list \<Rightarrow> progress \<Rightarrow> bool" where
  "undisturbed cp hist p \<longleftrightarrow> st_IsNegative (pt_States (cp_pattern cp) ! pg_CurrentStep p) \<longrightarrow>
     (\<exists>h1 x h2. hist = h1 @ x # h2 \<and> ce_EventID x = last (pg_ProcessedEvents p) \<and> (\<forall>y\<in>set h2. \<not> forbids cp p y))"

definition calm :: "compiled_pattern list \<Rightarrow> cep_event list \<Rightarrow> (string \<rightharpoonup> progress) \<Rightarrow> bool" where
  "calm pats hist progs \<longleftrightarrow> (\<forall>i p cp. progs i = Some p \<longrightarrow> patternByID pats (pg_PatternID p) = Some cp \<longrightarrow>
     undisturbed cp hist p)"

lemma undisturbed_now: "ce_EventID e = last (pg_ProcessedEvents p) \<Longrightarrow> undisturbed cp (hist @ [e]) p"
  unfolding undisturbed_def by (intro impI exI [of _ hist] exI [of _ e] exI [of _ "[]"]) simp

lemma undisturbed_snoc: "undisturbed cp hist p \<Longrightarrow> \<not> forbids cp p e \<Longrightarrow> undisturbed cp (hist @ [e]) p"
  unfolding undisturbed_def
proof (intro impI)
  assume u: "st_IsNegative (pt_States (cp_pattern cp) ! pg_CurrentStep p) \<longrightarrow>
     (\<exists>h1 x h2. hist = h1 @ x # h2 \<and> ce_EventID x = last (pg_ProcessedEvents p) \<and> (\<forall>y\<in>set h2. \<not> forbids cp p y))"
    and n: "\<not> forbids cp p e" and neg: "st_IsNegative (pt_States (cp_pattern cp) ! pg_CurrentStep p)"
  then obtain h1 x h2 where h: "hist = h1 @ x # h2" "ce_EventID x = last (pg_ProcessedEvents p)"
      "\<forall>y\<in>set h2. \<not> forbids cp p y" by blast
  then show "\<exists>h1 x h2. hist @ [e] = h1 @ x # h2 \<and> ce_EventID x = last (pg_ProcessedEvents p) \<and>
      (\<forall>y\<in>set h2. \<not> forbids cp p y)"
    using n by (intro exI [of _ h1] exI [of _ x] exI [of _ "h2 @ [e]"]) auto
qed

lemma undisturbed_positive: "\<not> st_IsNegative (pt_States (cp_pattern cp) ! pg_CurrentStep p) \<Longrightarrow> undisturbed cp hist p"
  by (simp add: undisturbed_def)

lemma enterState_last: "enterState st m p h = (p', h') \<Longrightarrow>
    pg_ProcessedEvents p' = pg_ProcessedEvents p \<and> pg_PatternID p' = pg_PatternID p"
  by (auto simp: enterState_def Let_def split: if_splits)

lemma after_progress_undisturbed:
  assumes cp: "patternByID pats (pg_PatternID p) = Some cp" and u: "undisturbed cp hist p"
    and a: "after_progress pats e p = Some q"
  shows "pg_PatternID q = pg_PatternID p \<and> undisturbed cp (hist @ [e]) q"
proof -
  let ?states = "pt_States (cp_pattern cp)" and ?step = "pg_CurrentStep p"
  define st where "st = ?states ! ?step"
  define p1 where "p1 = p\<lparr>pg_Variables := pg_Variables p ++ extractBindings e (st_ContextBinding st),
      pg_CurrentStep := ?step + 1, pg_ProcessedEvents := pg_ProcessedEvents p @ [ce_EventID e]\<rparr>"
  obtain r h' where r: "advanceProgress pats e p [] = (r, False, q, h')"
    using a by (auto simp: after_progress_def split: prod.splits if_splits)
  consider (stays) "q = p" "st_IsNegative st \<longrightarrow> \<not> forbids cp p e"
    | (advances) "(let (p2, h2) = enterState (?states ! (?step + 1)) (ce_MemberID e) p1 [] in (None, False, p2, h2)) =
        (r, False, q, h')"
    using r unfolding advanceProgress_def cp option.case Let_def st_def [symmetric] p1_def [symmetric]
    by (auto split: if_splits simp: forbids_def st_def)
  then show ?thesis
  proof cases
    case stays
    then show ?thesis
      using u undisturbed_snoc undisturbed_positive [of cp p] by (cases "st_IsNegative st") (auto simp: st_def)
  next
    case advances
    obtain p2 h2 where en: "enterState (?states ! (?step + 1)) (ce_MemberID e) p1 [] = (p2, h2)" by fastforce
    then have "q = p2" using advances by simp
    then show ?thesis using enterState_last [OF en] by (auto simp: p1_def intro: undisturbed_now)
  qed
qed

lemma startOne_calm:
  assumes "calm pats (hist @ [e]) progs" "startOne e cp (rs, progs, h) = (rs1, progs1, h1)"
  shows "calm pats (hist @ [e]) progs1"
proof -
  let ?i = "deterministicProgressID (pt_ID (cp_pattern cp)) (ce_MemberID e) (ce_EventID e)"
  let ?p = "newProgress ?i (cp_pattern cp) e (extractBindings e (st_ContextBinding (pt_States (cp_pattern cp) ! 0)))"
  obtain p2 h2 where en: "enterState (pt_States (cp_pattern cp) ! 1) (ce_MemberID e) ?p h = (p2, h2)" by fastforce
  have "progs1 = progs \<or> progs1 = progs(?i \<mapsto> p2)"
    using assms(2) en by (auto simp: startOne_def Let_def split: if_splits)
  moreover have "undisturbed cp' (hist @ [e]) p2" for cp'
    using enterState_last [OF en] by (intro undisturbed_now) (simp add: newProgress_def)
  ultimately show ?thesis using assms(1) unfolding calm_def by (auto split: if_splits)
qed

lemma start_calm:
  "calm pats (hist @ [e]) progs \<Longrightarrow> fold (startOne e) cps (rs, progs, h) = (rs1, progs1, h1) \<Longrightarrow>
    calm pats (hist @ [e]) progs1"
proof (induction cps arbitrary: rs progs h)
  case (Cons cp cps)
  obtain r p k where s: "startOne e cp (rs, progs, h) = (r, p, k)" by (metis prod_cases3)
  show ?case using Cons.IH [OF startOne_calm [OF Cons.prems(1) s]] Cons.prems(2) s by simp
qed simp

lemma processCEP_calm:
  assumes it: "enumerates it" and fin: "finite (dom (ms_Progresses ms))"
    and calm: "calm pats hist (ms_Progresses ms)"
    and r: "processCEP pats it ms e wm h = (rs, ms1, h1)"
  shows "calm pats (hist @ [e]) (ms_Progresses ms1)"
proof -
  let ?ms = "sweepExpiredProgresses pats ms wm"
  let ?P = "ms_Progresses ?ms"
  have P: "finite (dom ?P)" "calm pats hist ?P"
    using fin calm by (auto simp: sweepExpiredProgresses_def calm_def map_delete_if_Some)
  obtain r p k where A: "fold (advanceOne pats e) (it (dom ?P)) ([], ?P, h) = (r, p, k)" by (metis prod_cases3)
  obtain u q l where B: "fold (startOne e) pats (r, p, k) = (u, q, l)" by (metis prod_cases3)
  have p: "p = (\<lambda>i. Option.bind (?P i) (after_progress pats e))"
    using advance_all [OF enumeratesD(1) [OF it P(1)] A] enumeratesD(2) [OF it P(1)] by (auto simp: fun_eq_iff)
  have "undisturbed cp (hist @ [e]) x"
    if x: "p i = Some x" and c: "patternByID pats (pg_PatternID x) = Some cp" for i x cp
  proof -
    obtain y where y: "?P i = Some y" "after_progress pats e y = Some x"
      using x unfolding p by (auto simp: bind_eq_Some_conv)
    have "pg_PatternID x = pg_PatternID y"
    proof (cases "patternByID pats (pg_PatternID y)")
      case None
      then show ?thesis using y(2) by (simp add: after_progress_def advanceProgress_def)
    next
      case (Some cp')
      then show ?thesis using after_progress_undisturbed [OF Some _ y(2)] P(2) y(1) by (auto simp: calm_def)
    qed
    then show ?thesis using after_progress_undisturbed [OF _ _ y(2)] P(2) y(1) c by (auto simp: calm_def)
  qed
  then have "calm pats (hist @ [e]) p" by (simp add: calm_def)
  from start_calm [OF this B] have "calm pats (hist @ [e]) q" .
  moreover have "ms1 = ?ms\<lparr>ms_Progresses := q\<rparr>" using r A B by (simp add: processCEP_def Let_def)
  ultimately show ?thesis by simp
qed

end
