(* ===== verification/Snapshot.thy ===== *)
theory Snapshot
  imports ShardFacts CepFacts
begin

text \<open>
  \<^verbatim>\<open>service/engine/core/snapshot.go\<close>: freezing a shard, serializing the frozen view,
  restoring a shard from a file and rebuilding the deadline heap. The serialized form is the structure
  that \<^verbatim>\<open>encoding/gob\<close> transfers: the exported fields, with the unexported versions
  left out; the bytes of another file are \<open>GobOther\<close>. The values of interface type must have
  concrete types known to gob: its own basic types, not \<^verbatim>\<open>[]any\<close> and
  \<^verbatim>\<open>map[string]any\<close>.
\<close>

section \<open>The serialized form\<close>

record snapshot =
  sn_KeyGroups :: "int \<rightharpoonup> (string \<rightharpoonup> member_state)"
  sn_WatermarkNanos :: int
  sn_LastSeq :: uint64

record frozen_snapshot =
  fz_state :: shard_state
  fz_watermarkNanos :: int
  fz_lastSeq :: uint64

datatype gob_bytes = GobSnapshot snapshot | GobOther string

datatype snapshot_error = ESnapshotEncode | ESnapshotDecode | EKeyGroupRange int

text \<open>The orders in which loops over maps of key groups and of strings run.\<close>

record map_orders =
  mo_groups :: "int enumeration"
  mo_strings :: "string enumeration"

section \<open>Freezing and encoding\<close>

definition beginSnapshot :: "core \<Rightarrow> frozen_snapshot \<times> core" where
  "beginSnapshot c =
     (let (v, st) = freezeState (c_store c)
      in (\<lparr>fz_state = v, fz_watermarkNanos = c_watermark c, fz_lastSeq = c_lastSeq c\<rparr>, c\<lparr>c_store := st\<rparr>))"

definition endSnapshot :: "core \<Rightarrow> core" where
  "endSnapshot c = c\<lparr>c_store := unfreezeState (c_store c)\<rparr>"

text \<open>The loop over the array: the member maps of the key groups that are not nil, as values.\<close>

definition group_members :: "member_store \<Rightarrow> shard_state \<Rightarrow> int \<rightharpoonup> (string \<rightharpoonup> member_state)" where
  "group_members st v = (\<lambda>kid. if 0 \<le> kid \<and> kid < NumKeyGroups
     then map_option (\<lambda>g m. map_option (\<lambda>a. unversioned (sm_members st a)) (kg_Members (sm_groups st g) m)) (v kid)
     else None)"

fun gob_value :: "gval \<Rightarrow> bool" where
  "gob_value (VList _) = False"
| "gob_value (VMap _) = False"
| "gob_value _ = True"

definition gob_progress :: "string enumeration \<Rightarrow> progress \<Rightarrow> bool" where
  "gob_progress it p \<longleftrightarrow> list_all (\<lambda>x. gob_value (the (pg_Variables p x))) (it (dom (pg_Variables p)))"

definition gob_member :: "string enumeration \<Rightarrow> member_state \<Rightarrow> bool" where
  "gob_member it ms \<longleftrightarrow> list_all (\<lambda>i. gob_progress it (the (ms_Progresses ms i))) (it (dom (ms_Progresses ms)))"

definition gob_encode :: "map_orders \<Rightarrow> snapshot \<Rightarrow> snapshot_error + gob_bytes" where
  "gob_encode mo snap =
     (if list_all (\<lambda>kid. let M = the (sn_KeyGroups snap kid) in
          list_all (\<lambda>m. gob_member (mo_strings mo) (the (M m))) (mo_strings mo (dom M)))
        (mo_groups mo (dom (sn_KeyGroups snap)))
      then Inr (GobSnapshot snap) else Inl ESnapshotEncode)"

text \<open>\<open>encode\<close> reads the frozen view in the cells as they are when it runs.\<close>

definition encode :: "map_orders \<Rightarrow> frozen_snapshot \<Rightarrow> member_store \<Rightarrow> snapshot_error + gob_bytes" where
  "encode mo f st = gob_encode mo \<lparr>sn_KeyGroups = group_members st (fz_state f),
     sn_WatermarkNanos = fz_watermarkNanos f, sn_LastSeq = fz_lastSeq f\<rparr>"

definition Snapshot :: "map_orders \<Rightarrow> core \<Rightarrow> (snapshot_error + gob_bytes) \<times> core" where
  "Snapshot mo c = (let (f, c1) = beginSnapshot c in (encode mo f (c_store c1), endSnapshot c1))"

section \<open>Restoring\<close>

text \<open>The decoder allocates the members; their versions are zero, as is the group's.\<close>

definition restore_member :: "addr \<Rightarrow> (string \<rightharpoonup> member_state) \<Rightarrow> string \<Rightarrow> member_store \<Rightarrow> member_store" where
  "restore_member g members m st = (case members m of None \<Rightarrow> st | Some ms \<Rightarrow> snd (new_member g m ms st))"

definition restore_group :: "map_orders \<Rightarrow> int \<Rightarrow> (string \<rightharpoonup> member_state) \<Rightarrow> member_store \<Rightarrow> member_store" where
  "restore_group mo kid members st =
     (let (g, st1) = new_group kid Map.empty st
      in fold (restore_member g members) (mo_strings mo (dom members)) st1)"

fun restore_groups :: "map_orders \<Rightarrow> (int \<rightharpoonup> (string \<rightharpoonup> member_state)) \<Rightarrow> int list \<Rightarrow> member_store \<Rightarrow>
    snapshot_error + member_store" where
  "restore_groups mo groups [] st = Inr st"
| "restore_groups mo groups (kid # kids) st =
     (if kid < 0 \<or> NumKeyGroups \<le> kid then Inl (EKeyGroupRange kid)
      else restore_groups mo groups kids
        (case groups kid of None \<Rightarrow> st | Some members \<Rightarrow> restore_group mo kid members st))"

definition negEntry :: "progress \<Rightarrow> negDeadlineEntry" where
  "negEntry p = \<lparr>nd_Deadline = pg_NegativeDeadline p, nd_MemberID = pg_MemberID p, nd_ProgressID = pg_ID p\<rparr>"

definition memberEntries :: "string enumeration \<Rightarrow> member_state \<Rightarrow> negDeadlineEntry list" where
  "memberEntries it ms = map negEntry (filter (\<lambda>p. \<not> is_zero_time (pg_NegativeDeadline p))
     (map (\<lambda>i. the (ms_Progresses ms i)) (it (dom (ms_Progresses ms)))))"

definition rebuildNegativeDeadlines :: "map_orders \<Rightarrow> core \<Rightarrow> core" where
  "rebuildNegativeDeadlines mo c = c\<lparr>c_negDeadlines :=
     heap_Init (concat (map (memberEntries (mo_strings mo)) (forEachMember (mo_strings mo) (c_store c))))\<rparr>"

text \<open>A store with nothing but its old cells and a clock at zero: what the decoder allocates in.\<close>

definition cleared :: "member_store \<Rightarrow> member_store" where
  "cleared st = st\<lparr>sm_keyGroups := NewShardState, sm_epoch := 0, sm_frozenEpoch := 0\<rparr>"

definition Restore :: "map_orders \<Rightarrow> gob_bytes \<Rightarrow> core \<Rightarrow> (snapshot_error + uint64) \<times> core" where
  "Restore mo data c = (case data of
     GobOther s \<Rightarrow> (Inl ESnapshotDecode, c)
   | GobSnapshot snap \<Rightarrow>
       (case restore_groups mo (sn_KeyGroups snap) (mo_groups mo (dom (sn_KeyGroups snap))) (cleared (c_store c)) of
          Inl e \<Rightarrow> (Inl e, c)
        | Inr st \<Rightarrow>
            (Inr (sn_LastSeq snap),
             rebuildNegativeDeadlines mo
               (c\<lparr>c_store := st\<lparr>sm_epoch := sm_epoch (c_store c), sm_frozenEpoch := sm_frozenEpoch (c_store c)\<rparr>,
                  c_watermark := sn_WatermarkNanos snap, c_lastSeq := sn_LastSeq snap\<rparr>))))"

section \<open>What the restored store holds\<close>

lemma store_inv_epochs:
  assumes "store_inv st" "sm_epoch st \<le> ep" "fz \<le> ep"
  shows "store_inv (st\<lparr>sm_epoch := ep, sm_frozenEpoch := fz\<rparr>)"
proof -
  have "group_ok st kid g \<Longrightarrow> group_ok (st\<lparr>sm_epoch := ep, sm_frozenEpoch := fz\<rparr>) kid g" for kid g
    using assms(2) unfolding group_ok_def by (simp, meson order_trans)
  then show ?thesis using assms unfolding store_inv_def by simp
qed

lemma member_epochs [simp]: "member (st\<lparr>sm_epoch := ep, sm_frozenEpoch := fz\<rparr>) = member st"
  by (auto simp: fun_eq_iff member_def member_of_def split: option.split)

lemma cleared_ok: "store_inv (cleared st)" "member (cleared st) m = None" "sm_keyGroups (cleared st) kid = None"
  "sm_epoch (cleared st) = 0"
  by (simp_all add: cleared_def store_inv_def NewShardState_def member_def member_of_def)

lemma new_group_empty:
  assumes inv: "store_inv st" and k: "sm_keyGroups st kid = None" and r: "new_group kid Map.empty st = (g, st1)"
  shows "store_inv st1" "member st1 = member st" "sm_keyGroups st1 = (sm_keyGroups st)(kid \<mapsto> g)"
    "sm_epoch st1 = sm_epoch st"
proof -
  have st1: "st1 = st\<lparr>sm_groups := (sm_groups st)(g := \<lparr>kg_Members = Map.empty, kg_version = sm_epoch st\<rparr>),
      sm_next := g + 1, sm_keyGroups := (sm_keyGroups st)(kid \<mapsto> g)\<rparr>" and g: "g = sm_next st"
    using r by (auto simp: new_group_def Let_def)
  have old: "sm_keyGroups st kid' = Some g' \<Longrightarrow> group_ok st kid' g' \<and> g' < g" for kid' g'
    using inv by (auto simp: store_inv_def group_ok_def g)
  show "sm_keyGroups st1 = (sm_keyGroups st)(kid \<mapsto> g)" "sm_epoch st1 = sm_epoch st" by (simp_all add: st1)
  show "member st1 = member st"
  proof
    fix m
    show "member st1 m = member st m"
    proof (cases "KeyGroupOf m = kid")
      case True
      then show ?thesis using k by (simp add: member_def member_of_def st1)
    next
      case False
      then show ?thesis using old [of "KeyGroupOf m"] by (auto simp: member_def member_of_def st1 split: option.split)
    qed
  qed
  have "group_ok st1 kid' g'" if "sm_keyGroups st1 kid' = Some g'" for kid' g'
  proof (cases "kid' = kid")
    case True
    then show ?thesis using that by (simp add: st1 group_ok_def)
  next
    case False
    then show ?thesis using that old [of kid' g'] g by (auto simp: st1 group_ok_def intro: less_SucI)
  qed
  moreover have "kid1 = kid2" if "sm_keyGroups st1 kid1 = Some g'" "sm_keyGroups st1 kid2 = Some g'" for kid1 kid2 g'
  proof (cases "kid1 = kid \<or> kid2 = kid")
    case True
    then show ?thesis using that old [of kid1 g'] old [of kid2 g'] by (auto simp: st1 split: if_splits)
  next
    case False
    then have "sm_keyGroups st kid1 = Some g'" "sm_keyGroups st kid2 = Some g'" using that by (simp_all add: st1)
    then show ?thesis using inv unfolding store_inv_def by blast
  qed
  moreover have "sm_frozenEpoch st1 \<le> sm_epoch st1" using inv by (simp add: store_inv_def st1)
  ultimately show "store_inv st1" unfolding store_inv_def by blast
qed

text \<open>A member map whose members belong where they are.\<close>

definition placed :: "int \<Rightarrow> (string \<rightharpoonup> member_state) \<Rightarrow> bool" where
  "placed kid M \<longleftrightarrow> finite (dom M) \<and> (\<forall>m ms. M m = Some ms \<longrightarrow> KeyGroupOf m = kid \<and> ms_MemberID ms = m)"

lemma restore_members_ok:
  assumes "store_inv st" "sm_keyGroups st kid = Some g" "placed kid M" "sm_epoch st = 0"
  shows "store_inv (fold (restore_member g M) xs st) \<and>
    sm_keyGroups (fold (restore_member g M) xs st) = sm_keyGroups st \<and>
    sm_epoch (fold (restore_member g M) xs st) = 0 \<and>
    member (fold (restore_member g M) xs st) =
      (\<lambda>m. if m \<in> set xs \<and> M m \<noteq> None then map_option unversioned (M m) else member st m)"
  using assms(1,2,4)
proof (induction xs arbitrary: st)
  case (Cons x xs)
  show ?case
  proof (cases "M x")
    case None
    then show ?thesis using Cons by (auto simp: restore_member_def fun_eq_iff)
  next
    case (Some ms)
    obtain a st1 where r: "new_member g x ms st = (a, st1)" by fastforce
    have x: "KeyGroupOf x = kid" "ms_MemberID ms = x" using assms(3) Some by (auto simp: placed_def)
    note N = new_member_ok [OF Cons.prems(1) Cons.prems(2) [folded x(1)] x(2) r]
    have k: "sm_keyGroups st1 = sm_keyGroups st" using r by (auto simp: new_member_def Let_def)
    have "restore_member g M x st = st1" using Some r by (simp add: restore_member_def)
    then show ?thesis
      using Cons.IH [OF N(1)] N(3,5) k Cons.prems(2,3) Some by (auto simp: fun_eq_iff unversioned_def)
  qed
qed simp

lemma restore_group_ok:
  assumes "store_inv st" "sm_keyGroups st kid = None" "placed kid M" "enumerates (mo_strings mo)" "sm_epoch st = 0"
  shows "store_inv (restore_group mo kid M st)" "sm_epoch (restore_group mo kid M st) = 0"
    "dom (sm_keyGroups (restore_group mo kid M st)) = insert kid (dom (sm_keyGroups st))"
    "member (restore_group mo kid M st) m = (if KeyGroupOf m = kid then map_option unversioned (M m) else member st m)"
proof -
  obtain g st1 where r: "new_group kid Map.empty st = (g, st1)" by fastforce
  note G = new_group_empty [OF assms(1,2) r]
  have fin: "finite (dom M)" using assms(3) by (simp add: placed_def)
  note R = restore_members_ok [OF G(1) _ assms(3), of g "mo_strings mo (dom M)"]
  have none: "KeyGroupOf m = kid \<Longrightarrow> member st m = None" using assms(2) by (simp add: member_def member_of_def)
  have rg: "restore_group mo kid M st = fold (restore_member g M) (mo_strings mo (dom M)) st1"
    by (simp add: restore_group_def r)
  show "store_inv (restore_group mo kid M st)" "sm_epoch (restore_group mo kid M st) = 0"
    "dom (sm_keyGroups (restore_group mo kid M st)) = insert kid (dom (sm_keyGroups st))"
    using R G(3,4) assms(5) by (simp_all add: rg)
  show "member (restore_group mo kid M st) m = (if KeyGroupOf m = kid then map_option unversioned (M m) else member st m)"
    using R G assms(3,5) none enumeratesD(2) [OF assms(4) fin]
    by (cases "M m") (auto simp: rg placed_def dom_def)
qed

lemma restore_groups_ok:
  assumes "store_inv st" "sm_epoch st = 0" "distinct kids" "set kids \<inter> dom (sm_keyGroups st) = {}"
    and "\<forall>kid\<in>set kids. 0 \<le> kid \<and> kid < NumKeyGroups" "enumerates (mo_strings mo)"
    and "\<forall>kid\<in>set kids. \<exists>M. groups kid = Some M \<and> placed kid M"
  shows "\<exists>st1. restore_groups mo groups kids st = Inr st1 \<and> store_inv st1 \<and> sm_epoch st1 = 0 \<and>
    (\<forall>m. member st1 m = (if KeyGroupOf m \<in> set kids
       then map_option unversioned (the (groups (KeyGroupOf m)) m) else member st m))"
  using assms(1-5,7)
proof (induction kids arbitrary: st)
  case (Cons kid kids)
  obtain M where M: "groups kid = Some M" "placed kid M" using Cons.prems by auto
  have k: "sm_keyGroups st kid = None" using Cons.prems by auto
  note G = restore_group_ok [OF Cons.prems(1) k M(2) assms(6) Cons.prems(2)]
  have "\<exists>st1. restore_groups mo groups kids (restore_group mo kid M st) = Inr st1 \<and> store_inv st1 \<and> sm_epoch st1 = 0 \<and>
    (\<forall>m. member st1 m = (if KeyGroupOf m \<in> set kids
       then map_option unversioned (the (groups (KeyGroupOf m)) m) else member (restore_group mo kid M st) m))"
    using Cons.prems by (intro Cons.IH G(1,2)) (auto simp: G(3))
  then show ?case using Cons.prems M by (auto simp: G(4))
qed simp

section \<open>What every write keeps\<close>

text \<open>
  The interface between the store and the events: a reflexive, transitive relation that each write of a
  member establishes between the stores before and after. Events then establish it too. It is used for
  the frozen cells of a snapshot and for the epoch.
\<close>

locale store_relation =
  fixes R :: "member_store \<Rightarrow> member_store \<Rightarrow> bool"
  assumes R_refl: "R st st"
    and R_trans: "R st st1 \<Longrightarrow> R st1 st2 \<Longrightarrow> R st st2"
    and R_write: "store_inv st \<Longrightarrow> memberForWrite m st = (a, st1) \<Longrightarrow> R st (put_member a ms st1)"
begin

lemma fireEntry_rel:
  assumes inv: "store_inv st" and r: "fireEntry pats entry st = (rs, st1)"
  shows "R st st1"
proof -
  obtain a st2 where w: "memberForWrite (nd_MemberID entry) st = (a, st2)" by fastforce
  have "st1 = st \<or> (\<exists>ms. st1 = put_member a ms st2)"
    using r unfolding fireEntry_def w Let_def
    by (auto split: option.splits if_splits)
  then show ?thesis using R_write [OF inv w] R_refl by auto
qed

lemma drain_rel:
  assumes "store_inv (c_store c)" "drainNegativeMatches wm c = (rs, c')" "length (c_negDeadlines c) \<le> n"
  shows "R (c_store c) (c_store c')"
  using assms
proof (induction n arbitrary: c rs)
  case 0
  then show ?case by (simp add: drainNegativeMatches.simps R_refl)
next
  case (Suc n)
  let ?h = "c_negDeadlines c"
  show ?case
  proof (cases "?h = [] \<or> \<not> nd_Deadline (?h ! 0) < wm")
    case True
    then have "(rs, c') = ([], c)" using Suc.prems(2) by (subst (asm) drainNegativeMatches.simps) simp
    then show ?thesis using R_refl by simp
  next
    case False
    obtain x h where p: "heap_Pop ?h = (x, h)" by fastforce
    obtain r1 st where f: "fireEntry (c_patterns c) (?h ! 0) (c_store c) = (r1, st)" by fastforce
    let ?c = "c\<lparr>c_negDeadlines := h, c_store := st\<rparr>"
    obtain r2 c2 where d: "drainNegativeMatches wm ?c = (r2, c2)" by fastforce
    have res: "c' = c2" using Suc.prems(2) False p f d by (subst (asm) drainNegativeMatches.simps) simp
    have s: "R (c_store c) st" by (rule fireEntry_rel [OF Suc.prems(1) f])
    have "length h \<le> n" using length_heap_Pop [of ?h] p False Suc.prems(3) by (cases ?h) simp_all
    then have "R st (c_store c2)"
      using Suc.IH [of ?c r2] d res fireEntry_view(1) [OF Suc.prems(1) f] by simp
    then show ?thesis using s res by (auto intro: R_trans)
  qed
qed

lemma ProcessEvent_rel:
  assumes inv: "core_inv c hist" and r: "ProcessEvent lo e c = (res, c')"
  shows "R (c_store c) (c_store c')"
proof -
  obtain a st where w: "memberForWrite (ev_MemberID e) (c_store c) = (a, st)" by fastforce
  have st: "store_inv (c_store c)" using inv by (simp add: core_inv_def)
  let ?ms = "foldEvent (c_maxWindow c) e (sm_members st a)"
  let ?c1 = "c\<lparr>c_store := put_member a ?ms st\<rparr>"
  note S = R_write [OF st w]
  show ?thesis
  proof (cases "isLate c (ev_OccurredAt e)")
    case True
    then have "c_store c' = put_member a ?ms st" using r by (auto simp: ProcessEvent_def w Let_def split: if_splits)
    then show ?thesis using S by simp
  next
    case False
    let ?c2 = "advanceWatermark (ev_OccurredAt e) ?c1"
    obtain ps ms1 h where cep: "processCEP (c_patterns ?c2) (lo_progresses lo) ?ms (cepEvent e) (Watermark ?c2)
        (c_negDeadlines ?c2) = (ps, ms1, h)" by (metis prod_cases3)
    note G = processCEP_frame [OF cep]
    let ?c3 = "?c2\<lparr>c_store := put_member a ms1 (c_store ?c2), c_negDeadlines := h\<rparr>"
    have c3: "c_store ?c3 = put_member a ms1 st" by (simp add: put_member_def)
    obtain ex c4 where d: "drainNegativeMatches (Watermark ?c2) ?c3 = (ex, c4)" by fastforce
    have c': "c' = c4" using r False cep d unfolding ProcessEvent_def w Let_def by simp
    have "store_inv (put_member a ms1 st)" by (rule write_read(1) [OF st w]) (simp_all add: G)
    then have "store_inv (c_store ?c3)" unfolding c3 .
    then have "R (c_store ?c3) (c_store c4)" using drain_rel [OF _ d order_refl] by blast
    then show ?thesis using S [of ms1] unfolding c3 c' by (auto intro: R_trans)
  qed
qed

lemma process_all_rel:
  assumes "core_inv c hist" "process_all los es c = (rs, c')"
  shows "R (c_store c) (c_store c')"
  using assms
proof (induction es arbitrary: los c hist rs)
  case (Cons e es)
  obtain r c1 where r: "ProcessEvent (los 0) e c = (r, c1)" by fastforce
  obtain rs1 c2 where rs1: "process_all (\<lambda>n. los (Suc n)) es c1 = (rs1, c2)" by fastforce
  have c': "c' = c2" using Cons.prems(2) by (simp add: r rs1)
  have "R (c_store c1) (c_store c2)"
    using Cons.IH [OF core_inv_step [OF Cons.prems(1) r], of _ rs1] rs1 by (simp add: c')
  then show ?case using ProcessEvent_rel [OF Cons.prems(1) r] c' by (auto intro: R_trans)
qed (simp add: R_refl)

end

section \<open>Events leave a frozen view alone\<close>

lemma write_spares:
  assumes inv: "store_inv st" and r: "memberForWrite m st = (a, st1)" and fz: "sm_frozenEpoch st \<noteq> 0"
  shows "spares_frozen st (put_member a ms st1)"
proof -
  have "sm_frozenEpoch st \<le> ms_version (sm_members st1 a)" "sm_frozenEpoch st1 = sm_frozenEpoch st"
    using memberForWrite_ok [OF inv r] fz by auto
  then have "spares_frozen st1 (put_member a ms st1)"
    by (auto simp: spares_frozen_def not_less [symmetric])
  with memberForWrite_spares [OF inv r fz] show ?thesis by (rule spares_trans)
qed

interpretation spares: store_relation "\<lambda>st st1. sm_frozenEpoch st \<noteq> 0 \<longrightarrow> spares_frozen st st1"
proof unfold_locales
  fix st st1 st2
  assume "sm_frozenEpoch st \<noteq> 0 \<longrightarrow> spares_frozen st st1" "sm_frozenEpoch st1 \<noteq> 0 \<longrightarrow> spares_frozen st1 st2"
  then show "sm_frozenEpoch st \<noteq> 0 \<longrightarrow> spares_frozen st st2"
    by (auto intro: spares_trans) (simp add: spares_frozen_def)
qed (simp_all add: spares_refl write_spares)

interpretation epoch: store_relation "\<lambda>st st1. sm_epoch st1 = sm_epoch st"
proof unfold_locales
  fix st m a st1 ms
  assume "store_inv st" "memberForWrite m st = (a, st1)"
  then have "sm_epoch st1 = sm_epoch st" using memberForWrite_ok by blast
  then show "sm_epoch (put_member a ms st1) = sm_epoch st" by simp
qed simp_all

lemma process_all_spares:
  assumes "core_inv c hist" "process_all los es c = (rs, c')" "sm_frozenEpoch (c_store c) \<noteq> 0"
  shows "spares_frozen (c_store c) (c_store c')"
  using spares.process_all_rel [OF assms(1,2)] assms(3) by blast

lemma group_members_spared:
  assumes "frozen_view st v" "spares_frozen st st'"
  shows "group_members st' v = group_members st v"
proof -
  have cells: "sm_groups st' g = sm_groups st g"
      "kg_Members (sm_groups st g) m = Some a \<Longrightarrow> sm_members st' a = sm_members st a"
    if "v kid = Some g" for kid g m a
    using assms that unfolding frozen_view_def spares_frozen_def by blast+
  have eq: "map_option (\<lambda>g m. map_option (\<lambda>a. unversioned (sm_members st' a)) (kg_Members (sm_groups st' g) m)) (v kid) =
    map_option (\<lambda>g m. map_option (\<lambda>a. unversioned (sm_members st a)) (kg_Members (sm_groups st g) m)) (v kid)" for kid
  proof (cases "v kid")
    case (Some g)
    have "map_option (\<lambda>a. unversioned (sm_members st' a)) (kg_Members (sm_groups st g) m) =
        map_option (\<lambda>a. unversioned (sm_members st a)) (kg_Members (sm_groups st g) m)" for m
      using cells(2) [OF Some] by (cases "kg_Members (sm_groups st g) m") simp_all
    then show ?thesis using Some cells(1) [OF Some] by simp
  qed simp
  show ?thesis by (simp only: group_members_def eq)
qed

section \<open>Finite state\<close>

text \<open>At any time a shard has finitely many members and each finitely many progresses.\<close>

definition finite_view :: "(string \<rightharpoonup> member_state) \<Rightarrow> bool" where
  "finite_view V \<longleftrightarrow> finite (dom V) \<and> (\<forall>m ms. V m = Some ms \<longrightarrow> finite (dom (ms_Progresses ms)))"

lemma finite_view_put: "finite_view V \<Longrightarrow> finite (dom (ms_Progresses ms)) \<Longrightarrow> finite_view (V(m \<mapsto> ms))"
  by (auto simp: finite_view_def)

lemma finite_advance:
  "finite (dom (fst (snd acc))) \<Longrightarrow> finite (dom (fst (snd (fold (advanceOne pats e) xs acc))))"
proof (induction xs arbitrary: acc)
  case (Cons x xs)
  obtain rs progs h where acc: "acc = (rs, progs, h)" by (metis prod_cases3)
  have "finite (dom (fst (snd (advanceOne pats e x acc))))"
    using Cons.prems by (auto simp: acc advanceOne_def Let_def split: option.split prod.split if_split)
  then show ?case using Cons.IH by simp
qed simp

lemma finite_start:
  "finite (dom (fst (snd acc))) \<Longrightarrow> finite (dom (fst (snd (fold (startOne e) cps acc))))"
proof (induction cps arbitrary: acc)
  case (Cons cp cps)
  obtain rs progs h where acc: "acc = (rs, progs, h)" by (metis prod_cases3)
  have "finite (dom (fst (snd (startOne e cp acc))))"
    using Cons.prems by (auto simp: acc startOne_def Let_def split: prod.split)
  then show ?case using Cons.IH by simp
qed simp

lemma finite_processCEP:
  assumes "processCEP pats it ms e wm h = (rs, ms1, h1)" "finite (dom (ms_Progresses ms))"
  shows "finite (dom (ms_Progresses ms1))"
proof -
  let ?P = "ms_Progresses (sweepExpiredProgresses pats ms wm)"
  have "finite (dom ?P)" using assms(2) by (auto simp: sweepExpiredProgresses_def)
  then have "finite (dom (fst (snd (fold (startOne e) pats (fold (advanceOne pats e) (it (dom ?P)) ([], ?P, h))))))"
    by (intro finite_start finite_advance) simp
  then show ?thesis using assms(1) by (auto simp: processCEP_def Let_def split: prod.splits)
qed

lemma finite_fire_all: "finite_view V \<Longrightarrow> finite_view (snd (fire_all pats es V))"
proof (induction es arbitrary: V)
  case (Cons e es)
  have "finite_view (snd (fire_view pats e V))"
    using Cons.prems unfolding fire_view_def finite_view_def
    by (auto split: option.split)
  then show ?case using Cons.IH by (simp add: split_beta Let_def)
qed simp

lemma finite_view_event:
  assumes "finite_view V" "process_view lo e c V = (res, V1, h1)"
  shows "finite_view V1"
proof -
  let ?m = "ev_MemberID e"
  define F where "F = foldEvent (c_maxWindow c) e (view_or_new V ?m)"
  have F: "finite (dom (ms_Progresses F))"
    using assms(1) by (auto simp: F_def view_or_new_def newMemberState_def finite_view_def split: option.split)
  show ?thesis
  proof (cases "isLate c (ev_OccurredAt e)")
    case True
    then have "V1 = V(?m \<mapsto> F)" using assms(2) by (simp add: process_view_def Let_def F_def)
    then show ?thesis using finite_view_put [OF assms(1) F] by simp
  next
    case False
    let ?wm = "c_watermark (advanceWatermark (ev_OccurredAt e) c)"
    obtain ps ms1 h where cep: "processCEP (c_patterns c) (lo_progresses lo) F (cepEvent e) ?wm (c_negDeadlines c) =
        (ps, ms1, h)" by (metis prod_cases3)
    obtain due h2 where d: "due_entries ?wm h = (due, h2)" by fastforce
    have "V1 = snd (fire_all (c_patterns c) due (V(?m \<mapsto> ms1)))"
      using assms(2) False by (simp add: process_view_def Let_def F_def [symmetric] cep d split: prod.splits)
    then show ?thesis using finite_fire_all finite_view_put [OF assms(1) finite_processCEP [OF cep F]] by simp
  qed
qed

lemma finite_view_step:
  assumes "core_inv c hist" "finite_view (members_view (c_store c))" "ProcessEvent lo e c = (res, c')"
  shows "finite_view (members_view (c_store c'))"
  by (rule finite_view_event [OF assms(2) ProcessEvent_view(2) [OF assms(1,3)]])

lemma finite_view_run:
  "core_inv c hist \<Longrightarrow> finite_view (members_view (c_store c)) \<Longrightarrow>
    finite_view (members_view (c_store (snd (process_all los es c))))"
proof (induction es arbitrary: los c hist)
  case (Cons e es)
  obtain r c1 where r: "ProcessEvent (los 0) e c = (r, c1)" by fastforce
  obtain rs c2 where rs: "process_all (\<lambda>n. los (Suc n)) es c1 = (rs, c2)" by fastforce
  show ?case
    using Cons.IH [OF core_inv_step [OF Cons.prems(1) r] finite_view_step [OF Cons.prems r], of "\<lambda>n. los (Suc n)"]
    by (simp add: r rs)
qed simp

section \<open>Visiting every member\<close>

lemma members_of_group:
  assumes "finite (dom (members_view st))" "store_inv st" "sm_keyGroups st kid = Some g"
  shows "finite (dom (kg_Members (sm_groups st g)))"
proof (rule finite_subset [OF _ assms(1)])
  have ok: "group_ok st kid g" using assms(2,3) by (simp add: store_inv_def)
  show "dom (kg_Members (sm_groups st g)) \<subseteq> dom (members_view st)"
    using ok assms(3) by (auto simp: group_ok_def members_view_def member_def member_of_def)
qed

lemma forEachMember_all:
  assumes inv: "store_inv st" and fin: "finite_view (members_view st)" and it: "enumerates it"
  shows "unversioned ` set (forEachMember it st) = ran (members_view st)"
proof -
  have mem: "set (case sm_keyGroups st kid of None \<Rightarrow> [] | Some g \<Rightarrow>
      map (\<lambda>m. sm_members st (the (kg_Members (sm_groups st g) m))) (it (dom (kg_Members (sm_groups st g))))) =
    {ms. \<exists>m. KeyGroupOf m = kid \<and> member st m = Some ms}" for kid
  proof (cases "sm_keyGroups st kid")
    case None
    then show ?thesis by (auto simp: member_def member_of_def)
  next
    case (Some g)
    have "set (it (dom (kg_Members (sm_groups st g)))) = dom (kg_Members (sm_groups st g))"
      using members_of_group [OF _ inv Some] fin it by (simp add: finite_view_def enumeratesD)
    moreover have "{ms. \<exists>m. KeyGroupOf m = kid \<and> member st m = Some ms} =
        (\<lambda>m. sm_members st (the (kg_Members (sm_groups st g) m))) ` dom (kg_Members (sm_groups st g))"
    proof (intro set_eqI iffI)
      fix ms assume "ms \<in> {ms. \<exists>m. KeyGroupOf m = kid \<and> member st m = Some ms}"
      then show "ms \<in> (\<lambda>m. sm_members st (the (kg_Members (sm_groups st g) m))) ` dom (kg_Members (sm_groups st g))"
        using Some by (force simp: member_def member_of_def)
    next
      fix ms assume "ms \<in> (\<lambda>m. sm_members st (the (kg_Members (sm_groups st g) m))) ` dom (kg_Members (sm_groups st g))"
      then obtain m a where m: "kg_Members (sm_groups st g) m = Some a" "ms = sm_members st a" by auto
      have "group_ok st kid g" using inv Some by (simp add: store_inv_def)
      then have "KeyGroupOf m = kid" using m(1) by (auto simp: group_ok_def)
      then show "ms \<in> {ms. \<exists>m. KeyGroupOf m = kid \<and> member st m = Some ms}"
        using m Some by (auto simp: member_def member_of_def)
    qed
    ultimately show ?thesis using Some by simp
  qed
  have "set (forEachMember it st) = {ms. \<exists>m. member st m = Some ms}"
  proof -
    have "KeyGroupOf m \<in> set [0..NumKeyGroups - 1]" for m
      using KeyGroupOf_range [of m] by (simp add: key_group_ok_def)
    then show ?thesis unfolding forEachMember_def set_concat set_map image_image mem by blast
  qed
  then show ?thesis by (force simp: ran_def members_view_def)
qed

lemma unversioned_entries [simp]: "memberEntries it (unversioned ms) = memberEntries it ms"
  by (simp add: memberEntries_def)

lemma memberEntries_all:
  assumes "enumerates it" "finite (dom (ms_Progresses ms))"
  shows "set (memberEntries it ms) =
    {negEntry p | i p. ms_Progresses ms i = Some p \<and> pg_NegativeDeadline p \<noteq> zero_time}"
  using enumeratesD(2) [OF assms] by (force simp: memberEntries_def is_zero_time_def)

lemma rebuilt_heap:
  assumes "store_inv (c_store c)" "finite_view (members_view (c_store c))" "enumerates (mo_strings mo)"
  shows "heap_inv (c_negDeadlines (rebuildNegativeDeadlines mo c))"
    "set (c_negDeadlines (rebuildNegativeDeadlines mo c)) =
      {negEntry p | m ms i p. members_view (c_store c) m = Some ms \<and> ms_Progresses ms i = Some p \<and>
         pg_NegativeDeadline p \<noteq> zero_time}"
proof -
  let ?all = "forEachMember (mo_strings mo) (c_store c)"
  show "heap_inv (c_negDeadlines (rebuildNegativeDeadlines mo c))"
    by (simp add: rebuildNegativeDeadlines_def heap_Init_ok)
  have "set (heap_Init h) = set h" for h using heap_Init_ok(2) by (metis set_mset_mset)
  then have "set (c_negDeadlines (rebuildNegativeDeadlines mo c)) =
      (\<Union>ms\<in>unversioned ` set ?all. set (memberEntries (mo_strings mo) ms))"
    by (simp add: rebuildNegativeDeadlines_def)
  also have "\<dots> = (\<Union>ms\<in>ran (members_view (c_store c)).
      {negEntry p | i p. ms_Progresses ms i = Some p \<and> pg_NegativeDeadline p \<noteq> zero_time})"
    unfolding forEachMember_all [OF assms]
    using assms(2) by (intro SUP_cong refl memberEntries_all [OF assms(3)]) (auto simp: ran_def finite_view_def)
  also have "\<dots> = {negEntry p | m ms i p. members_view (c_store c) m = Some ms \<and> ms_Progresses ms i = Some p \<and>
         pg_NegativeDeadline p \<noteq> zero_time}"
    unfolding ran_def by blast
  finally show "set (c_negDeadlines (rebuildNegativeDeadlines mo c)) =
      {negEntry p | m ms i p. members_view (c_store c) m = Some ms \<and> ms_Progresses ms i = Some p \<and>
         pg_NegativeDeadline p \<noteq> zero_time}" .
qed

section \<open>A restored shard\<close>

lemma begin_ok:
  assumes inv: "core_inv c hist" and wrap: "sm_epoch (c_store c) < sm_epoch (c_store c) + 1"
    and b: "beginSnapshot c = (f, c1)"
  shows "same_shard c c1" "frozen_view (c_store c1) (fz_state f)" "fz_watermarkNanos f = c_watermark c"
    "fz_lastSeq f = c_lastSeq c" "core_inv c1 hist" "fz_state f = sm_keyGroups (c_store c)"
    "group_members (c_store c1) (fz_state f) = group_members (c_store c) (sm_keyGroups (c_store c))"
proof -
  have st: "store_inv (c_store c)" using inv by (simp add: core_inv_def)
  note F = freeze_ok [OF st wrap prod.collapse [symmetric]]
  have e: "f = \<lparr>fz_state = fst (freezeState (c_store c)), fz_watermarkNanos = c_watermark c, fz_lastSeq = c_lastSeq c\<rparr>"
    "c1 = c\<lparr>c_store := snd (freezeState (c_store c))\<rparr>"
    using b by (auto simp: beginSnapshot_def split: prod.splits)
  show "same_shard c c1" using freeze_same_shard [OF inv wrap] by (simp add: e)
  then show "core_inv c1 hist" by (rule same_shard_inv [OF _ inv])
  show "frozen_view (c_store c1) (fz_state f)" using F by (simp add: e)
  show "fz_watermarkNanos f = c_watermark c" "fz_lastSeq f = c_lastSeq c" by (simp_all add: e)
  show "fz_state f = sm_keyGroups (c_store c)" by (simp add: e freezeState_def)
  then show "group_members (c_store c1) (fz_state f) = group_members (c_store c) (sm_keyGroups (c_store c))"
    by (simp add: e freezeState_def group_members_def fun_eq_iff)
qed

lemma placed_groups:
  assumes inv: "store_inv st" and fin: "finite_view (members_view st)"
    and M: "group_members st (sm_keyGroups st) kid = Some M"
  shows "placed kid M" "0 \<le> kid \<and> kid < NumKeyGroups"
proof -
  obtain g where g: "sm_keyGroups st kid = Some g" "0 \<le> kid \<and> kid < NumKeyGroups"
      "M = (\<lambda>m. map_option (\<lambda>a. unversioned (sm_members st a)) (kg_Members (sm_groups st g) m))"
    using M by (auto simp: group_members_def split: if_splits)
  then have "group_ok st kid g" using inv by (simp add: store_inv_def)
  moreover have "dom M = dom (kg_Members (sm_groups st g))" by (auto simp: g(3))
  ultimately show "placed kid M"
    using members_of_group [OF _ inv g(1)] fin by (auto simp: placed_def group_ok_def finite_view_def g(3))
  show "0 \<le> kid \<and> kid < NumKeyGroups" by (rule g(2))
qed

lemma group_members_view:
  assumes "store_inv st"
  shows "(case group_members st (sm_keyGroups st) (KeyGroupOf m) of None \<Rightarrow> None | Some M \<Rightarrow> M m) = members_view st m"
  using KeyGroupOf_range [of m]
  by (auto simp: group_members_def members_view_def member_def member_of_def key_group_ok_def option.map_comp comp_def
      split: option.split)

lemma finite_groups: "finite (dom (group_members st v))"
  by (rule finite_subset [of _ "{0..<NumKeyGroups}"]) (auto simp: group_members_def split: if_splits)

lemma restore_frozen:
  assumes inv: "core_inv c hist" and fin: "finite_view (members_view (c_store c))"
    and d: "patterns_ok (c_patterns d)" "c_patterns d = c_patterns c" "sm_frozenEpoch (c_store d) \<le> sm_epoch (c_store d)"
    and it: "enumerates (mo_groups mo)" "enumerates (mo_strings mo)"
    and data: "data = GobSnapshot \<lparr>sn_KeyGroups = group_members (c_store c) (sm_keyGroups (c_store c)),
      sn_WatermarkNanos = wm, sn_LastSeq = seq\<rparr>"
    and r: "Restore mo data d = (res, d')"
  shows "res = Inr seq" "members_view (c_store d') = members_view (c_store c)" "c_watermark d' = wm" "c_lastSeq d' = seq"
    "core_inv d' hist"
    "d' = d\<lparr>c_store := c_store d', c_watermark := wm, c_lastSeq := seq, c_negDeadlines := c_negDeadlines d'\<rparr>"
proof -
  let ?G = "group_members (c_store c) (sm_keyGroups (c_store c))" and ?kids = "mo_groups mo (dom (group_members (c_store c) (sm_keyGroups (c_store c))))"
  have st: "store_inv (c_store c)" using inv by (simp add: core_inv_def)
  have kids: "distinct ?kids" "set ?kids = dom ?G" using enumeratesD [OF it(1) finite_groups] by blast+
  note cl = cleared_ok [of "c_store d"]
  have "\<exists>s1. restore_groups mo ?G ?kids (cleared (c_store d)) = Inr s1 \<and> store_inv s1 \<and> sm_epoch s1 = 0 \<and>
    (\<forall>m. member s1 m = (if KeyGroupOf m \<in> set ?kids
       then map_option unversioned (the (?G (KeyGroupOf m)) m) else member (cleared (c_store d)) m))"
    using placed_groups [OF st fin] kids it(2) cl by (intro restore_groups_ok) (auto simp: dom_def)
  then obtain s1 where s1: "restore_groups mo ?G ?kids (cleared (c_store d)) = Inr s1" "store_inv s1" "sm_epoch s1 = 0"
    "\<forall>m. member s1 m = (if KeyGroupOf m \<in> set ?kids
       then map_option unversioned (the (?G (KeyGroupOf m)) m) else None)" using cl by auto
  let ?s = "s1\<lparr>sm_epoch := sm_epoch (c_store d), sm_frozenEpoch := sm_frozenEpoch (c_store d)\<rparr>"
  let ?d = "d\<lparr>c_store := ?s, c_watermark := wm, c_lastSeq := seq\<rparr>"
  have e: "res = Inr seq" "d' = rebuildNegativeDeadlines mo ?d"
    using r s1(1) by (auto simp: Restore_def data)
  have s: "store_inv ?s" using store_inv_epochs [OF s1(2) _ d(3)] s1(3) by simp
  have view: "members_view ?s m = members_view (c_store c) m" for m
  proof -
    have v: "map_option unversioned (members_view (c_store c) m) = members_view (c_store c) m"
      by (cases "member (c_store c) m") (simp_all add: members_view_def unversioned_def)
    show ?thesis
    proof (cases "?G (KeyGroupOf m)")
      case None
      then have "KeyGroupOf m \<notin> set ?kids" unfolding kids by auto
      then have "member s1 m = None" using s1(4) by simp
      then show ?thesis using None group_members_view [OF st, of m] by (simp add: members_view_def)
    next
      case (Some M)
      then have "KeyGroupOf m \<in> set ?kids" unfolding kids by auto
      then have "member s1 m = map_option unversioned (M m)" using s1(4) Some by simp
      moreover have "M m = members_view (c_store c) m" using group_members_view [OF st, of m] Some by simp
      ultimately show ?thesis using v by (simp add: members_view_def [of ?s])
    qed
  qed
  have views: "members_view ?s = members_view (c_store c)" using view by (rule ext)
  have c_store: "c_store d' = ?s" by (simp add: e rebuildNegativeDeadlines_def)
  show "res = Inr seq" by (rule e)
  show V: "members_view (c_store d') = members_view (c_store c)" by (simp add: c_store views)
  show "c_watermark d' = wm" "c_lastSeq d' = seq" by (simp_all add: e rebuildNegativeDeadlines_def)
  show "d' = d\<lparr>c_store := c_store d', c_watermark := wm, c_lastSeq := seq, c_negDeadlines := c_negDeadlines d'\<rparr>"
    by (simp add: e rebuildNegativeDeadlines_def)
  have heap: "heap_inv (c_negDeadlines d')"
    "set (c_negDeadlines d') = {negEntry p | m ms i p. members_view (c_store c) m = Some ms \<and>
       ms_Progresses ms i = Some p \<and> pg_NegativeDeadline p \<noteq> zero_time}"
    using rebuilt_heap [of ?d mo] s fin views it(2) by (simp_all add: e)
  have pats: "c_patterns d' = c_patterns c" by (simp add: e rebuildNegativeDeadlines_def d)
  have "live_ok (c_patterns c) m (hist m) (c_negDeadlines d') i p"
    if "members_view (c_store c) m = Some ms" "ms_Progresses ms i = Some p" for m ms i p
  proof -
    have "live_ok (c_patterns c) m (hist m) (c_negDeadlines c) i p"
      using inv that by (auto simp: core_inv_def cep_ok_def)
    moreover have "covered (c_negDeadlines d') p"
      using that unfolding covered_def heap(2) negEntry_def by blast
    ultimately show ?thesis by (simp add: live_ok_def)
  qed
  then show "core_inv d' hist"
    using inv heap(1) s [folded c_store] d unfolding core_inv_def V pats by (simp add: cep_ok_def)
qed

section \<open>Shards that decide alike\<close>

text \<open>
  Two shards over the same configuration whose members and watermarks agree. Their heaps may differ:
  in the order of equal deadlines and in stale entries.
\<close>

definition agrees :: "core \<Rightarrow> core \<Rightarrow> bool" where
  "agrees c d \<longleftrightarrow> members_view (c_store c) = members_view (c_store d) \<and> c_watermark c = c_watermark d \<and>
     c_patterns c = c_patterns d \<and> c_ruleSet c = c_ruleSet d \<and> c_maxWindow c = c_maxWindow d \<and>
     c_allowedLateness c = c_allowedLateness d"

definition same_decision :: "process_result \<Rightarrow> process_result \<Rightarrow> bool" where
  "same_decision r s \<longleftrightarrow> pr_MatchedRules r = pr_MatchedRules s \<and>
     mset (pr_MatchedPatterns r) = mset (pr_MatchedPatterns s)"

lemma ProcessEvent_frame:
  assumes "core_inv c hist" "ProcessEvent lo e c = (res, c')"
  shows "c_patterns c' = c_patterns c" "c_ruleSet c' = c_ruleSet c" "c_maxWindow c' = c_maxWindow c"
    "c_allowedLateness c' = c_allowedLateness c" "c_lastSeq c' = c_lastSeq c" "c_replaying c' = c_replaying c"
    "c_watermark c' = (if isLate c (ev_OccurredAt e) then c_watermark c
       else c_watermark (advanceWatermark (ev_OccurredAt e) c))"
  by (subst ProcessEvent_view(3) [OF assms], simp add: after_event_def)+

lemma agrees_step:
  assumes inv: "core_inv c hist" "core_inv d hist'" and ag: "agrees c d"
    and r: "ProcessEvent lo e c = (res, c')" and r': "ProcessEvent lo e d = (res', d')"
  shows "same_decision res res' \<and> agrees c' d'"
proof -
  let ?V = "members_view (c_store c)" and ?m = "ev_MemberID e" and ?t = "ev_OccurredAt e"
  have eq: "members_view (c_store d) = ?V" "c_watermark d = c_watermark c" "c_patterns d = c_patterns c"
    "c_ruleSet d = c_ruleSet c" "c_maxWindow d = c_maxWindow c" "c_allowedLateness d = c_allowedLateness c"
    using ag by (simp_all add: agrees_def)
  have late: "isLate d ?t = isLate c ?t" by (simp add: isLate_def eq)
  have wm: "c_watermark (advanceWatermark ?t d) = c_watermark (advanceWatermark ?t c)"
    by (simp add: advanceWatermark_def eq Let_def)
  note S = ProcessEvent_view [OF inv(1) r] and T = ProcessEvent_view [OF inv(2) r']
  have fr: "agrees c' d'" if "members_view (c_store c') = members_view (c_store d')"
    using that wm late eq unfolding agrees_def ProcessEvent_frame [OF inv(1) r] ProcessEvent_frame [OF inv(2) r'] by simp
  show ?thesis
  proof (cases "isLate c ?t")
    case True
    then have "isLate d ?t" by (simp add: late)
    note L = late_step [OF inv(1) r True] and M = late_step [OF inv(2) r' this]
    have "members_view (c_store c') = members_view (c_store d')" unfolding L(4) M(4) eq ..
    then show ?thesis using fr L(1) M(1) by (simp add: same_decision_def)
  next
    case False
    then have F': "\<not> isLate d ?t" by (simp add: late)
    let ?wm = "c_watermark (advanceWatermark ?t c)"
    define F where "F = foldEvent (c_maxWindow c) e (view_or_new ?V ?m)"
    obtain ps ms1 h where cep: "processCEP (c_patterns c) (lo_progresses lo) F (cepEvent e) ?wm (c_negDeadlines c) =
        (ps, ms1, h)" by (metis prod_cases3)
    obtain h' where cep': "processCEP (c_patterns c) (lo_progresses lo) F (cepEvent e) ?wm (c_negDeadlines d) =
        (ps, ms1, h')" using processCEP_heap [OF cep] by blast
    let ?W = "?V(?m \<mapsto> ms1)"
    note X = matcher_step [OF inv(1) F_def cep False]
    note Y = matcher_step [OF inv(2), unfolded eq, OF F_def cep' F']
    obtain es h1 where D: "due_entries ?wm h = (es, h1)" by fastforce
    obtain es' h1' where D': "due_entries ?wm h' = (es', h1')" by fastforce
    obtain L where L: "distinct L" "set L = overdue ?W ?wm" "fire_all (c_patterns c) es ?W =
        (concat (map (fired_match (c_patterns c) ?W) L), drop_progresses (overdue ?W ?wm) ?W)"
      using fire_due(1) [OF X(2) members_ok_covered [OF X(1)] D, of "c_patterns c"] by blast
    obtain L' where L': "distinct L'" "set L' = overdue ?W ?wm" "fire_all (c_patterns c) es' ?W =
        (concat (map (fired_match (c_patterns c) ?W) L'), drop_progresses (overdue ?W ?wm) ?W)"
      using fire_due(1) [OF Y(2) members_ok_covered [OF Y(1)] D', of "c_patterns c"] by blast
    have "mset L = mset L'" using L(1,2) L'(1,2) by (simp add: set_eq_iff_mset_eq_distinct [symmetric])
    then have m: "mset (concat (map (fired_match (c_patterns c) ?W) L)) = mset (concat (map (fired_match (c_patterns c) ?W) L'))"
      by (rule mset_concat_map)
    have A: "res = \<lparr>pr_MatchedRules = evaluateRules (lo_buckets lo) F (buildEvalFields e) ?t (c_ruleSet c),
        pr_MatchedPatterns = ps @ concat (map (fired_match (c_patterns c) ?W) L)\<rparr>"
      "members_view (c_store c') = drop_progresses (overdue ?W ?wm) ?W"
      using S(2) False by (simp_all add: process_view_def Let_def F_def [symmetric] cep D L(3))
    have B: "res' = \<lparr>pr_MatchedRules = evaluateRules (lo_buckets lo) F (buildEvalFields e) ?t (c_ruleSet c),
        pr_MatchedPatterns = ps @ concat (map (fired_match (c_patterns c) ?W) L')\<rparr>"
      "members_view (c_store d') = drop_progresses (overdue ?W ?wm) ?W"
      using T(2) F' by (simp_all add: process_view_def Let_def eq wm F_def [symmetric] cep' D' L'(3))
    show ?thesis using fr A B m by (simp add: same_decision_def)
  qed
qed

lemma agrees_run:
  assumes "core_inv c hist" "core_inv d hist'" "agrees c d"
  shows "list_all2 same_decision (fst (process_all los es c)) (fst (process_all los es d)) \<and>
    agrees (snd (process_all los es c)) (snd (process_all los es d))"
  using assms
proof (induction es arbitrary: los c d hist hist')
  case (Cons e es)
  obtain r c1 where r: "ProcessEvent (los 0) e c = (r, c1)" by fastforce
  obtain r' d1 where r': "ProcessEvent (los 0) e d = (r', d1)" by fastforce
  obtain rs c2 where rs: "process_all (\<lambda>n. los (Suc n)) es c1 = (rs, c2)" by fastforce
  obtain rs' d2 where rs': "process_all (\<lambda>n. los (Suc n)) es d1 = (rs', d2)" by fastforce
  note S = agrees_step [OF Cons.prems r r']
  show ?case
    using Cons.IH [OF core_inv_step [OF Cons.prems(1) r] core_inv_step [OF Cons.prems(2) r'], of "\<lambda>n. los (Suc n)"] S
    by (simp add: r r' rs rs')
qed simp

section \<open>When the encoder fails\<close>

lemma gob_member_all:
  assumes "enumerates it" "finite (dom (ms_Progresses ms))"
    and "\<forall>i p. ms_Progresses ms i = Some p \<longrightarrow> finite (dom (pg_Variables p))"
  shows "gob_member it ms \<longleftrightarrow> (\<forall>i p x v. ms_Progresses ms i = Some p \<longrightarrow> pg_Variables p x = Some v \<longrightarrow> gob_value v)"
proof -
  have p: "gob_progress it p \<longleftrightarrow> (\<forall>x v. pg_Variables p x = Some v \<longrightarrow> gob_value v)"
    if "ms_Progresses ms i = Some p" for i p
  proof -
    have "set (it (dom (pg_Variables p))) = dom (pg_Variables p)"
      using enumeratesD(2) [OF assms(1)] assms(3) that by blast
    then show ?thesis unfolding gob_progress_def list_all_iff by force
  qed
  have "gob_member it ms \<longleftrightarrow> (\<forall>i p. ms_Progresses ms i = Some p \<longrightarrow> gob_progress it p)"
    unfolding gob_member_def list_all_iff enumeratesD(2) [OF assms(1,2)] by force
  then show ?thesis using p by blast
qed

lemma gob_encode_fails:
  assumes inv: "core_inv c hist" and fin: "finite_view (members_view (c_store c))"
    and mo: "enumerates (mo_groups mo)" "enumerates (mo_strings mo)"
    and vars: "\<forall>m ms i p. members_view (c_store c) m = Some ms \<longrightarrow> ms_Progresses ms i = Some p \<longrightarrow> finite (dom (pg_Variables p))"
  shows "gob_encode mo \<lparr>sn_KeyGroups = group_members (c_store c) (sm_keyGroups (c_store c)),
      sn_WatermarkNanos = wm, sn_LastSeq = seq\<rparr> = Inl ESnapshotEncode \<longleftrightarrow>
    (\<exists>m ms i p x v. members_view (c_store c) m = Some ms \<and> ms_Progresses ms i = Some p \<and> pg_Variables p x = Some v \<and>
       \<not> gob_value v)"
proof -
  let ?G = "group_members (c_store c) (sm_keyGroups (c_store c))" and ?V = "members_view (c_store c)"
  have st: "store_inv (c_store c)" using inv by (simp add: core_inv_def)
  note kids = enumeratesD(2) [OF mo(1) finite_groups, of "c_store c" "sm_keyGroups (c_store c)"]
  have here: "?V m = Some ms \<longleftrightarrow> (\<exists>kid M. ?G kid = Some M \<and> M m = Some ms)" for m ms
  proof
    assume "?V m = Some ms"
    then show "\<exists>kid M. ?G kid = Some M \<and> M m = Some ms"
      using group_members_view [OF st, of m] by (auto split: option.splits)
  next
    assume "\<exists>kid M. ?G kid = Some M \<and> M m = Some ms"
    then obtain kid M where M: "?G kid = Some M" "M m = Some ms" by blast
    then have "KeyGroupOf m = kid" using placed_groups(1) [OF st fin M(1)] by (auto simp: placed_def)
    then show "?V m = Some ms" using group_members_view [OF st, of m] M by simp
  qed
  have mem: "gob_member (mo_strings mo) ms \<longleftrightarrow>
      (\<forall>i p x v. ms_Progresses ms i = Some p \<longrightarrow> pg_Variables p x = Some v \<longrightarrow> gob_value v)" if "?V m = Some ms" for m ms
    using gob_member_all [OF mo(2)] fin vars that unfolding finite_view_def by blast
  have grp: "list_all (\<lambda>m. gob_member (mo_strings mo) (the (M m))) (mo_strings mo (dom M)) \<longleftrightarrow>
      (\<forall>m ms. M m = Some ms \<longrightarrow> gob_member (mo_strings mo) ms)" if "?G kid = Some M" for kid M
  proof -
    have "set (mo_strings mo (dom M)) = dom M"
      using enumeratesD(2) [OF mo(2)] placed_groups(1) [OF st fin that] unfolding placed_def by blast
    then show ?thesis unfolding list_all_iff by force
  qed
  have "list_all (\<lambda>kid. let M = the (?G kid) in
          list_all (\<lambda>m. gob_member (mo_strings mo) (the (M m))) (mo_strings mo (dom M))) (mo_groups mo (dom ?G)) \<longleftrightarrow>
      (\<forall>kid M. ?G kid = Some M \<longrightarrow> (\<forall>m ms. M m = Some ms \<longrightarrow> gob_member (mo_strings mo) ms))"
    unfolding list_all_iff kids Let_def using grp by (force simp: list_all_iff)
  also have "\<dots> \<longleftrightarrow> (\<forall>m ms. ?V m = Some ms \<longrightarrow> gob_member (mo_strings mo) ms)"
    unfolding here by blast
  also have "\<dots> \<longleftrightarrow> (\<forall>m ms i p x v. ?V m = Some ms \<longrightarrow> ms_Progresses ms i = Some p \<longrightarrow> pg_Variables p x = Some v \<longrightarrow> gob_value v)"
    using mem by blast
  finally show ?thesis by (auto simp: gob_encode_def)
qed

end
