(* ===== verification/Shard.thy ===== *)
theory Shard
  imports Snapshot
begin

text \<open>
  A shard over its life: built, given its patterns, fed events, snapshotted, restored. The step relation
  \<open>shard_reach\<close> says which states it can be in; the properties of \<^verbatim>\<open>ProcessEvent\<close>,
  \<^verbatim>\<open>Snapshot\<close> and \<^verbatim>\<open>Restore\<close> hold in all of them.
\<close>

section \<open>Reachable shards\<close>

text \<open>The second argument is the ghost history: for each member the events its patterns have seen.
  Patterns are registered before the first event, under different IDs, as the service does at start-up;
  loops over maps visit every key once; the epoch counter does not wrap.\<close>

definition orders_ok :: "loop_orders \<Rightarrow> bool" where
  "orders_ok lo \<longleftrightarrow> enumerates (lo_progresses lo) \<and> (\<forall>k. enumerates (lo_buckets lo k))"

definition map_orders_ok :: "map_orders \<Rightarrow> bool" where
  "map_orders_ok mo \<longleftrightarrow> enumerates (mo_groups mo) \<and> enumerates (mo_strings mo)"

inductive shard_reach :: "core \<Rightarrow> (string \<Rightarrow> cep_event list) \<Rightarrow> bool" where
  reach_new: "shard_reach (NewCore sid rs opts) (\<lambda>_. [])"
| reach_pattern: "shard_reach c (\<lambda>_. []) \<Longrightarrow> c_store c = empty_store \<Longrightarrow>
    patternByID (c_patterns c) (pt_ID p) = None \<Longrightarrow> AddPattern p (c_patterns c) = Inr pats \<Longrightarrow>
    shard_reach (c\<lparr>c_patterns := pats\<rparr>) (\<lambda>_. [])"
| reach_event: "shard_reach c hist \<Longrightarrow> orders_ok lo \<Longrightarrow> ProcessEvent lo e c = (res, c') \<Longrightarrow>
    shard_reach c' (next_hist e c hist)"
| reach_lastSeq: "shard_reach c hist \<Longrightarrow> shard_reach (c\<lparr>c_lastSeq := n\<rparr>) hist"
| reach_BeginReplay: "shard_reach c hist \<Longrightarrow> shard_reach (BeginReplay c) hist"
| reach_EndReplay: "shard_reach c hist \<Longrightarrow> shard_reach (EndReplay c) hist"
| reach_beginSnapshot: "shard_reach c hist \<Longrightarrow> sm_epoch (c_store c) < sm_epoch (c_store c) + 1 \<Longrightarrow>
    beginSnapshot c = (f, c') \<Longrightarrow> shard_reach c' hist"
| reach_endSnapshot: "shard_reach c hist \<Longrightarrow> shard_reach (endSnapshot c) hist"
| reach_Restore: "shard_reach c hist \<Longrightarrow> sm_epoch (c_store c) < sm_epoch (c_store c) + 1 \<Longrightarrow>
    beginSnapshot c = (f, c1) \<Longrightarrow> \<forall>n. orders_ok (los n) \<Longrightarrow> process_all los es c1 = (rs, c2) \<Longrightarrow>
    encode mo f (c_store c2) = Inr data \<Longrightarrow> shard_reach d hist' \<Longrightarrow> c_patterns d = c_patterns c \<Longrightarrow>
    map_orders_ok mo' \<Longrightarrow> Restore mo' data d = (r, d') \<Longrightarrow> shard_reach d' hist"

section \<open>The invariant of reachable shards\<close>

definition calm_view :: "compiled_pattern list \<Rightarrow> (string \<Rightarrow> cep_event list) \<Rightarrow> (string \<rightharpoonup> member_state) \<Rightarrow> bool" where
  "calm_view pats hist V \<longleftrightarrow> (\<forall>m ms. V m = Some ms \<longrightarrow> calm pats (hist m) (ms_Progresses ms))"

definition shard_inv :: "core \<Rightarrow> (string \<Rightarrow> cep_event list) \<Rightarrow> bool" where
  "shard_inv c hist \<longleftrightarrow> core_inv c hist \<and> finite_view (members_view (c_store c)) \<and>
     calm_view (c_patterns c) hist (members_view (c_store c))"

lemma shard_invD:
  assumes "shard_inv c hist"
  shows "core_inv c hist" "finite_view (members_view (c_store c))"
    "calm_view (c_patterns c) hist (members_view (c_store c))"
  using assms by (simp_all add: shard_inv_def)

lemma empty_view [simp]: "members_view empty_store = Map.empty"
  by (simp add: fun_eq_iff)

lemma shard_inv_empty: "core_inv c (\<lambda>_. []) \<Longrightarrow> c_store c = empty_store \<Longrightarrow> shard_inv c (\<lambda>_. [])"
  by (simp add: shard_inv_def finite_view_def calm_view_def)

lemma patterns_ok_empty: "patterns_ok []"
  by (simp add: patterns_ok_def)

lemma shard_inv_pattern:
  assumes "shard_inv c (\<lambda>_. [])" "c_store c = empty_store" "patternByID (c_patterns c) (pt_ID p) = None"
    and "AddPattern p (c_patterns c) = Inr pats"
  shows "shard_inv (c\<lparr>c_patterns := pats\<rparr>) (\<lambda>_. [])"
proof (rule shard_inv_empty)
  obtain cp where cp: "pats = c_patterns c @ [cp]" "cp_pattern cp = p" "cp_ok cp"
    using assms(4) unfolding AddPattern_Inr by blast
  have "pt_ID p \<notin> (\<lambda>cp. pt_ID (cp_pattern cp)) ` set (c_patterns c)"
    using assms(3) by (auto simp: patternByID_def find_None_iff)
  then have "patterns_ok pats"
    using shard_invD(1) [OF assms(1)] cp by (simp add: core_inv_def patterns_ok_def)
  then show "core_inv (c\<lparr>c_patterns := pats\<rparr>) (\<lambda>_. [])"
    using shard_invD(1) [OF assms(1)] by (simp add: core_inv_def assms(2))
qed (simp add: assms(2))

lemma calm_view_event:
  assumes inv: "shard_inv c hist" and lo: "orders_ok lo" and r: "ProcessEvent lo e c = (res, c')"
  shows "calm_view (c_patterns c) (next_hist e c hist) (members_view (c_store c'))"
proof (cases "isLate c (ev_OccurredAt e)")
  note I = shard_invD [OF inv]
  let ?m = "ev_MemberID e" and ?V = "members_view (c_store c)"
  have new: "calm (c_patterns c) (hist ?m) (ms_Progresses (foldEvent w e (view_or_new ?V ?m)))" for w
    using I(3) by (auto simp: calm_view_def view_or_new_def newMemberState_def calm_def split: option.split)
  {
    case True
    show ?thesis
      using late_step(4) [OF I(1) r True] new I(3) True by (simp add: next_hist_def calm_view_def)
  next
    case False
    let ?F = "foldEvent (c_maxWindow c) e (view_or_new ?V ?m)"
    obtain ps ms1 W h where S: "W = ?V(?m \<mapsto> ms1)" "processCEP (c_patterns c) (lo_progresses lo) ?F
        (cepEvent e) (c_watermark c') (c_negDeadlines c) = (ps, ms1, h)"
      "members_view (c_store c') = drop_progresses (overdue W (c_watermark c')) W"
      using on_time_step [OF I(1) r False] by metis
    have fin: "finite (dom (ms_Progresses ?F))"
      using I(2) by (auto simp: view_or_new_def newMemberState_def finite_view_def split: option.split)
    have "calm (c_patterns c) (hist ?m @ [cepEvent e]) (ms_Progresses ms1)"
      using processCEP_calm [OF _ fin new S(2)] lo by (simp add: orders_ok_def)
    then have "calm_view (c_patterns c) (next_hist e c hist) W"
      using I(3) False by (simp add: S(1) calm_view_def next_hist_def)
    then show ?thesis
      unfolding S(3) by (auto simp: calm_view_def drop_progresses_def calm_def split: if_splits)
  }
qed

lemma shard_inv_step:
  assumes "shard_inv c hist" "orders_ok lo" "ProcessEvent lo e c = (res, c')"
  shows "shard_inv c' (next_hist e c hist)"
  using core_inv_step [OF shard_invD(1) [OF assms(1)] assms(3)]
    finite_view_step [OF shard_invD(1,2) [OF assms(1)] assms(3)] calm_view_event [OF assms]
    ProcessEvent_patterns [OF shard_invD(1) [OF assms(1)] assms(3)] by (simp add: shard_inv_def)

lemma shard_inv_run:
  "shard_inv c hist \<Longrightarrow> \<forall>n. orders_ok (los n) \<Longrightarrow>
    shard_inv (snd (process_all los es c)) (run_hist los es c hist)"
proof (induction es arbitrary: los c hist)
  case (Cons e es)
  obtain r c1 where r: "ProcessEvent (los 0) e c = (r, c1)" by fastforce
  obtain rs c2 where rs: "process_all (\<lambda>n. los (Suc n)) es c1 = (rs, c2)" by fastforce
  have lo: "orders_ok (los 0)" "\<forall>n. orders_ok (los (Suc n))" using Cons.prems(2) by simp_all
  show ?case using Cons.IH [OF shard_inv_step [OF Cons.prems(1) lo(1) r] lo(2)] by (simp add: r rs)
qed simp

lemma shard_inv_frame:
  assumes "shard_inv c hist" "store_inv (c_store d)" "members_view (c_store d) = members_view (c_store c)"
    and "c_patterns d = c_patterns c" "c_negDeadlines d = c_negDeadlines c"
  shows "shard_inv d hist"
  using assms by (simp add: shard_inv_def core_inv_def)

text \<open>What a snapshot taken now and encoded later contains.\<close>

lemma encoded_snapshot:
  assumes inv: "core_inv c hist" and wrap: "sm_epoch (c_store c) < sm_epoch (c_store c) + 1"
    and b: "beginSnapshot c = (f, c1)" and run: "process_all los es c1 = (rs, c2)"
    and enc: "encode mo f (c_store c2) = Inr data"
  shows "data = GobSnapshot \<lparr>sn_KeyGroups = group_members (c_store c) (sm_keyGroups (c_store c)),
      sn_WatermarkNanos = c_watermark c, sn_LastSeq = c_lastSeq c\<rparr>"
proof -
  note B = begin_ok [OF inv wrap b]
  have "sm_frozenEpoch (c_store c1) \<noteq> 0" using B(2) by (simp add: frozen_view_def)
  from group_members_spared [OF B(2) process_all_spares [OF B(5) run this]] B(7)
  have "group_members (c_store c2) (fz_state f) = group_members (c_store c) (sm_keyGroups (c_store c))" by simp
  then show ?thesis using enc B(3,4) by (simp add: encode_def gob_encode_def split: if_splits)
qed

lemma restored:
  assumes inv: "shard_inv c hist" and wrap: "sm_epoch (c_store c) < sm_epoch (c_store c) + 1"
    and b: "beginSnapshot c = (f, c1)" and run: "process_all los es c1 = (rs, c2)"
    and enc: "encode mo f (c_store c2) = Inr data" and d: "shard_inv d hist'" "c_patterns d = c_patterns c"
    and mo': "map_orders_ok mo'" and r: "Restore mo' data d = (res, d')"
  shows "res = Inr (c_lastSeq c)" "members_view (c_store d') = members_view (c_store c)"
    "c_watermark d' = c_watermark c" "c_lastSeq d' = c_lastSeq c" "core_inv d' hist" "shard_inv d' hist"
    "d' = d\<lparr>c_store := c_store d', c_watermark := c_watermark c, c_lastSeq := c_lastSeq c,
       c_negDeadlines := c_negDeadlines d'\<rparr>"
proof -
  have "patterns_ok (c_patterns d)" "sm_frozenEpoch (c_store d) \<le> sm_epoch (c_store d)"
    using shard_invD(1) [OF d(1)] by (simp_all add: core_inv_def store_inv_def)
  note R = restore_frozen [OF shard_invD(1,2) [OF inv] this(1) d(2) this(2) _ _
      encoded_snapshot [OF shard_invD(1) [OF inv] wrap b run enc] r]
  show "res = Inr (c_lastSeq c)" "members_view (c_store d') = members_view (c_store c)"
    "c_watermark d' = c_watermark c" "c_lastSeq d' = c_lastSeq c"
    and inv': "core_inv d' hist"
    and fr: "d' = d\<lparr>c_store := c_store d', c_watermark := c_watermark c, c_lastSeq := c_lastSeq c,
       c_negDeadlines := c_negDeadlines d'\<rparr>"
    using R mo' by (simp_all only: map_orders_ok_def)
  have "c_patterns d' = c_patterns c" by (subst fr) (simp add: d(2))
  then show "shard_inv d' hist" using inv inv' R(2) mo' by (simp add: shard_inv_def map_orders_ok_def)
qed

lemma reach_inv: "shard_reach c hist \<Longrightarrow> shard_inv c hist"
proof (induction rule: shard_reach.induct)
  case (reach_new sid rs opts)
  have "NewCore sid rs opts = (NewCore sid rs opts)\<lparr>c_patterns := []\<rparr>"
    using apply_options_frame [of opts] by (simp add: NewCore_def Let_def)
  then have "core_inv (NewCore sid rs opts) (\<lambda>_. [])"
    using core_inv_fresh [of "[]" sid rs opts] by (metis patterns_ok_empty)
  then show ?case
    using apply_options_frame [of opts] by (intro shard_inv_empty) (simp_all add: NewCore_def Let_def)
next
  case (reach_pattern c p pats)
  then show ?case by (intro shard_inv_pattern)
next
  case (reach_event c hist lo e res c')
  then show ?case by (intro shard_inv_step)
next
  case (reach_beginSnapshot c hist f c')
  note B = begin_ok [OF shard_invD(1) [OF reach_beginSnapshot.IH] reach_beginSnapshot.hyps(2,3)]
  have "c_patterns c' = c_patterns c" "members_view (c_store c') = members_view (c_store c)"
    using reach_beginSnapshot.hyps(3) B(1) by (auto simp: beginSnapshot_def same_shard_def split: prod.splits)
  then show ?case using B(5) reach_beginSnapshot.IH by (simp add: shard_inv_def)
next
  case (reach_endSnapshot c hist)
  have u: "members_view (unfreezeState s) = members_view s" for s
    by (auto simp: fun_eq_iff members_view_def member_def member_of_def unfreezeState_def split: option.split)
  have "store_inv (unfreezeState (c_store c))"
    using shard_invD(1) [OF reach_endSnapshot.IH] by (auto simp: core_inv_def store_inv_def group_ok_def unfreezeState_def)
  then show ?case by (intro shard_inv_frame [OF reach_endSnapshot.IH]) (simp_all add: endSnapshot_def u)
next
  case (reach_Restore c hist f c1 los es rs c2 mo data d hist' mo' r d')
  show ?case
    by (rule restored(6) [OF reach_Restore.IH(1) reach_Restore.hyps(2,3,5,6) reach_Restore.IH(2) reach_Restore.hyps(8-10)])
next
  case (reach_lastSeq c hist n)
  note st = shard_invD(1) [OF reach_lastSeq.IH, unfolded core_inv_def, THEN conjunct1]
  show ?case by (rule shard_inv_frame [OF reach_lastSeq.IH]) (simp_all add: st)
next
  case (reach_BeginReplay c hist)
  note st = shard_invD(1) [OF reach_BeginReplay.IH, unfolded core_inv_def, THEN conjunct1]
  show ?case by (rule shard_inv_frame [OF reach_BeginReplay.IH]) (simp_all add: BeginReplay_def st)
next
  case (reach_EndReplay c hist)
  note st = shard_invD(1) [OF reach_EndReplay.IH, unfolded core_inv_def, THEN conjunct1]
  show ?case by (rule shard_inv_frame [OF reach_EndReplay.IH]) (simp_all add: EndReplay_def st)
qed

lemmas reach_facts = shard_invD [OF reach_inv]

section \<open>What matches stand for\<close>

text \<open>The report of a pattern that ends in a negative state: events of the member matched its first
  states in order; no event since then forbade it; the deadline lies before the watermark.\<close>

definition genuine_absence :: "compiled_pattern list \<Rightarrow> cep_event list \<Rightarrow> time \<Rightarrow> match_result \<Rightarrow> bool" where
  "genuine_absence pats hist wm r \<longleftrightarrow> (\<exists>cp es h1 x h2.
     cp \<in> set pats \<and> length es + 1 = length (pt_States (cp_pattern cp)) \<and>
     st_IsNegative (pt_States (cp_pattern cp) ! length es) \<and>
     mr_PatternID r = pt_ID (cp_pattern cp) \<and> mr_PatternName r = pt_Name (cp_pattern cp) \<and>
     follows cp es (mr_Variables r) \<and> subseq es hist \<and>
     mr_MatchedAt r = time_add (ce_OccurredAt (hd es)) (Duration (st_MaxWait (pt_States (cp_pattern cp) ! length es))) \<and>
     mr_MatchedAt r < wm \<and>
     hist = h1 @ x # h2 \<and> ce_EventID x = ce_EventID (last es) \<and>
     (\<forall>y\<in>set h2. ce_EventID y \<notin> ce_EventID ` set es \<longrightarrow> ce_OccurredAt y \<le> mr_MatchedAt r \<longrightarrow>
        \<not> matched (cepMatchState y (cp_compiledStates cp ! length es) (mr_Variables r))))"

lemma fired_is_genuine:
  assumes ok: "members_ok pats hist W h" and calm: "calm_view pats hist W" and pats: "patterns_ok pats"
    and mi: "mi \<in> overdue W wm" and r: "r \<in> set (fired_match pats W mi)"
  shows "genuine_absence pats (hist (mr_MemberID r)) wm r"
proof -
  obtain m i where [simp]: "mi = (m, i)" by fastforce
  obtain p cp where p: "progress_at W mi = Some p" "patternByID pats (pg_PatternID p) = Some cp"
      "r = negativeMatch (cp_pattern cp) p"
  proof -
    obtain p where p: "progress_at W mi = Some p"
      using r by (cases "progress_at W mi") (simp_all add: fired_match_def)
    moreover obtain cp where "patternByID pats (pg_PatternID p) = Some cp"
      using r p by (cases "patternByID pats (pg_PatternID p)") (simp_all add: fired_match_def)
    ultimately show thesis using that r by (simp add: fired_match_def)
  qed
  have d: "pg_NegativeDeadline p \<noteq> zero_time" "pg_NegativeDeadline p < wm"
    using mi p(1) by (auto simp: overdue_def parked_until_def split: if_splits)
  obtain ms where ms: "W m = Some ms" "ms_Progresses ms i = Some p"
    using p(1) by (auto simp: progress_at_def bind_eq_Some_conv)
  note cp = patternByID_SomeD [OF p(2)] patternByID_ok [OF pats p(2)]
  let ?states = "pt_States (cp_pattern cp)"
  have "live_ok pats m (hist m) h i p" using ok ms by (auto simp: members_ok_def cep_ok_def)
  then have live: "progress_ok pats m i p" "explained cp (hist m) p"
    using p(2) by (simp_all add: live_ok_def progress_explained_def)
  have st: "pg_CurrentStep p < length ?states" "pg_MemberID p = m" "pg_NegativeDeadline p = parked_deadline cp p"
    using live(1) p(2) by (simp_all add: progress_ok_def)
  have neg: "st_IsNegative (?states ! pg_CurrentStep p)"
    using d(1) st(3) by (auto simp: parked_deadline_def Let_def split: if_splits)
  have last: "pg_CurrentStep p + 1 = length ?states"
    using cp(2) neg st(1) by (auto simp: cp_ok_def pattern_ok_def)
  obtain es where es: "follows cp es (pg_Variables p)" "subseq es (hist m)" "length es = pg_CurrentStep p"
      "map ce_EventID es = pg_ProcessedEvents p" "ce_OccurredAt (hd es) = pg_StartedAt p"
    using live(2) by (auto simp: explained_def)
  have ne: "es \<noteq> []" by (rule follows_nonempty [OF es(1)])
  obtain h1 x h2 where h: "hist m = h1 @ x # h2" "ce_EventID x = last (pg_ProcessedEvents p)"
      "\<forall>y\<in>set h2. \<not> forbids cp p y"
    using calm ms p(2) neg unfolding calm_view_def calm_def undisturbed_def by blast
  have "ce_EventID x = ce_EventID (last es)" using h(2) es(4) ne by (metis last_map)
  moreover have "ce_EventID ` set es = set (pg_ProcessedEvents p)" using es(4) by (metis set_map)
  ultimately show ?thesis
    using cp es h d st neg last unfolding genuine_absence_def p(3)
    by (intro exI [of _ cp] exI [of _ es] exI [of _ h1] exI [of _ x] exI [of _ h2])
      (auto simp: negativeMatch_def forbids_def parked_deadline_def Let_def)
qed

section \<open>The watermark\<close>

lemma watermark_step:
  assumes inv: "core_inv c hist" and r: "ProcessEvent lo e c = (res, c')"
    and L: "0 \<le> c_allowedLateness c" "i64_range (c_allowedLateness c)"
    and t: "i64_range (ev_OccurredAt e)" "i64_range (ev_OccurredAt e - c_allowedLateness c)"
  shows "c_watermark c' = max (c_watermark c) (ev_OccurredAt e - c_allowedLateness c)"
proof -
  note F = ProcessEvent_frame [OF inv r]
  have "i64 (- c_allowedLateness c) = - c_allowedLateness c" using L by (intro i64_id) auto
  then have "unix_nano (time_add (ev_OccurredAt e) (i64 (- c_allowedLateness c))) = ev_OccurredAt e - c_allowedLateness c"
    "unix_nano (ev_OccurredAt e) = ev_OccurredAt e"
    using t by (simp_all add: unix_nano_def time_add_def)
  then show ?thesis using F(7) L by (auto simp: isLate_def advanceWatermark_def Let_def)
qed

section \<open>Properties of a shard\<close>

text \<open>C4 A shard with its pointers, copy on write and in-flight snapshots refines a plain map from members
  to values: in every reachable state \<^verbatim>\<open>ProcessEvent\<close> reports what the plain map reports,
  and leaves behind what the plain map becomes.\<close>

theorem shard_refines_plain_map:
  assumes "shard_reach c hist" "ProcessEvent lo e c = (res, c')"
  shows "process_view lo e c (members_view (c_store c)) = (res, members_view (c_store c'), c_negDeadlines c')"
  by (rule ProcessEvent_view(2) [OF reach_facts(1) [OF assms(1)] assms(2)])

text \<open>C22 Starting a snapshot is invisible: the decisions on any later events and the members they leave
  are those of a shard that never took one.\<close>

theorem snapshot_is_transparent:
  assumes "shard_reach c hist" "sm_epoch (c_store c) < sm_epoch (c_store c) + 1" "beginSnapshot c = (f, c1)"
  shows "fst (process_all los es c1) = fst (process_all los es c) \<and>
    members_view (c_store (snd (process_all los es c1))) = members_view (c_store (snd (process_all los es c)))"
proof -
  note inv = reach_facts(1) [OF assms(1)]
  show ?thesis
    using same_shard_run [OF begin_ok(1) [OF inv assms(2,3)] inv, of los es] by (simp add: same_shard_def)
qed

text \<open>C5 Every match the engine reports is justified by the member's own events: a sequence match by
  events that matched all states in order, the last of them the current event; a negative match by events
  that matched all states but the last, with no forbidding event among those since, and a deadline that
  the watermark has passed.\<close>

theorem every_match_is_justified:
  assumes "shard_reach c hist" "orders_ok lo" "ProcessEvent lo e c = (res, c')" "r \<in> set (pr_MatchedPatterns res)"
    and "hist' = next_hist e c hist"
  shows "genuine (c_patterns c) (hist' (ev_MemberID e)) (cepEvent e) r \<or>
    genuine_absence (c_patterns c) (hist' (mr_MemberID r)) (c_watermark c') r"
proof -
  note I = reach_facts [OF assms(1)]
  have t: "\<not> isLate c (ev_OccurredAt e)"
    using late_step(1) [OF I(1) assms(3)] assms(4) by (auto simp: no_result_def)
  obtain ps ms1 W h L where S: "W = (members_view (c_store c))(ev_MemberID e \<mapsto> ms1)"
      "processCEP (c_patterns c) (lo_progresses lo)
        (foldEvent (c_maxWindow c) e (view_or_new (members_view (c_store c)) (ev_MemberID e)))
        (cepEvent e) (c_watermark c') (c_negDeadlines c) = (ps, ms1, h)"
      "members_ok (c_patterns c) hist' W h" "list_all (genuine (c_patterns c) (hist' (ev_MemberID e)) (cepEvent e)) ps"
      "set L = overdue W (c_watermark c')"
      "pr_MatchedPatterns res = ps @ concat (map (fired_match (c_patterns c) W) L)"
    using on_time_step [OF I(1) assms(3) t] unfolding assms(5) by metis
  have "calm (c_patterns c) (hist (ev_MemberID e)) (ms_Progresses
      (foldEvent (c_maxWindow c) e (view_or_new (members_view (c_store c)) (ev_MemberID e))))"
    "finite (dom (ms_Progresses
      (foldEvent (c_maxWindow c) e (view_or_new (members_view (c_store c)) (ev_MemberID e)))))"
    using I(2,3) by (auto simp: calm_view_def finite_view_def view_or_new_def newMemberState_def calm_def split: option.split)
  then have "calm (c_patterns c) (hist (ev_MemberID e) @ [cepEvent e]) (ms_Progresses ms1)"
    using processCEP_calm [OF _ _ _ S(2)] assms(2) by (simp add: orders_ok_def)
  then have calm: "calm_view (c_patterns c) hist' W"
    using I(3) t by (simp add: S(1) calm_view_def next_hist_def assms(5))
  have pats: "patterns_ok (c_patterns c)" using I(1) by (simp add: core_inv_def)
  from assms(4) consider "r \<in> set ps" | mi where "mi \<in> overdue W (c_watermark c')" "r \<in> set (fired_match (c_patterns c) W mi)"
    using S(5,6) by auto
  then show ?thesis
  proof cases
    case 1
    then show ?thesis using S(4) by (auto simp: list_all_iff)
  next
    case 2
    then show ?thesis using fired_is_genuine [OF S(3) calm pats] by blast
  qed
qed

text \<open>C6 Negative matches are complete and in order: on an event in time the engine fires exactly the
  progresses that are parked behind the new watermark after the matcher has run, each once, in the order of
  their deadlines, after the sequence matches; none stays behind.\<close>

theorem overdue_matches_fire_exactly:
  assumes "shard_reach c hist" "ProcessEvent lo e c = (res, c')" "\<not> isLate c (ev_OccurredAt e)"
    and "processCEP (c_patterns c) (lo_progresses lo)
       (foldEvent (c_maxWindow c) e (view_or_new (members_view (c_store c)) (ev_MemberID e)))
       (cepEvent e) (c_watermark c') (c_negDeadlines c) = (ps, ms, h)"
    and "W = (members_view (c_store c))(ev_MemberID e \<mapsto> ms)"
  shows "(\<exists>L. distinct L \<and> set L = overdue W (c_watermark c') \<and> sorted (map (\<lambda>mi. the (parked_until W mi)) L) \<and>
      pr_MatchedPatterns res = ps @ concat (map (fired_match (c_patterns c) W) L)) \<and>
    overdue (members_view (c_store c')) (c_watermark c') = {}"
proof -
  obtain ps' ms1 W' h' where S: "W' = (members_view (c_store c))(ev_MemberID e \<mapsto> ms1)"
      "processCEP (c_patterns c) (lo_progresses lo)
        (foldEvent (c_maxWindow c) e (view_or_new (members_view (c_store c)) (ev_MemberID e)))
        (cepEvent e) (c_watermark c') (c_negDeadlines c) = (ps', ms1, h')"
      "\<exists>L. distinct L \<and> set L = overdue W' (c_watermark c') \<and>
       pr_MatchedPatterns res = ps' @ concat (map (fired_match (c_patterns c) W') L) \<and>
       sorted (map (\<lambda>mi. the (parked_until W' mi)) L)"
      "members_view (c_store c') = drop_progresses (overdue W' (c_watermark c')) W'"
    using on_time_step [OF reach_facts(1) [OF assms(1)] assms(2,3)] by metis
  have eq: "ps' = ps" "W' = W" using S(1,2) assms(4,5) by simp_all
  show ?thesis using S(3,4) unfolding eq by (auto simp: overdue_def parked_until_drop)
qed

text \<open>A parked progress outlives the events of other members until the watermark passes its deadline.\<close>

lemma silent_step:
  assumes inv: "core_inv c hist" and p: "progress_at (members_view (c_store c)) (m, i) = Some p"
    and neg: "pg_NegativeDeadline p \<noteq> zero_time" and other: "ev_MemberID e \<noteq> m"
    and r: "ProcessEvent lo e c = (res, c1)" and cp: "patternByID (c_patterns c) (pg_PatternID p) = Some cp"
    and ahead: "\<not> pg_NegativeDeadline p < c_watermark c"
  shows "if pg_NegativeDeadline p < c_watermark c1
    then negativeMatch (cp_pattern cp) p \<in> set (pr_MatchedPatterns res) \<and>
      progress_at (members_view (c_store c1)) (m, i) = None
    else progress_at (members_view (c_store c1)) (m, i) = Some p"
proof (cases "isLate c (ev_OccurredAt e)")
  case True
  note L = late_step [OF inv r True]
  show ?thesis using p other ahead by (simp add: L(3,4) progress_at_def)
next
  case False
  obtain ps ms1 W where W: "W = (members_view (c_store c))(ev_MemberID e \<mapsto> ms1)"
      "\<exists>L. distinct L \<and> set L = overdue W (c_watermark c1) \<and>
       pr_MatchedPatterns res = ps @ concat (map (fired_match (c_patterns c) W) L) \<and>
       sorted (map (\<lambda>mi. the (parked_until W mi)) L)"
      "members_view (c_store c1) = drop_progresses (overdue W (c_watermark c1)) W"
    using on_time_step [OF inv r False] by metis
  have at: "progress_at W (m, i) = Some p" using p other by (simp add: W(1) progress_at_def)
  then have due: "(m, i) \<in> overdue W (c_watermark c1) \<longleftrightarrow> pg_NegativeDeadline p < c_watermark c1"
    using neg by (simp add: overdue_def parked_until_def)
  have "fired_match (c_patterns c) W (m, i) = [negativeMatch (cp_pattern cp) p]"
    using at cp by (simp add: fired_match_def)
  then have "negativeMatch (cp_pattern cp) p \<in> set (pr_MatchedPatterns res)" if "(m, i) \<in> overdue W (c_watermark c1)"
    using W(2) that by force
  then show ?thesis using due at by (simp add: W(3) progress_at_drop)
qed

text \<open>C7 An absence is reported in the end: a progress that is parked on a negative state is reported at the
  very event that lifts the watermark past its deadline, whoever sends that event and however many events of
  other members come before, as long as the member itself stays silent.\<close>

theorem absence_is_reported:
  assumes "shard_reach c hist" "progress_at (members_view (c_store c)) (m, i) = Some p"
    and "pg_NegativeDeadline p \<noteq> zero_time" "\<not> pg_NegativeDeadline p < c_watermark c"
    and "patternByID (c_patterns c) (pg_PatternID p) = Some cp"
    and "\<forall>e\<in>set es. ev_MemberID e \<noteq> m" "process_all los es c = (rs, c')" "pg_NegativeDeadline p < c_watermark c'"
  shows "\<exists>n. n < length es \<and>
    negativeMatch (cp_pattern cp) p \<in> set (pr_MatchedPatterns (rs ! n)) \<and>
    \<not> pg_NegativeDeadline p < c_watermark (snd (process_all los (take n es) c)) \<and>
    pg_NegativeDeadline p < c_watermark (snd (process_all los (take (Suc n) es) c))"
  using reach_facts(1) [OF assms(1)] assms(2-)
proof (induction es arbitrary: los c hist rs)
  case (Cons e es)
  obtain r c1 where r: "ProcessEvent (los 0) e c = (r, c1)" by fastforce
  obtain rs' where rs: "process_all (\<lambda>n. los (Suc n)) es c1 = (rs', c')" "rs = r # rs'"
    using Cons.prems(7) by (auto simp: r split: prod.splits)
  have other: "ev_MemberID e \<noteq> m" "\<forall>e\<in>set es. ev_MemberID e \<noteq> m" using Cons.prems(6) by simp_all
  note S = silent_step [OF Cons.prems(1,2,3) other(1) r Cons.prems(5,4)]
  show ?case
  proof (cases "pg_NegativeDeadline p < c_watermark c1")
    case True
    then show ?thesis using S Cons.prems(4) by (intro exI [of _ 0]) (simp add: rs r)
  next
    case False
    have pats: "c_patterns c1 = c_patterns c" by (rule ProcessEvent_patterns [OF Cons.prems(1) r])
    from Cons.IH [OF core_inv_step [OF Cons.prems(1) r] _ Cons.prems(3) False _ other(2) rs(1) Cons.prems(8)] S False Cons.prems(5)
    obtain n where "n < length es" "negativeMatch (cp_pattern cp) p \<in> set (pr_MatchedPatterns (rs' ! n))"
      "\<not> pg_NegativeDeadline p < c_watermark (snd (process_all (\<lambda>n. los (Suc n)) (take n es) c1))"
      "pg_NegativeDeadline p < c_watermark (snd (process_all (\<lambda>n. los (Suc n)) (take (Suc n) es) c1))"
      by (auto simp: pats)
    then show ?thesis by (intro exI [of _ "Suc n"]) (simp add: rs r case_prod_beta)
  qed
qed simp

text \<open>C11 The watermark is the maximum of its start and of every event's time less the allowed lateness,
  late events included, in whatever order the events arrive: it never moves back.\<close>

theorem watermark_is_the_maximum:
  assumes "shard_reach c hist" "0 \<le> c_allowedLateness c" "i64_range (c_allowedLateness c)"
    and "\<forall>e\<in>set es. i64_range (ev_OccurredAt e) \<and> i64_range (ev_OccurredAt e - c_allowedLateness c)"
  shows "c_watermark (snd (process_all los es c)) =
    Max (insert (c_watermark c) ((\<lambda>e. ev_OccurredAt e - c_allowedLateness c) ` set es))"
  using reach_facts(1) [OF assms(1)] assms(2-4)
proof (induction es arbitrary: los c hist)
  case (Cons e es)
  obtain r c1 where r: "ProcessEvent (los 0) e c = (r, c1)" by fastforce
  obtain rs c2 where rs: "process_all (\<lambda>n. los (Suc n)) es c1 = (rs, c2)" by fastforce
  have L: "c_allowedLateness c1 = c_allowedLateness c" by (rule ProcessEvent_frame(4) [OF Cons.prems(1) r])
  have w: "c_watermark c1 = max (c_watermark c) (ev_OccurredAt e - c_allowedLateness c)"
    using watermark_step [OF Cons.prems(1) r Cons.prems(2,3)] Cons.prems(4) by simp
  have "c_watermark c2 = Max (insert (c_watermark c1) ((\<lambda>e. ev_OccurredAt e - c_allowedLateness c) ` set es))"
    using Cons.IH [OF core_inv_step [OF Cons.prems(1) r], of "\<lambda>n. los (Suc n)"] Cons.prems(2-4)
    by (simp add: rs L)
  then show ?case
    by (cases "es = []") (auto simp: r rs w max.assoc max.commute max.left_commute)
qed simp

text \<open>C12 A late event decides nothing: no rule and no pattern is reported, watermark, deadlines and every
  other member stay; the event still counts in its member's buckets, and goes to the late sink exactly
  when one is set and the shard is not replaying.\<close>

theorem late_events_decide_nothing:
  assumes "shard_reach c hist" "ProcessEvent lo e c = (res, c')" "isLate c (ev_OccurredAt e)"
  shows "res = no_result \<and> c_watermark c' = c_watermark c \<and> c_negDeadlines c' = c_negDeadlines c \<and>
    members_view (c_store c') = (members_view (c_store c))(ev_MemberID e \<mapsto>
       foldEvent (c_maxWindow c) e (view_or_new (members_view (c_store c)) (ev_MemberID e))) \<and>
    c_lateOut c' = c_lateOut c @ (if c_lateSink c \<and> \<not> c_replaying c then [e] else [])"
  using late_step [OF reach_facts(1) [OF assms(1)] assms(2,3)] by simp


text \<open>C32 The order in which an event visits a member's progresses does not matter: two orders report the
  same matches, up to their order, and leave the same progresses.\<close>

theorem progress_order_is_irrelevant:
  assumes "enumerates it" "enumerates it'" "finite (dom (ms_Progresses ms))"
    and "processCEP pats it ms e wm h = (rs, ms1, h1)" "processCEP pats it' ms e wm h = (rs', ms1', h1')"
  shows "mset rs = mset rs' \<and> ms1 = ms1'"
  by (rule processCEP_order [OF assms])

text \<open>Registration accepts exactly the patterns that have a state, start with a positive one, are
  negative at most in their last state and there with a wait, and whose conditions compile.\<close>

theorem AddPattern_accepts:
  "is_ok (AddPattern pat pats) = (pattern_ok pat \<and> list_all (\<lambda>st. rule_wf (st_Condition st)) (pt_States pat))"
  by (rule is_ok_AddPattern)

text \<open>C21 A snapshot restores the moment it was started: whatever events the shard processes before the
  encoder runs, restoring the file gives the members, the watermark and the source position of that moment,
  and a deadline heap that holds every parked progress.\<close>

theorem restore_recovers_the_freeze:
  assumes "shard_reach c hist" "sm_epoch (c_store c) < sm_epoch (c_store c) + 1" "beginSnapshot c = (f, c1)"
    and "process_all los es c1 = (rs, c2)" "encode mo f (c_store c2) = Inr data"
    and "shard_reach d hist'" "c_patterns d = c_patterns c" "map_orders_ok mo'" "Restore mo' data d = (res, d')"
  shows "res = Inr (c_lastSeq c) \<and> members_view (c_store d') = members_view (c_store c) \<and>
    c_watermark d' = c_watermark c \<and> c_lastSeq d' = c_lastSeq c \<and>
    heap_inv (c_negDeadlines d') \<and> all_covered (members_view (c_store d')) (c_negDeadlines d')"
proof -
  note R = restored [OF reach_inv [OF assms(1)] assms(2-5) reach_inv [OF assms(6)] assms(7-9)]
  have "heap_inv (c_negDeadlines d')" "all_covered (members_view (c_store d')) (c_negDeadlines d')"
    using R(5) members_ok_covered by (auto simp: core_inv_eq)
  then show ?thesis using R(1-4) by blast
qed




end
