(* ===== verification/Consumer.thy ===== *)
theory Consumer
  imports Shard
begin

text \<open>
  \<^verbatim>\<open>service/engine/core/consumer.go\<close>, \<^verbatim>\<open>consumer_kafka.go\<close> and
  \<^verbatim>\<open>consumer_nats.go\<close>: the loops that drive a shard from a broker, and the background
  snapshots they take. What comes from outside is an argument of each step: the readings of the clock, the
  outcomes of file operations and broker calls, when the background goroutine runs. A message body is
  the structure that \<^verbatim>\<open>json.Unmarshal\<close> finds in it. Log lines are kept where
  the code chooses between them.
\<close>

section \<open>Messages and files\<close>

datatype message_body = JsonEvent behavior_event | NotJson

datatype consumer_error =
    EDecodeJSON
  | EMissingID
  | EEncode snapshot_error
  | EWriteFile
  | ERename
  | ERestoreFile snapshot_error
  | EListOffsets
  | EEndOffset
  | EEnsureStream
  | EStreamInfo
  | ECreateConsumer
  | EIterator
  | ENextMessage
  | EAck

definition decodeEvent :: "message_body \<Rightarrow> consumer_error + behavior_event" where
  "decodeEvent data = (case data of
     NotJson \<Rightarrow> Inl EDecodeJSON
   | JsonEvent ev \<Rightarrow> if ev_EventID ev = [] \<or> ev_MemberID ev = [] then Inl EMissingID else Inr ev)"

type_synonym files = "string \<rightharpoonup> gob_bytes"

text \<open>How writing a file and renaming it may go; a failed write may leave a torn file.\<close>

datatype write_outcome = WriteOk | WriteFails "gob_bytes option" | RenameFails

definition writeSnapshotFile :: "write_outcome \<Rightarrow> string \<Rightarrow> gob_bytes \<Rightarrow> files \<Rightarrow> consumer_error option \<times> files" where
  "writeSnapshotFile w path data fs =
     (let tmp = path @ ''.tmp'' in
      case w of
        WriteFails left \<Rightarrow> (Some EWriteFile, case left of None \<Rightarrow> fs | Some b \<Rightarrow> fs(tmp \<mapsto> b))
      | RenameFails \<Rightarrow> (Some ERename, fs(tmp \<mapsto> data))
      | WriteOk \<Rightarrow> (None, fs(tmp := None, path \<mapsto> data)))"

definition snapshotToFile :: "map_orders \<Rightarrow> write_outcome \<Rightarrow> string \<Rightarrow> core \<Rightarrow> files \<Rightarrow>
    consumer_error option \<times> core \<times> files" where
  "snapshotToFile mo w path c fs =
     (let (r, c1) = Snapshot mo c in
      case r of
        Inl e \<Rightarrow> (Some (EEncode e), c1, fs)
      | Inr data \<Rightarrow> (let (e, fs1) = writeSnapshotFile w path data fs in (e, c1, fs1)))"

section \<open>Background snapshots (consumer.go)\<close>

text \<open>The channel \<^verbatim>\<open>done\<close> with the goroutine behind it: none, running, or its error sent.\<close>

datatype job = Running frozen_snapshot | Finished "consumer_error option"

record async_snapshotter =
  as_path :: string
  as_interval :: duration
  as_last :: time
  as_done :: "job option"

datatype snapshot_log = SnapshotFailed consumer_error duration | SnapshotSlow duration | SnapshotWritten duration

text \<open>A shard with its snapshotter, the file system and the log.\<close>

record consumer =
  co_core :: core
  co_snap :: async_snapshotter
  co_files :: files
  co_log :: "snapshot_log list"

definition newAsyncSnapshotter :: "string \<Rightarrow> duration \<Rightarrow> time \<Rightarrow> async_snapshotter" where
  "newAsyncSnapshotter path interval now = \<lparr>as_path = path, as_interval = interval, as_last = now, as_done = None\<rparr>"

definition finish :: "time \<Rightarrow> consumer_error option \<Rightarrow> consumer \<Rightarrow> consumer" where
  "finish now err co =
     (let s = co_snap co; took = time_sub now (as_last s)
      in co\<lparr>co_core := endSnapshot (co_core co), co_snap := s\<lparr>as_done := None\<rparr>,
            co_log := co_log co @ [case err of
                Some e \<Rightarrow> SnapshotFailed e took
              | None \<Rightarrow> if as_interval s < took then SnapshotSlow took else SnapshotWritten took]\<rparr>)"

text \<open>The part of \<^verbatim>\<open>tick\<close> after the snapshotter is idle: \<open>t1\<close> is read for
  the interval, \<open>t2\<close> for the new start.\<close>

definition startSnapshot :: "time \<Rightarrow> time \<Rightarrow> consumer \<Rightarrow> consumer" where
  "startSnapshot t1 t2 co =
     (let s = co_snap co in
      if time_sub t1 (as_last s) < as_interval s then co
      else (let (f, c1) = beginSnapshot (co_core co)
            in co\<lparr>co_core := c1, co_snap := s\<lparr>as_last := t2, as_done := Some (Running f)\<rparr>\<rparr>))"

definition tick :: "time \<times> time \<times> time \<Rightarrow> consumer \<Rightarrow> consumer" where
  "tick clk co =
     (let (t0, t1, t2) = clk; s = co_snap co in
      if as_path s = [] \<or> as_interval s \<le> 0 then co
      else case as_done s of
        None \<Rightarrow> startSnapshot t1 t2 co
      | Some (Running f) \<Rightarrow> co
      | Some (Finished err) \<Rightarrow> startSnapshot t1 t2 (finish t0 err co))"

text \<open>The body of the goroutine. It reads the frozen view in the cells as they are when it runs.\<close>

definition background :: "map_orders \<Rightarrow> write_outcome \<Rightarrow> consumer \<Rightarrow> consumer" where
  "background mo w co =
     (let s = co_snap co in
      case as_done s of
        Some (Running f) \<Rightarrow>
          (case encode mo f (c_store (co_core co)) of
             Inl e \<Rightarrow> co\<lparr>co_snap := s\<lparr>as_done := Some (Finished (Some (EEncode e)))\<rparr>\<rparr>
           | Inr data \<Rightarrow>
               (let (e, fs) = writeSnapshotFile w (as_path s) data (co_files co)
                in co\<lparr>co_snap := s\<lparr>as_done := Some (Finished e)\<rparr>, co_files := fs\<rparr>))
      | _ \<Rightarrow> co)"

text \<open>Waiting for the channel lets the goroutine run to its end.\<close>

definition await_snapshot :: "time \<Rightarrow> map_orders \<Rightarrow> write_outcome \<Rightarrow> consumer \<Rightarrow> consumer" where
  "await_snapshot t mo w co =
     (let co1 = background mo w co in
      case as_done (co_snap co1) of Some (Finished err) \<Rightarrow> finish t err co1 | _ \<Rightarrow> co1)"

definition drain :: "time \<Rightarrow> map_orders \<Rightarrow> write_outcome \<Rightarrow> write_outcome \<Rightarrow> consumer \<Rightarrow> consumer_error option \<times> consumer" where
  "drain t mo w w' co =
     (if as_path (co_snap co) = [] then (None, co)
      else
        (let co1 = (if as_done (co_snap co) \<noteq> None then await_snapshot t mo w co else co);
             (e, c1, fs) = snapshotToFile mo w' (as_path (co_snap co1)) (co_core co1) (co_files co1)
         in (e, co1\<lparr>co_core := c1, co_files := fs\<rparr>)))"

section \<open>A consumer over its life\<close>

text \<open>What a freeze of the shard, taken now, holds.\<close>

definition freeze_of :: "core \<Rightarrow> snapshot" where
  "freeze_of c = \<lparr>sn_KeyGroups = group_members (c_store c) (sm_keyGroups (c_store c)),
     sn_WatermarkNanos = c_watermark c, sn_LastSeq = c_lastSeq c\<rparr>"

text \<open>The steps both backends are made of, in any order. The ghost lists hold the history of the members
  and the freezes at each tick and at the final drain; \<open>fs0\<close> are the files at start-up.\<close>

inductive consumer_reach :: "files \<Rightarrow> consumer \<Rightarrow> (string \<Rightarrow> cep_event list) \<Rightarrow> snapshot list \<Rightarrow> bool" for fs0 where
  cr_start: "shard_reach c hist \<Longrightarrow> sm_frozenEpoch (c_store c) = 0 \<Longrightarrow>
    consumer_reach fs0 \<lparr>co_core = c, co_snap = newAsyncSnapshotter path iv now, co_files = fs0, co_log = []\<rparr> hist []"
| cr_event: "consumer_reach fs0 co hist gs \<Longrightarrow> orders_ok lo \<Longrightarrow> ProcessEvent lo e (co_core co) = (res, c') \<Longrightarrow>
    consumer_reach fs0 (co\<lparr>co_core := c'\<rparr>) (next_hist e (co_core co) hist) gs"
| cr_lastSeq: "consumer_reach fs0 co hist gs \<Longrightarrow>
    consumer_reach fs0 (co\<lparr>co_core := (co_core co)\<lparr>c_lastSeq := n\<rparr>\<rparr>) hist gs"
| cr_EndReplay: "consumer_reach fs0 co hist gs \<Longrightarrow> consumer_reach fs0 (co\<lparr>co_core := EndReplay (co_core co)\<rparr>) hist gs"
| cr_tick: "consumer_reach fs0 co hist gs \<Longrightarrow> sm_epoch (c_store (co_core co)) < sm_epoch (c_store (co_core co)) + 1 \<Longrightarrow>
    consumer_reach fs0 (tick clk co) hist (gs @ [freeze_of (co_core co)])"
| cr_background: "consumer_reach fs0 co hist gs \<Longrightarrow> consumer_reach fs0 (background mo w co) hist gs"
| cr_drain: "consumer_reach fs0 co hist gs \<Longrightarrow> sm_epoch (c_store (co_core co)) < sm_epoch (c_store (co_core co)) + 1 \<Longrightarrow>
    drain t mo w w' co = (e, co') \<Longrightarrow> consumer_reach fs0 co' hist (gs @ [freeze_of (co_core co)])"

definition whole_file :: "files \<Rightarrow> snapshot list \<Rightarrow> string \<Rightarrow> files \<Rightarrow> bool" where
  "whole_file fs0 gs path fs \<longleftrightarrow> fs path = fs0 path \<or> (\<exists>s\<in>set gs. fs path = Some (GobSnapshot s))"

text \<open>A running job sees its freeze; without a job nothing is frozen.\<close>

definition job_ok :: "snapshot list \<Rightarrow> consumer \<Rightarrow> bool" where
  "job_ok gs co \<longleftrightarrow> (case as_done (co_snap co) of
     None \<Rightarrow> sm_frozenEpoch (c_store (co_core co)) = 0
   | Some (Running f) \<Rightarrow> frozen_view (c_store (co_core co)) (fz_state f) \<and>
       \<lparr>sn_KeyGroups = group_members (c_store (co_core co)) (fz_state f), sn_WatermarkNanos = fz_watermarkNanos f,
        sn_LastSeq = fz_lastSeq f\<rparr> \<in> set gs
   | Some (Finished e) \<Rightarrow> True)"

definition consumer_inv :: "files \<Rightarrow> consumer \<Rightarrow> (string \<Rightarrow> cep_event list) \<Rightarrow> snapshot list \<Rightarrow> bool" where
  "consumer_inv fs0 co hist gs \<longleftrightarrow> shard_reach (co_core co) hist \<and> job_ok gs co \<and>
     whole_file fs0 gs (as_path (co_snap co)) (co_files co)"

interpretation frozen: store_relation "\<lambda>st st1. sm_frozenEpoch st1 = sm_frozenEpoch st"
proof unfold_locales
  fix st m a st1 ms
  assume "store_inv st" "memberForWrite m st = (a, st1)"
  then have "sm_frozenEpoch st1 = sm_frozenEpoch st" using memberForWrite_ok by blast
  then show "sm_frozenEpoch (put_member a ms st1) = sm_frozenEpoch st" by simp
qed simp_all

lemma whole_file_more: "whole_file fs0 gs path fs \<Longrightarrow> whole_file fs0 (gs @ gs') path fs"
  by (auto simp: whole_file_def)

lemma job_ok_more: "job_ok gs co \<Longrightarrow> job_ok (gs @ gs') co"
  by (auto simp: job_ok_def split: option.splits job.splits)

lemma write_whole:
  assumes "writeSnapshotFile w path (GobSnapshot s) fs = (e, fs')" "s \<in> set gs" "whole_file fs0 gs path fs"
  shows "whole_file fs0 gs path fs'"
  using assms unfolding writeSnapshotFile_def whole_file_def Let_def
  by (auto split: write_outcome.splits option.splits)

lemma write_error_keeps:
  assumes "writeSnapshotFile w path data fs = (e, fs')"
  shows "fs' path = (if e = None then Some data else fs path)" "w = WriteOk \<Longrightarrow> e = None"
  using assms unfolding writeSnapshotFile_def Let_def by (auto split: write_outcome.splits option.splits)

lemma encode_Inr: "encode mo f st = Inr data \<Longrightarrow> data = GobSnapshot \<lparr>sn_KeyGroups = group_members st (fz_state f),
    sn_WatermarkNanos = fz_watermarkNanos f, sn_LastSeq = fz_lastSeq f\<rparr>"
  by (simp add: encode_def gob_encode_def split: if_splits)

lemma begin_freeze:
  assumes "core_inv c hist" "sm_epoch (c_store c) < sm_epoch (c_store c) + 1" "beginSnapshot c = (f, c1)"
  shows "frozen_view (c_store c1) (fz_state f)"
    "\<lparr>sn_KeyGroups = group_members (c_store c1) (fz_state f), sn_WatermarkNanos = fz_watermarkNanos f,
      sn_LastSeq = fz_lastSeq f\<rparr> = freeze_of c"
proof -
  note B = begin_ok [OF assms]
  show "frozen_view (c_store c1) (fz_state f)" by (rule B(2))
  show "\<lparr>sn_KeyGroups = group_members (c_store c1) (fz_state f), sn_WatermarkNanos = fz_watermarkNanos f,
      sn_LastSeq = fz_lastSeq f\<rparr> = freeze_of c" by (simp add: freeze_of_def B(3,4,7))
qed

lemma freeze_of_end [simp]: "freeze_of (endSnapshot c) = freeze_of c"
  by (simp add: freeze_of_def endSnapshot_def unfreezeState_def group_members_def fun_eq_iff)

lemma end_simps [simp]: "sm_frozenEpoch (c_store (endSnapshot c)) = 0" "sm_epoch (c_store (endSnapshot c)) = sm_epoch (c_store c)"
  by (simp_all add: endSnapshot_def unfreezeState_def)

lemma finish_inv:
  assumes "consumer_inv fs0 co hist gs"
  shows "consumer_inv fs0 (finish t err co) hist gs" "freeze_of (co_core (finish t err co)) = freeze_of (co_core co)"
    "sm_epoch (c_store (co_core (finish t err co))) = sm_epoch (c_store (co_core co))"
    "as_path (co_snap (finish t err co)) = as_path (co_snap co)"
  using assms reach_endSnapshot by (auto simp: consumer_inv_def finish_def Let_def job_ok_def)

lemma startSnapshot_inv:
  assumes "consumer_inv fs0 co hist gs" and wrap: "sm_epoch (c_store (co_core co)) < sm_epoch (c_store (co_core co)) + 1"
    and fz: "freeze_of (co_core co) = s"
  shows "consumer_inv fs0 (startSnapshot t1 t2 co) hist (gs @ [s])"
proof -
  have I: "shard_reach (co_core co) hist" "job_ok gs co" "whole_file fs0 gs (as_path (co_snap co)) (co_files co)"
    using assms(1) by (simp_all add: consumer_inv_def)
  obtain f c1 where b: "beginSnapshot (co_core co) = (f, c1)" by fastforce
  note F = begin_freeze [OF reach_facts(1) [OF I(1)] wrap b]
  have "shard_reach c1 hist" by (rule reach_beginSnapshot [OF I(1) wrap b])
  then show ?thesis
    using I(1) job_ok_more [OF I(2)] whole_file_more [OF I(3)] F fz
    by (simp add: startSnapshot_def Let_def b consumer_inv_def job_ok_def)
qed

lemma tick_inv:
  assumes inv: "consumer_inv fs0 co hist gs" and wrap: "sm_epoch (c_store (co_core co)) < sm_epoch (c_store (co_core co)) + 1"
  shows "consumer_inv fs0 (tick clk co) hist (gs @ [freeze_of (co_core co)])"
proof -
  have id: "consumer_inv fs0 co hist (gs @ [freeze_of (co_core co)])"
    using inv by (simp add: consumer_inv_def whole_file_more job_ok_more)
  obtain t0 t1 t2 where [simp]: "clk = (t0, t1, t2)" by (cases clk) auto
  show ?thesis
    using id startSnapshot_inv [OF inv wrap refl] startSnapshot_inv [OF finish_inv(1) [OF inv]] finish_inv(2-) [OF inv] wrap
    by (auto simp: tick_def Let_def split: option.splits job.splits)
qed

lemma background_inv:
  assumes inv: "consumer_inv fs0 co hist gs"
  shows "consumer_inv fs0 (background mo w co) hist gs" "co_core (background mo w co) = co_core co"
    "as_path (co_snap (background mo w co)) = as_path (co_snap co)"
    "\<forall>f. as_done (co_snap (background mo w co)) \<noteq> Some (Running f)"
    "as_done (co_snap (background mo w co)) = None \<longleftrightarrow> as_done (co_snap co) = None"
proof -
  show "co_core (background mo w co) = co_core co" "as_path (co_snap (background mo w co)) = as_path (co_snap co)"
    "\<forall>f. as_done (co_snap (background mo w co)) \<noteq> Some (Running f)"
    "as_done (co_snap (background mo w co)) = None \<longleftrightarrow> as_done (co_snap co) = None"
    by (auto simp: background_def Let_def split: option.splits job.splits sum.splits prod.splits)
  have I: "shard_reach (co_core co) hist" "job_ok gs co" "whole_file fs0 gs (as_path (co_snap co)) (co_files co)"
    using inv by (simp_all add: consumer_inv_def)
  show "consumer_inv fs0 (background mo w co) hist gs"
  proof (cases "\<exists>f. as_done (co_snap co) = Some (Running f)")
    case True
    then obtain f where f: "as_done (co_snap co) = Some (Running f)" by blast
    let ?s = "\<lparr>sn_KeyGroups = group_members (c_store (co_core co)) (fz_state f),
        sn_WatermarkNanos = fz_watermarkNanos f, sn_LastSeq = fz_lastSeq f\<rparr>"
    show ?thesis
    proof (cases "encode mo f (c_store (co_core co))")
      case (Inl e)
      then show ?thesis using I f by (simp add: background_def consumer_inv_def job_ok_def)
    next
      case (Inr data)
      obtain e fs where w: "writeSnapshotFile w (as_path (co_snap co)) data (co_files co) = (e, fs)" by fastforce
      have "?s \<in> set gs" using I(2) f by (simp add: job_ok_def)
      then have "whole_file fs0 gs (as_path (co_snap co)) fs" using write_whole w I(3) encode_Inr [OF Inr] by blast
      then show ?thesis using I(1) f Inr w by (simp add: background_def consumer_inv_def job_ok_def)
    qed
  next
    case False
    then have "background mo w co = co" by (auto simp: background_def Let_def split: option.splits job.splits)
    then show ?thesis using inv by simp
  qed
qed

lemma await_inv:
  assumes inv: "consumer_inv fs0 co hist gs"
  shows "consumer_inv fs0 (await_snapshot t mo w co) hist gs"
    "as_path (co_snap (await_snapshot t mo w co)) = as_path (co_snap co)"
    "freeze_of (co_core (await_snapshot t mo w co)) = freeze_of (co_core co)"
    "sm_epoch (c_store (co_core (await_snapshot t mo w co))) = sm_epoch (c_store (co_core co))"
    "as_done (co_snap co) \<noteq> None \<Longrightarrow> as_done (co_snap (await_snapshot t mo w co)) = None"
proof -
  note B = background_inv [OF inv, of mo w]
  note F = finish_inv [OF B(1), of t]
  show "consumer_inv fs0 (await_snapshot t mo w co) hist gs"
    "as_path (co_snap (await_snapshot t mo w co)) = as_path (co_snap co)"
    "freeze_of (co_core (await_snapshot t mo w co)) = freeze_of (co_core co)"
    "sm_epoch (c_store (co_core (await_snapshot t mo w co))) = sm_epoch (c_store (co_core co))"
    using B F by (auto simp: await_snapshot_def Let_def split: option.split job.split)
  show "as_done (co_snap co) \<noteq> None \<Longrightarrow> as_done (co_snap (await_snapshot t mo w co)) = None"
    using B(4,5) by (auto simp: await_snapshot_def Let_def finish_def split: option.splits job.splits)
qed

lemma final_snapshot:
  assumes reach: "shard_reach c hist" and wrap: "sm_epoch (c_store c) < sm_epoch (c_store c) + 1"
    and s: "snapshotToFile mo w path c fs = (e, c', fs')"
  shows "shard_reach c' hist" "sm_frozenEpoch (c_store c') = 0"
    "fs' path = (if e = None then Some (GobSnapshot (freeze_of c)) else fs path)"
    "whole_file fs0 gs path fs \<Longrightarrow> freeze_of c \<in> set gs \<Longrightarrow> whole_file fs0 gs path fs'"
proof -
  obtain f c1 where b: "beginSnapshot c = (f, c1)" by fastforce
  note F = begin_freeze [OF reach_facts(1) [OF reach] wrap b]
  have S: "Snapshot mo c = (encode mo f (c_store c1), endSnapshot c1)" by (simp add: Snapshot_def b)
  have c': "c' = endSnapshot c1" using s by (auto simp: snapshotToFile_def S Let_def split: sum.splits prod.splits)
  show "shard_reach c' hist" unfolding c' by (rule reach_endSnapshot [OF reach_beginSnapshot [OF reach wrap b]])
  show "sm_frozenEpoch (c_store c') = 0" by (simp add: c')
  have out: "(\<exists>e1. e = Some e1 \<and> fs' = fs) \<or> writeSnapshotFile w path (GobSnapshot (freeze_of c)) fs = (e, fs')"
    using s encode_Inr [of mo f "c_store c1"] F(2)
    by (cases "encode mo f (c_store c1)") (auto simp: snapshotToFile_def S Let_def split: prod.splits)
  then show "fs' path = (if e = None then Some (GobSnapshot (freeze_of c)) else fs path)"
    using out write_error_keeps(1) by fastforce
  show "whole_file fs0 gs path fs \<Longrightarrow> freeze_of c \<in> set gs \<Longrightarrow> whole_file fs0 gs path fs'"
    using out write_whole by blast
qed

lemma drain_inv:
  assumes inv: "consumer_inv fs0 co hist gs" and wrap: "sm_epoch (c_store (co_core co)) < sm_epoch (c_store (co_core co)) + 1"
    and d: "drain t mo w w' co = (e, co')"
  shows "consumer_inv fs0 co' hist (gs @ [freeze_of (co_core co)])"
    "as_path (co_snap co) \<noteq> [] \<Longrightarrow> e = None \<Longrightarrow>
       co_files co' (as_path (co_snap co)) = Some (GobSnapshot (freeze_of (co_core co)))"
proof -
  have more: "consumer_inv fs0 x hist gs \<Longrightarrow> consumer_inv fs0 x hist (gs @ [s])" for x s
    by (simp add: consumer_inv_def whole_file_more job_ok_more)
  define co1 where "co1 = (if as_done (co_snap co) \<noteq> None then await_snapshot t mo w co else co)"
  have C: "consumer_inv fs0 co1 hist gs" "as_path (co_snap co1) = as_path (co_snap co)"
    "freeze_of (co_core co1) = freeze_of (co_core co)" "sm_epoch (c_store (co_core co1)) = sm_epoch (c_store (co_core co))"
    "as_done (co_snap co1) = None"
    using inv await_inv [OF inv] by (simp_all add: co1_def)
  obtain e2 c1 fs where s: "snapshotToFile mo w' (as_path (co_snap co1)) (co_core co1) (co_files co1) = (e2, c1, fs)"
    by (metis prod_cases3)
  have reach: "shard_reach (co_core co1) hist" and wrap1: "sm_epoch (c_store (co_core co1)) < sm_epoch (c_store (co_core co1)) + 1"
    and wh: "whole_file fs0 (gs @ [freeze_of (co_core co)]) (as_path (co_snap co1)) (co_files co1)"
    using C(1) wrap whole_file_more by (auto simp: consumer_inv_def C(4))
  note S = final_snapshot [OF reach wrap1 s]
  have r: "(e, co') = (if as_path (co_snap co) = [] then (None, co) else (e2, co1\<lparr>co_core := c1, co_files := fs\<rparr>))"
    using d s unfolding drain_def co1_def [symmetric] Let_def by (auto split: if_splits)
  show "consumer_inv fs0 co' hist (gs @ [freeze_of (co_core co)])"
    using r more [OF inv] S(1,2) S(4) [OF wh] C(3,5)
    by (auto simp: consumer_inv_def job_ok_def split: if_splits)
  show "as_path (co_snap co) \<noteq> [] \<Longrightarrow> e = None \<Longrightarrow>
      co_files co' (as_path (co_snap co)) = Some (GobSnapshot (freeze_of (co_core co)))"
    using r S(3) by (simp add: C(2,3))
qed

lemma event_keeps_job:
  assumes job: "job_ok gs co" and ci: "core_inv (co_core co) hist" and p: "ProcessEvent lo e (co_core co) = (res, c')"
  shows "job_ok gs (co\<lparr>co_core := c'\<rparr>)"
proof -
  have fz: "sm_frozenEpoch (c_store c') = sm_frozenEpoch (c_store (co_core co))"
    by (rule frozen.ProcessEvent_rel [OF ci p])
  have "frozen_view (c_store c') v \<and> group_members (c_store c') v = group_members (c_store (co_core co)) v"
    if v: "frozen_view (c_store (co_core co)) v" for v
  proof -
    have "sm_frozenEpoch (c_store (co_core co)) \<noteq> 0" using v by (simp add: frozen_view_def)
    then have "spares_frozen (c_store (co_core co)) (c_store c')"
      using spares.ProcessEvent_rel [OF ci p] by blast
    then show ?thesis using frozen_view_spared(1) [OF v] group_members_spared [OF v] by blast
  qed
  then show ?thesis using job fz by (auto simp: job_ok_def split: option.splits job.splits)
qed

lemma consumer_reach_inv: "consumer_reach fs0 co hist gs \<Longrightarrow> consumer_inv fs0 co hist gs"
proof (induction rule: consumer_reach.induct)
  case (cr_start c hist path iv now)
  then show ?case by (simp add: consumer_inv_def job_ok_def whole_file_def newAsyncSnapshotter_def)
next
  case (cr_event co hist gs lo e res c')
  have I: "shard_reach (co_core co) hist" "job_ok gs co" "whole_file fs0 gs (as_path (co_snap co)) (co_files co)"
    using cr_event.IH by (simp_all add: consumer_inv_def)
  note J = event_keeps_job [OF I(2) reach_facts(1) [OF I(1)] cr_event.hyps(3)]
  then show ?case using reach_event [OF I(1) cr_event.hyps(2,3)] I(3) by (simp add: consumer_inv_def)
next
  case (cr_lastSeq co hist gs n)
  then show ?case using reach_lastSeq by (auto simp: consumer_inv_def job_ok_def split: option.splits job.splits)
next
  case (cr_EndReplay co hist gs)
  then show ?case using reach_EndReplay
    by (auto simp: consumer_inv_def job_ok_def EndReplay_def split: option.splits job.splits)
qed (auto intro: tick_inv background_inv(1) drain_inv(1))

text \<open>C14 Whatever fails, the snapshot file is never torn: at every moment it is the file found at start-up or
  one whole freeze of the shard, taken at a tick or at the final drain; and a shard with no snapshot under
  way has no frozen state, so it clones nothing.\<close>

theorem snapshot_file_is_whole:
  assumes "consumer_reach fs0 co hist gs"
  shows "(co_files co (as_path (co_snap co)) = fs0 (as_path (co_snap co)) \<or>
      (\<exists>s\<in>set gs. co_files co (as_path (co_snap co)) = Some (GobSnapshot s))) \<and>
    (as_done (co_snap co) = None \<longrightarrow> sm_frozenEpoch (c_store (co_core co)) = 0)"
  using consumer_reach_inv [OF assms] by (auto simp: consumer_inv_def whole_file_def job_ok_def)

text \<open>A clean shutdown leaves a checkpoint of the shard as it is: when the final snapshot reports no error,
  the file holds the members, watermark and position of that moment, in whatever state the last background
  snapshot was.\<close>

theorem drain_checkpoints_the_shard:
  assumes "consumer_reach fs0 co hist gs" "sm_epoch (c_store (co_core co)) < sm_epoch (c_store (co_core co)) + 1"
    and "drain t mo w w' co = (None, co')" "as_path (co_snap co) \<noteq> []"
  shows "co_files co' (as_path (co_snap co)) = Some (GobSnapshot
    \<lparr>sn_KeyGroups = group_members (c_store (co_core co)) (sm_keyGroups (c_store (co_core co))),
     sn_WatermarkNanos = c_watermark (co_core co), sn_LastSeq = c_lastSeq (co_core co)\<rparr>)"
  using drain_inv(2) [OF consumer_reach_inv [OF assms(1)] assms(2,3,4)] by (simp add: freeze_of_def)

section \<open>What an event does to the outside\<close>

lemma drain_outside:
  "drainNegativeMatches wm c = (rs, c') \<Longrightarrow> c_lateOut c' = c_lateOut c \<and> c_lateSink c' = c_lateSink c \<and>
    c_replaying c' = c_replaying c \<and> c_lastSeq c' = c_lastSeq c"
proof (induction wm c arbitrary: rs c' rule: drainNegativeMatches.induct)
  case (1 wm c)
  show ?case
  proof (cases "c_negDeadlines c = [] \<or> \<not> nd_Deadline (c_negDeadlines c ! 0) < wm")
    case True
    then show ?thesis using "1.prems" by (subst (asm) drainNegativeMatches.simps) simp
  next
    case False
    obtain x h where p: "heap_Pop (c_negDeadlines c) = (x, h)" by fastforce
    obtain r1 st where f: "fireEntry (c_patterns c) (c_negDeadlines c ! 0) (c_store c) = (r1, st)" by fastforce
    obtain r2 c2 where d: "drainNegativeMatches wm (c\<lparr>c_negDeadlines := h, c_store := st\<rparr>) = (r2, c2)" by fastforce
    have "c' = c2" using "1.prems" False p f d by (subst (asm) drainNegativeMatches.simps) simp
    then show ?thesis using "1.IH" [OF False p [symmetric] refl f [symmetric] refl d] by simp
  qed
qed

text \<open>\<^verbatim>\<open>ProcessEvent\<close> acts on the outside only through the late sink, and there only when
  the shard is not replaying.\<close>

definition sink_calls :: "core \<Rightarrow> behavior_event \<Rightarrow> behavior_event list" where
  "sink_calls c e = (if isLate c (ev_OccurredAt e) \<and> c_lateSink c \<and> \<not> c_replaying c then [e] else [])"

lemma advance_outside [simp]:
  "c_lateOut (advanceWatermark t c) = c_lateOut c" "c_lateSink (advanceWatermark t c) = c_lateSink c"
  "c_replaying (advanceWatermark t c) = c_replaying c" "c_lastSeq (advanceWatermark t c) = c_lastSeq c"
  by (simp_all add: advanceWatermark_def Let_def)

lemma ProcessEvent_outside:
  assumes "ProcessEvent lo e c = (res, c')"
  shows "c_lateOut c' = c_lateOut c @ sink_calls c e" "c_lateSink c' = c_lateSink c" "c_replaying c' = c_replaying c"
    "c_lastSeq c' = c_lastSeq c"
proof -
  have "c_lateOut c' = c_lateOut c @ sink_calls c e \<and> c_lateSink c' = c_lateSink c \<and> c_replaying c' = c_replaying c \<and>
    c_lastSeq c' = c_lastSeq c"
  proof (cases "isLate c (ev_OccurredAt e)")
    case True
    then show ?thesis using assms by (auto simp: ProcessEvent_def Let_def sink_calls_def split: prod.splits if_splits)
  next
    case False
    obtain a st where w: "memberForWrite (ev_MemberID e) (c_store c) = (a, st)" by fastforce
    let ?ms = "foldEvent (c_maxWindow c) e (sm_members st a)"
    let ?c2 = "advanceWatermark (ev_OccurredAt e) (c\<lparr>c_store := put_member a ?ms st\<rparr>)"
    obtain ps ms1 h where cep: "processCEP (c_patterns ?c2) (lo_progresses lo) ?ms (cepEvent e) (Watermark ?c2)
        (c_negDeadlines ?c2) = (ps, ms1, h)" by (metis prod_cases3)
    let ?c3 = "?c2\<lparr>c_store := put_member a ms1 (c_store ?c2), c_negDeadlines := h\<rparr>"
    obtain ex c4 where d: "drainNegativeMatches (Watermark ?c2) ?c3 = (ex, c4)" by fastforce
    have "c' = c4" using assms False cep d unfolding ProcessEvent_def w Let_def by simp
    then show ?thesis using drain_outside [OF d] False by (simp add: sink_calls_def)
  qed
  then show "c_lateOut c' = c_lateOut c @ sink_calls c e" "c_lateSink c' = c_lateSink c" "c_replaying c' = c_replaying c"
    "c_lastSeq c' = c_lastSeq c" by blast+
qed

section \<open>The interface of the backends (EventConsumer)\<close>

text \<open>The events that a list of messages holds, and the part of the list that is live: what follows the
  message that ends the replay.\<close>

definition events_in :: "('i \<Rightarrow> message_body) \<Rightarrow> 'i list \<Rightarrow> behavior_event list" where
  "events_in body is = concat (map (\<lambda>i. case decodeEvent (body i) of Inl e \<Rightarrow> [] | Inr ev \<Rightarrow> [ev]) is)"

fun live_part :: "('i \<Rightarrow> bool) \<Rightarrow> bool \<Rightarrow> 'i list \<Rightarrow> 'i list" where
  "live_part hit False is = is"
| "live_part hit True [] = []"
| "live_part hit True (i # is) = live_part hit (\<not> hit i) is"

definition hit :: "('i \<Rightarrow> message_body) \<Rightarrow> ('i \<Rightarrow> 'p :: linorder) \<Rightarrow> 'p \<Rightarrow> 'i \<Rightarrow> bool" where
  "hit body pos t i \<longleftrightarrow> is_ok (decodeEvent (body i)) \<and> t \<le> pos i"

lemma events_in_simps [simp]:
  "events_in body [] = []"
  "events_in body (i # is) = (case decodeEvent (body i) of Inl e \<Rightarrow> [] | Inr ev \<Rightarrow> [ev]) @ events_in body is"
  by (simp_all add: events_in_def)

text \<open>The calls made to the late sink between two states are among some events, in order.\<close>

definition sunk :: "core \<Rightarrow> core \<Rightarrow> behavior_event list \<Rightarrow> bool" where
  "sunk c c' es \<longleftrightarrow> (\<exists>xs. c_lateOut c' = c_lateOut c @ xs \<and> subseq xs es)"

lemma sunk_trans: "sunk c c1 es \<Longrightarrow> sunk c1 c2 fs \<Longrightarrow> sunk c c2 (es @ fs)"
  by (auto simp: sunk_def intro: list_emb_append_mono)

lemma sunk_same: "c_lateOut c' = c_lateOut c \<Longrightarrow> sunk c c' es"
  by (simp add: sunk_def)

text \<open>
  What both backends promise about one message: a malformed one changes neither the shard nor the replay;
  any other is processed, moves the position, is shown to the hook unless it is replayed, and ends the
  replay when it reaches the target. \<open>settled\<close> are the messages whose broker calls succeed.
\<close>

locale event_consumer =
  fixes deliver :: "'i \<Rightarrow> 's \<Rightarrow> 's"
    and core_of :: "'s \<Rightarrow> core"
    and observed :: "'s \<Rightarrow> behavior_event list"
    and hooked :: "'s \<Rightarrow> bool"
    and replaying :: "'s \<Rightarrow> bool"
    and target :: "'s \<Rightarrow> 'p :: linorder"
    and body :: "'i \<Rightarrow> message_body"
    and pos :: "'i \<Rightarrow> 'p"
    and settled :: "'i \<Rightarrow> bool"
  assumes dropped: "decodeEvent (body i) = Inl e \<Longrightarrow> core_of (deliver i s) = core_of s \<and>
      observed (deliver i s) = observed s \<and> replaying (deliver i s) = replaying s"
    and observes: "decodeEvent (body i) = Inr ev \<Longrightarrow> settled i \<Longrightarrow>
      observed (deliver i s) = observed s @ (if hooked s \<and> \<not> replaying s then [ev] else [])"
    and sinks: "decodeEvent (body i) = Inr ev \<Longrightarrow> settled i \<Longrightarrow>
      c_lateOut (core_of (deliver i s)) = c_lateOut (core_of s) @ sink_calls (core_of s) ev"
    and replays: "decodeEvent (body i) = Inr ev \<Longrightarrow> settled i \<Longrightarrow>
      replaying (deliver i s) = (replaying s \<and> \<not> target s \<le> pos i) \<and>
      c_replaying (core_of (deliver i s)) = (c_replaying (core_of s) \<and> \<not> (replaying s \<and> target s \<le> pos i))"
    and kept: "hooked (deliver i s) = hooked s \<and> target (deliver i s) = target s"
begin

text \<open>The hook and the late sink only see live messages.\<close>

lemma effects_only_live:
  assumes "c_replaying (core_of s) = replaying s" "\<forall>i\<in>set is. is_ok (decodeEvent (body i)) \<longrightarrow> settled i"
  shows "replaying (fold deliver is s) = (replaying s \<and> (\<forall>i\<in>set is. \<not> hit body pos (target s) i)) \<and>
    c_replaying (core_of (fold deliver is s)) = replaying (fold deliver is s) \<and>
    observed (fold deliver is s) = observed s @
      (if hooked s then events_in body (live_part (hit body pos (target s)) (replaying s) is) else []) \<and>
    sunk (core_of s) (core_of (fold deliver is s)) (events_in body (live_part (hit body pos (target s)) (replaying s) is))"
  using assms
proof (induction "is" arbitrary: s)
  case Nil
  then show ?case by (cases "replaying s") (simp_all add: sunk_same)
next
  case (Cons i "is")
  let ?s = "deliver i s"
  have k: "hooked ?s = hooked s" "target ?s = target s" using kept by auto
  have s1: "\<forall>i\<in>set is. is_ok (decodeEvent (body i)) \<longrightarrow> settled i" using Cons.prems(2) by simp
  show ?case
  proof (cases "decodeEvent (body i)")
    case (Inl e)
    note D = dropped [OF Inl, of s]
    have "\<not> hit body pos (target s) i" by (simp add: hit_def Inl)
    then show ?thesis using Cons.IH [of ?s, OF _ s1] Cons.prems(1) D k Inl by (cases "replaying s") simp_all
  next
    case (Inr ev)
    have "settled i" using Cons.prems(2) Inr by simp
    note D = observes [OF Inr this, of s] sinks [OF Inr this, of s] replays [OF Inr this, of s]
    have h: "hit body pos (target s) i = (target s \<le> pos i)" by (simp add: hit_def Inr)
    have IH: "c_replaying (core_of ?s) = replaying ?s" using D(3) Cons.prems(1) by auto
    note IH = Cons.IH [OF IH s1, unfolded k]
    show ?thesis
    proof (cases "replaying s")
      case True
      then have "c_lateOut (core_of ?s) = c_lateOut (core_of s)"
        using D(2) Cons.prems(1) by (simp add: sink_calls_def)
      then show ?thesis using IH D h True by (simp add: Inr sunk_def)
    next
      case False
      have "sunk (core_of s) (core_of ?s) [ev]" using D(2) by (simp add: sunk_def sink_calls_def)
      then have "sunk (core_of s) (core_of (fold deliver (i # is) s)) ([ev] @ events_in body is)"
        by (rule sunk_trans) (use IH D(3) False in simp)
      then show ?thesis using IH D False by (simp add: Inr)
    qed
  qed
qed

end

lemma events_in_append [simp]: "events_in body (is @ js) = events_in body is @ events_in body js"
  by (simp add: events_in_def)

lemma live_part_append:
  "live_part h rep (is @ js) = live_part h rep is @ live_part h (rep \<and> (\<forall>i\<in>set is. \<not> h i)) js"
proof (induction "is" arbitrary: rep)
  case Nil
  show ?case by (cases rep) simp_all
next
  case (Cons i "is")
  show ?case
  proof (cases rep)
    case True
    then show ?thesis using Cons [of "\<not> h i"] by (cases "h i") simp_all
  qed simp
qed

lemma live_part_map: "map f (live_part (\<lambda>i. h (f i)) rep is) = live_part h rep (map f is)"
proof (induction "is" arbitrary: rep)
  case Nil
  show ?case by (cases rep) simp_all
next
  case (Cons i "is")
  then show ?case by (cases rep) simp_all
qed

lemma events_in_map: "events_in (\<lambda>i. b (f i)) is = events_in b (map f is)"
  by (simp add: events_in_def comp_def)

lemma hit_map: "hit (\<lambda>i. b (f i)) (\<lambda>i. p (f i)) t = (\<lambda>i. hit b p t (f i))"
  by (simp add: hit_def fun_eq_iff)

lemma live_events_map:
  "events_in (\<lambda>i. b (f i)) (live_part (hit (\<lambda>i. b (f i)) (\<lambda>i. p (f i)) t) rep is) =
    events_in b (live_part (hit b p t) rep (map f is))"
  by (simp add: hit_map events_in_map live_part_map)

lemma frame_outside [simp]:
  "c_lateOut (endSnapshot c) = c_lateOut c" "c_replaying (endSnapshot c) = c_replaying c"
  "c_lateOut (snd (beginSnapshot c)) = c_lateOut c" "c_replaying (snd (beginSnapshot c)) = c_replaying c"
  by (simp_all add: endSnapshot_def beginSnapshot_def split: prod.split)

lemma finish_outside [simp]:
  "c_lateOut (co_core (finish t err co)) = c_lateOut (co_core co)"
  "c_replaying (co_core (finish t err co)) = c_replaying (co_core co)"
  by (simp_all add: finish_def Let_def)

lemma startSnapshot_outside [simp]:
  "c_lateOut (co_core (startSnapshot t1 t2 co)) = c_lateOut (co_core co)"
  "c_replaying (co_core (startSnapshot t1 t2 co)) = c_replaying (co_core co)"
  by (simp_all add: startSnapshot_def Let_def beginSnapshot_def split: prod.split)

lemma tick_outside [simp]:
  "c_lateOut (co_core (tick clk co)) = c_lateOut (co_core co)"
  "c_replaying (co_core (tick clk co)) = c_replaying (co_core co)"
  by (auto simp: tick_def Let_def split: prod.split option.split job.split)

lemma background_core [simp]: "co_core (background mo w co) = co_core co"
  by (auto simp: background_def Let_def split: option.splits job.splits sum.splits prod.splits)

lemma Restore_outside:
  assumes "Restore mo data c = (r, c')"
  shows "c_lateOut c' = c_lateOut c" "c_replaying c' = c_replaying c" "c_lateSink c' = c_lateSink c"
  using assms by (auto simp: Restore_def rebuildNegativeDeadlines_def split: gob_bytes.splits sum.splits)

lemma EndReplay_simps [simp]:
  "c_replaying (EndReplay c) = False" "c_lateOut (EndReplay c) = c_lateOut c" "c_lastSeq (EndReplay c) = c_lastSeq c"
  "c_store (EndReplay c) = c_store c"
  by (simp_all add: EndReplay_def)

section \<open>Snapshots and restarts\<close>

lemma agrees_frame [simp]:
  "agrees (c\<lparr>c_lastSeq := n\<rparr>) d = agrees c d" "agrees c (d\<lparr>c_lastSeq := n\<rparr>) = agrees c d"
  "agrees (EndReplay c) d = agrees c d" "agrees c (EndReplay d) = agrees c d"
  "agrees (BeginReplay c) d = agrees c d" "agrees c (BeginReplay d) = agrees c d"
  by (simp_all add: agrees_def EndReplay_def BeginReplay_def)

lemma core_inv_frame [simp]:
  "core_inv (c\<lparr>c_lastSeq := n\<rparr>) hist = core_inv c hist" "core_inv (EndReplay c) hist = core_inv c hist"
  "core_inv (BeginReplay c) hist = core_inv c hist"
  by (simp_all add: core_inv_def EndReplay_def BeginReplay_def)

lemma started_job:
  assumes reach: "consumer_reach fs0 co hist gs" and wrap: "sm_epoch (c_store (co_core co)) < sm_epoch (c_store (co_core co)) + 1"
    and idle: "as_done (co_snap co) = None" and run: "as_done (co_snap (tick clk co)) = Some (Running f)"
  shows "job_ok [freeze_of (co_core co)] (tick clk co)" "agrees (co_core co) (co_core (tick clk co))"
    "c_lastSeq (co_core (tick clk co)) = c_lastSeq (co_core co)" "core_inv (co_core (tick clk co)) hist"
    "as_path (co_snap (tick clk co)) = as_path (co_snap co)" "shard_reach (co_core (tick clk co)) hist"
proof -
  have I: "shard_reach (co_core co) hist" "job_ok gs co"
    using consumer_reach_inv [OF reach] by (simp_all add: consumer_inv_def)
  obtain g c1 where b: "beginSnapshot (co_core co) = (g, c1)" by fastforce
  obtain t2 where t: "tick clk co = co\<lparr>co_core := c1, co_snap := (co_snap co)\<lparr>as_last := t2, as_done := Some (Running g)\<rparr>\<rparr>"
    using idle run by (cases clk) (auto simp: tick_def startSnapshot_def Let_def b split: if_splits)
  note ci = reach_facts(1) [OF I(1)]
  note B = begin_ok [OF ci wrap b] and F = begin_freeze [OF ci wrap b]
  have c1: "c1 = (co_core co)\<lparr>c_store := c_store c1\<rparr>" "members_view (c_store c1) = members_view (c_store (co_core co))"
    using B(1) by (simp_all add: same_shard_def)
  show "job_ok [freeze_of (co_core co)] (tick clk co)" unfolding t job_ok_def using F by simp
  have fr: "c_watermark c1 = c_watermark (co_core co)" "c_patterns c1 = c_patterns (co_core co)"
    "c_ruleSet c1 = c_ruleSet (co_core co)" "c_maxWindow c1 = c_maxWindow (co_core co)"
    "c_allowedLateness c1 = c_allowedLateness (co_core co)" "c_lastSeq c1 = c_lastSeq (co_core co)"
    by (subst c1(1), simp)+
  show "agrees (co_core co) (co_core (tick clk co))" "c_lastSeq (co_core (tick clk co)) = c_lastSeq (co_core co)"
    by (simp_all add: t agrees_def fr c1(2))
  show "core_inv (co_core (tick clk co)) hist" "as_path (co_snap (tick clk co)) = as_path (co_snap co)"
    using B(5) by (simp_all add: t)
  show "shard_reach (co_core (tick clk co)) hist" using reach_beginSnapshot [OF I(1) wrap b] by (simp add: t)
qed

lemma finished_job:
  assumes "job_ok [s] co" "as_done (co_snap co) = Some (Running f)"
    and "as_done (co_snap (background mo w co)) = Some (Finished None)"
  shows "co_files (background mo w co) (as_path (co_snap co)) = Some (GobSnapshot s)"
proof (cases "encode mo f (c_store (co_core co))")
  case (Inl e)
  then show ?thesis using assms by (simp add: background_def)
next
  case (Inr data)
  obtain e fs where w: "writeSnapshotFile w (as_path (co_snap co)) data (co_files co) = (e, fs)" by fastforce
  then have "e = None" "co_files (background mo w co) = fs" using assms(2,3) Inr by (simp_all add: background_def)
  moreover have "data = GobSnapshot s" using encode_Inr [OF Inr] assms(1,2) by (simp add: job_ok_def)
  ultimately show ?thesis using write_error_keeps(1) [OF w] by simp
qed

lemma tick_agrees:
  assumes ci: "core_inv (co_core co) hist" and wrap: "sm_epoch (c_store (co_core co)) < sm_epoch (c_store (co_core co)) + 1"
  shows "agrees (co_core (tick clk co)) (co_core co) \<and> core_inv (co_core (tick clk co)) hist \<and>
    c_lastSeq (co_core (tick clk co)) = c_lastSeq (co_core co) \<and>
    sm_epoch (c_store (co_core (tick clk co))) \<le> sm_epoch (c_store (co_core co)) + 1"
proof -
  have u: "members_view (unfreezeState s) = members_view s" for s
    by (auto simp: fun_eq_iff members_view_def member_def member_of_def unfreezeState_def split: option.split)
  have si: "store_inv st \<Longrightarrow> store_inv (unfreezeState st)" for st
    by (auto simp: store_inv_def group_ok_def unfreezeState_def)
  have e: "agrees (endSnapshot c) c \<and> core_inv (endSnapshot c) hist \<and> c_lastSeq (endSnapshot c) = c_lastSeq c"
    if "core_inv c hist" for c
    using that si by (auto simp: agrees_def endSnapshot_def u core_inv_def)
  have s: "agrees (co_core (startSnapshot t1 t2 x)) (co_core x) \<and> core_inv (co_core (startSnapshot t1 t2 x)) hist \<and>
      c_lastSeq (co_core (startSnapshot t1 t2 x)) = c_lastSeq (co_core x) \<and>
      sm_epoch (c_store (co_core (startSnapshot t1 t2 x))) \<le> sm_epoch (c_store (co_core x)) + 1"
    if x: "core_inv (co_core x) hist" "sm_epoch (c_store (co_core x)) < sm_epoch (c_store (co_core x)) + 1" for x t1 t2
  proof -
    obtain f c1 where b: "beginSnapshot (co_core x) = (f, c1)" by fastforce
    note B = begin_ok [OF x b]
    have v: "members_view (c_store c1) = members_view (c_store (co_core x))" using B(1) by (simp add: same_shard_def)
    have "c1 = (co_core x)\<lparr>c_store := snd (freezeState (c_store (co_core x)))\<rparr>"
      using b by (auto simp: beginSnapshot_def split: prod.splits)
    then have "agrees c1 (co_core x) \<and> c_lastSeq c1 = c_lastSeq (co_core x) \<and>
        sm_epoch (c_store c1) = sm_epoch (c_store (co_core x)) + 1"
      using v by (simp add: agrees_def freezeState_def)
    then show ?thesis using B(5) x by (auto simp: startSnapshot_def Let_def b agrees_def less_imp_le)
  qed
  have le: "sm_epoch (c_store (co_core co)) \<le> sm_epoch (c_store (co_core co)) + 1" using wrap by simp
  have f: "co_core (finish t err co) = endSnapshot (co_core co)" for t err by (simp add: finish_def Let_def)
  have fs: "agrees (co_core (startSnapshot t1 t2 (finish t0 err co))) (co_core co) \<and>
      core_inv (co_core (startSnapshot t1 t2 (finish t0 err co))) hist \<and>
      c_lastSeq (co_core (startSnapshot t1 t2 (finish t0 err co))) = c_lastSeq (co_core co) \<and>
      sm_epoch (c_store (co_core (startSnapshot t1 t2 (finish t0 err co)))) \<le> sm_epoch (c_store (co_core co)) + 1"
    for t0 t1 t2 err
    using s [of "finish t0 err co" t1 t2] e [OF ci] wrap unfolding f agrees_def by simp
  have "agrees (co_core co) (co_core co)" by (simp add: agrees_def)
  then show ?thesis using s [OF ci wrap] fs ci le
    by (cases clk) (simp add: tick_def Let_def split: option.split job.split)
qed

lemma restored_freeze:
  assumes I: "shard_inv c hist" and D: "shard_inv d hist'" and pats: "c_patterns d = c_patterns c"
    and mo: "map_orders_ok mo" and r: "Restore mo (GobSnapshot (freeze_of c)) d = (res, d')"
  shows "res = Inr (c_lastSeq c)"
    "c_ruleSet d = c_ruleSet c \<Longrightarrow> c_maxWindow d = c_maxWindow c \<Longrightarrow> c_allowedLateness d = c_allowedLateness c \<Longrightarrow>
      agrees c d'"
    "c_lastSeq d' = c_lastSeq c" "core_inv d' hist"
proof -
  have "patterns_ok (c_patterns d)" "sm_frozenEpoch (c_store d) \<le> sm_epoch (c_store d)"
    using shard_invD(1) [OF D] by (simp_all add: core_inv_def store_inv_def)
  note R = restore_frozen [OF shard_invD(1,2) [OF I] this(1) pats this(2) _ _ freeze_of_def [THEN arg_cong] r]
  have "enumerates (mo_groups mo)" "enumerates (mo_strings mo)" using mo by (simp_all add: map_orders_ok_def)
  note R = R [OF this]
  show "res = Inr (c_lastSeq c)" "c_lastSeq d' = c_lastSeq c" "core_inv d' hist" using R(1,4,5) .
  have "c_patterns d' = c_patterns d" "c_ruleSet d' = c_ruleSet d" "c_maxWindow d' = c_maxWindow d"
    "c_allowedLateness d' = c_allowedLateness d" by (subst R(6), simp)+
  then show "c_ruleSet d = c_ruleSet c \<Longrightarrow> c_maxWindow d = c_maxWindow c \<Longrightarrow> c_allowedLateness d = c_allowedLateness c \<Longrightarrow>
      agrees c d'" using R(2,3) pats by (simp add: agrees_def)
qed
end
