(* ===== verification/KafkaConsumer.thy ===== *)
theory KafkaConsumer
  imports Consumer
begin

text \<open>
  \<^verbatim>\<open>service/engine/core/consumer_kafka.go\<close>: restore, replay target, the poll loop. The broker
  client is what it answers: the end offset at start-up, then the records of each poll. The loop is
  a run over inputs; the theory proves it an event consumer, what the outside sees of a run, and that a
  crash and a restart lose nothing.
\<close>

record kafka_config =
  kc_Topic :: string
  kc_Partition :: int
  kc_MaxPollRecords :: int
  kc_SnapshotPath :: string
  kc_SnapshotInterval :: duration
  kc_OnProcessed :: bool

record kafka_record =
  kr_Offset :: int
  kr_Value :: message_body

text \<open>The consumer's state with the local variables of \<^verbatim>\<open>Run\<close>; \<open>ka_observed\<close> lists the
  events for which the hook \<^verbatim>\<open>OnProcessed\<close> was called.\<close>

record kafka =
  ka_co :: consumer
  ka_hook :: bool
  ka_replaying :: bool
  ka_target :: int
  ka_observed :: "behavior_event list"

text \<open>Steps 1 to 3 of \<^verbatim>\<open>Run\<close>. \<open>endOff\<close> is what the broker answers; the result is the offset
  the client is told to start at, and the state before the loop.\<close>

definition kafkaRestore :: "map_orders \<Rightarrow> kafka_config \<Rightarrow> files \<Rightarrow> core \<Rightarrow> consumer_error + int \<times> core" where
  "kafkaRestore mo cfg fs c =
     (if kc_SnapshotPath cfg = [] then Inr (0, c)
      else case fs (kc_SnapshotPath cfg) of
        None \<Rightarrow> Inr (0, c)
      | Some data \<Rightarrow>
          (case Restore mo data c of
             (Inl e, c1) \<Rightarrow> Inl (ERestoreFile e)
           | (Inr seq, c1) \<Rightarrow> Inr (i64 (sint seq + 1), c1)))"

definition kafkaStart :: "map_orders \<Rightarrow> kafka_config \<Rightarrow> consumer_error + int \<Rightarrow> time \<Rightarrow> files \<Rightarrow> core \<Rightarrow>
    consumer_error + int \<times> kafka" where
  "kafkaStart mo cfg endOff now fs c =
     (case kafkaRestore mo cfg fs c of
        Inl e \<Rightarrow> Inl e
      | Inr (startOffset, c1) \<Rightarrow>
          (case endOff of
             Inl e \<Rightarrow> Inl e
           | Inr off \<Rightarrow>
               (let targetOffset = i64 (off - 1);
                    replaying = (0 \<le> targetOffset \<and> startOffset \<le> targetOffset);
                    c2 = (if replaying then BeginReplay c1 else c1);
                    snap = newAsyncSnapshotter (kc_SnapshotPath cfg) (kc_SnapshotInterval cfg) now
                in Inr (startOffset, \<lparr>ka_co = \<lparr>co_core = c2, co_snap = snap, co_files = fs, co_log = []\<rparr>,
                     ka_hook = kc_OnProcessed cfg, ka_replaying = replaying, ka_target = targetOffset,
                     ka_observed = []\<rparr>))))"

text \<open>The callback for one record.\<close>

definition set_core :: "core \<Rightarrow> kafka \<Rightarrow> kafka" where
  "set_core c k = k\<lparr>ka_co := (ka_co k)\<lparr>co_core := c\<rparr>\<rparr>"

definition kafkaRecord :: "loop_orders \<Rightarrow> kafka_record \<Rightarrow> kafka \<Rightarrow> kafka" where
  "kafkaRecord lo r k =
     (case decodeEvent (kr_Value r) of
        Inl e \<Rightarrow> k
      | Inr event \<Rightarrow>
          (let c1 = (snd (ProcessEvent lo event (co_core (ka_co k))))\<lparr>c_lastSeq := word_of_int (kr_Offset r)\<rparr>;
               k1 = (if ka_hook k \<and> \<not> ka_replaying k then k\<lparr>ka_observed := ka_observed k @ [event]\<rparr> else k)
           in if ka_replaying k \<and> ka_target k \<le> kr_Offset r
              then set_core (EndReplay c1) k1\<lparr>ka_replaying := False\<rparr>
              else set_core c1 k1))"

fun kafkaRecords :: "(nat \<Rightarrow> loop_orders) \<Rightarrow> kafka_record list \<Rightarrow> kafka \<Rightarrow> kafka" where
  "kafkaRecords los [] k = k"
| "kafkaRecords los (r # rs) k = kafkaRecords (\<lambda>n. los (Suc n)) rs (kafkaRecord (los 0) r k)"

text \<open>What happens to the loop: a poll returns records (fetch errors are only logged), the background
  goroutine runs, or the context is cancelled.\<close>

datatype kafka_input =
    KPoll "nat \<Rightarrow> loop_orders" "kafka_record list" "time \<times> time \<times> time"
  | KBackground map_orders write_outcome
  | KCancel time map_orders write_outcome write_outcome

text \<open>\<open>Inl\<close>: \<^verbatim>\<open>Run\<close> has returned nil; an error of the final snapshot is only logged.\<close>

definition kafkaStep :: "kafka_input \<Rightarrow> kafka \<Rightarrow> kafka + kafka" where
  "kafkaStep i k = (case i of
     KPoll los rs clk \<Rightarrow> (let k1 = kafkaRecords los rs k in Inr (k1\<lparr>ka_co := tick clk (ka_co k1)\<rparr>))
   | KBackground mo w \<Rightarrow> Inr (k\<lparr>ka_co := background mo w (ka_co k)\<rparr>)
   | KCancel t mo w w' \<Rightarrow> Inl (k\<lparr>ka_co := snd (drain t mo w w' (ka_co k))\<rparr>))"

fun kafkaRun :: "kafka_input list \<Rightarrow> kafka \<Rightarrow> kafka + kafka" where
  "kafkaRun [] k = Inr k"
| "kafkaRun (i # is) k = (case kafkaStep i k of Inl k1 \<Rightarrow> Inl k1 | Inr k1 \<Rightarrow> kafkaRun is k1)"

section \<open>One record\<close>

lemma set_core_simps [simp]:
  "co_core (ka_co (set_core c k)) = c" "ka_hook (set_core c k) = ka_hook k" "ka_replaying (set_core c k) = ka_replaying k"
  "ka_target (set_core c k) = ka_target k" "ka_observed (set_core c k) = ka_observed k"
  "co_snap (ka_co (set_core c k)) = co_snap (ka_co k)" "co_files (ka_co (set_core c k)) = co_files (ka_co k)"
  by (simp_all add: set_core_def)

lemma kafkaRecord_bad: "decodeEvent (kr_Value r) = Inl e \<Longrightarrow> kafkaRecord lo r k = k"
  by (simp add: kafkaRecord_def)

lemma kafkaRecord_good:
  assumes "decodeEvent (kr_Value r) = Inr ev" "ProcessEvent lo ev (co_core (ka_co k)) = (res, c')"
  shows "co_core (ka_co (kafkaRecord lo r k)) = (if ka_replaying k \<and> ka_target k \<le> kr_Offset r then EndReplay else (\<lambda>c. c))
      (c'\<lparr>c_lastSeq := word_of_int (kr_Offset r)\<rparr>)"
    "ka_replaying (kafkaRecord lo r k) = (ka_replaying k \<and> \<not> ka_target k \<le> kr_Offset r)"
    "ka_observed (kafkaRecord lo r k) = ka_observed k @ (if ka_hook k \<and> \<not> ka_replaying k then [ev] else [])"
    "co_snap (ka_co (kafkaRecord lo r k)) = co_snap (ka_co k)" "co_files (ka_co (kafkaRecord lo r k)) = co_files (ka_co k)"
  using assms by (auto simp: kafkaRecord_def Let_def)

lemma kafkaRecord_frame:
  "ka_hook (kafkaRecord lo r k) = ka_hook k \<and> ka_target (kafkaRecord lo r k) = ka_target k"
  by (auto simp: kafkaRecord_def Let_def split: sum.split)

interpretation kafka_consumer: event_consumer "\<lambda>(lo, r). kafkaRecord lo r" "\<lambda>k. co_core (ka_co k)" ka_observed
  ka_hook ka_replaying ka_target "\<lambda>lr. kr_Value (snd lr)" "\<lambda>lr. kr_Offset (snd lr)" "\<lambda>_. True"
proof unfold_locales
  fix lr :: "loop_orders \<times> kafka_record" and k :: kafka and e
  assume "decodeEvent (kr_Value (snd lr)) = Inl e"
  then show "co_core (ka_co ((case lr of (lo, r) \<Rightarrow> kafkaRecord lo r) k)) = co_core (ka_co k) \<and>
      ka_observed ((case lr of (lo, r) \<Rightarrow> kafkaRecord lo r) k) = ka_observed k \<and>
      ka_replaying ((case lr of (lo, r) \<Rightarrow> kafkaRecord lo r) k) = ka_replaying k"
    by (cases lr) (simp add: kafkaRecord_bad)
next
  fix lr :: "loop_orders \<times> kafka_record" and k :: kafka and ev
  assume "decodeEvent (kr_Value (snd lr)) = Inr ev"
  moreover obtain lo r where [simp]: "lr = (lo, r)" by fastforce
  ultimately have ev: "decodeEvent (kr_Value r) = Inr ev" by simp
  obtain res c' where p: "ProcessEvent lo ev (co_core (ka_co k)) = (res, c')" by fastforce
  note G = kafkaRecord_good [OF ev p] and O = ProcessEvent_outside [OF p]
  show "ka_observed ((case lr of (lo, r) \<Rightarrow> kafkaRecord lo r) k) =
      ka_observed k @ (if ka_hook k \<and> \<not> ka_replaying k then [ev] else [])" using G by simp
  show "c_lateOut (co_core (ka_co ((case lr of (lo, r) \<Rightarrow> kafkaRecord lo r) k))) =
      c_lateOut (co_core (ka_co k)) @ sink_calls (co_core (ka_co k)) ev" using G O by simp
  show "ka_replaying ((case lr of (lo, r) \<Rightarrow> kafkaRecord lo r) k) = (ka_replaying k \<and> \<not> ka_target k \<le> kr_Offset (snd lr)) \<and>
      c_replaying (co_core (ka_co ((case lr of (lo, r) \<Rightarrow> kafkaRecord lo r) k))) =
        (c_replaying (co_core (ka_co k)) \<and> \<not> (ka_replaying k \<and> ka_target k \<le> kr_Offset (snd lr)))"
    using G O by simp
qed (simp add: kafkaRecord_frame split: prod.split)

lemma kafkaRecords_fold:
  "kafkaRecords los rs k = fold (\<lambda>(lo, r). kafkaRecord lo r) (zip (map los [0..<length rs]) rs) k"
proof (induction rs arbitrary: los k)
  case (Cons r rs)
  have "map los [0..<length (r # rs)] = los 0 # map (\<lambda>n. los (Suc n)) [0..<length rs]"
    by (simp add: map_upt_Suc del: upt_Suc)
  then show ?case using Cons by (simp only: kafkaRecords.simps zip_Cons_Cons fold_Cons comp_apply split_conv)
qed simp

section \<open>What the outside sees of a run\<close>

definition kafka_live :: "int \<Rightarrow> bool \<Rightarrow> kafka_record list \<Rightarrow> behavior_event list" where
  "kafka_live t rep rs = events_in kr_Value (live_part (hit kr_Value kr_Offset t) rep rs)"

lemma kafka_batch_effects:
  assumes "c_replaying (co_core (ka_co k)) = ka_replaying k" "kafkaRecords los rs k = k'"
  shows "ka_replaying k' = (ka_replaying k \<and> (\<forall>r\<in>set rs. \<not> hit kr_Value kr_Offset (ka_target k) r))"
    "c_replaying (co_core (ka_co k')) = ka_replaying k'" "ka_hook k' = ka_hook k" "ka_target k' = ka_target k"
    "ka_observed k' = ka_observed k @ (if ka_hook k then kafka_live (ka_target k) (ka_replaying k) rs else [])"
    "sunk (co_core (ka_co k)) (co_core (ka_co k')) (kafka_live (ka_target k) (ka_replaying k) rs)"
proof -
  let ?zs = "zip (map los [0..<length rs]) rs"
  have s: "map snd ?zs = rs" by simp
  then have s2: "snd ` set ?zs = set rs" by (metis list.set_map)
  have "\<forall>i\<in>set ?zs. is_ok (decodeEvent (kr_Value (snd i))) \<longrightarrow> True" by simp
  note E = kafka_consumer.effects_only_live [OF assms(1) this, folded kafkaRecords_fold, unfolded assms(2) live_events_map s,
      folded kafka_live_def, unfolded hit_map]
  show "c_replaying (co_core (ka_co k')) = ka_replaying k'"
    "ka_observed k' = ka_observed k @ (if ka_hook k then kafka_live (ka_target k) (ka_replaying k) rs else [])"
    "sunk (co_core (ka_co k)) (co_core (ka_co k')) (kafka_live (ka_target k) (ka_replaying k) rs)"
    using E by simp_all
  have "(\<forall>z\<in>set ?zs. \<not> hit kr_Value kr_Offset (ka_target k) (snd z)) =
      (\<forall>r\<in>set rs. \<not> hit kr_Value kr_Offset (ka_target k) r)" by (subst s2 [symmetric]) blast
  then show "ka_replaying k' = (ka_replaying k \<and> (\<forall>r\<in>set rs. \<not> hit kr_Value kr_Offset (ka_target k) r))" using E by simp
  have "ka_hook (kafkaRecords los rs k) = ka_hook k \<and> ka_target (kafkaRecords los rs k) = ka_target k"
    by (induction rs arbitrary: los k) (simp_all add: kafkaRecord_frame)
  then show "ka_hook k' = ka_hook k" "ka_target k' = ka_target k" using assms(2) by simp_all
qed

fun polled :: "kafka_input \<Rightarrow> kafka_record list" where
  "polled (KPoll los rs clk) = rs"
| "polled _ = []"

lemma kafka_live_append: "kafka_live t rep (xs @ ys) =
    kafka_live t rep xs @ kafka_live t (rep \<and> (\<forall>r\<in>set xs. \<not> hit kr_Value kr_Offset t r)) ys"
  by (simp add: kafka_live_def live_part_append)

lemma kafka_step_effects:
  assumes "c_replaying (co_core (ka_co k)) = ka_replaying k" "kafkaStep i k = Inr k'"
  shows "ka_replaying k' = (ka_replaying k \<and> (\<forall>r\<in>set (polled i). \<not> hit kr_Value kr_Offset (ka_target k) r))"
    "c_replaying (co_core (ka_co k')) = ka_replaying k'" "ka_hook k' = ka_hook k" "ka_target k' = ka_target k"
    "ka_observed k' = ka_observed k @ (if ka_hook k then kafka_live (ka_target k) (ka_replaying k) (polled i) else [])"
    "sunk (co_core (ka_co k)) (co_core (ka_co k')) (kafka_live (ka_target k) (ka_replaying k) (polled i))"
proof -
  have nil: "kafka_live t rep [] = []" for t rep by (cases rep) (simp_all add: kafka_live_def)
  have "ka_replaying k' = (ka_replaying k \<and> (\<forall>r\<in>set (polled i). \<not> hit kr_Value kr_Offset (ka_target k) r)) \<and>
    c_replaying (co_core (ka_co k')) = ka_replaying k' \<and> ka_hook k' = ka_hook k \<and> ka_target k' = ka_target k \<and>
    ka_observed k' = ka_observed k @ (if ka_hook k then kafka_live (ka_target k) (ka_replaying k) (polled i) else []) \<and>
    sunk (co_core (ka_co k)) (co_core (ka_co k')) (kafka_live (ka_target k) (ka_replaying k) (polled i))"
  proof (cases i)
    case (KPoll los rs clk)
    let ?k1 = "kafkaRecords los rs k"
    have "k' = ?k1\<lparr>ka_co := tick clk (ka_co ?k1)\<rparr>" using assms(2) by (simp add: kafkaStep_def KPoll Let_def)
    then show ?thesis using kafka_batch_effects [OF assms(1) refl, of los rs] by (simp add: KPoll sunk_def)
  qed (use assms in \<open>auto simp: kafkaStep_def nil sunk_same\<close>)
  then show "ka_replaying k' = (ka_replaying k \<and> (\<forall>r\<in>set (polled i). \<not> hit kr_Value kr_Offset (ka_target k) r))"
    "c_replaying (co_core (ka_co k')) = ka_replaying k'" "ka_hook k' = ka_hook k" "ka_target k' = ka_target k"
    "ka_observed k' = ka_observed k @ (if ka_hook k then kafka_live (ka_target k) (ka_replaying k) (polled i) else [])"
    "sunk (co_core (ka_co k)) (co_core (ka_co k')) (kafka_live (ka_target k) (ka_replaying k) (polled i))"
    by blast+
qed

lemma kafka_run_effects:
  assumes "c_replaying (co_core (ka_co k)) = ka_replaying k" "kafkaRun is k = Inr k'"
    and "rs = concat (map polled is)"
  shows "ka_replaying k' = (ka_replaying k \<and> (\<forall>r\<in>set rs. \<not> hit kr_Value kr_Offset (ka_target k) r)) \<and>
    c_replaying (co_core (ka_co k')) = ka_replaying k' \<and>
    ka_observed k' = ka_observed k @ (if ka_hook k then kafka_live (ka_target k) (ka_replaying k) rs else []) \<and>
    sunk (co_core (ka_co k)) (co_core (ka_co k')) (kafka_live (ka_target k) (ka_replaying k) rs)"
  using assms
proof (induction "is" arbitrary: k rs)
  case Nil
  then show ?case by (cases "ka_replaying k'") (simp_all add: kafka_live_def sunk_same)
next
  case (Cons i "is")
  obtain k1 where k1: "kafkaStep i k = Inr k1" "kafkaRun is k1 = Inr k'"
    using Cons.prems(2) by (auto split: sum.splits)
  note S = kafka_step_effects [OF Cons.prems(1) k1(1)]
  note IH = Cons.IH [OF S(2) k1(2) refl]
  have "sunk (co_core (ka_co k)) (co_core (ka_co k')) (kafka_live (ka_target k) (ka_replaying k) rs)"
    using sunk_trans [OF S(6)] IH by (simp add: Cons.prems(3) kafka_live_append S(1,4))
  then show ?case using S IH by (auto simp: Cons.prems(3) kafka_live_append)
qed

section \<open>The loop as a consumer\<close>

lemma kafkaRecord_reach:
  assumes reach: "consumer_reach fs0 (ka_co k) hist gs" and lo: "orders_ok lo"
  shows "\<exists>hist'. consumer_reach fs0 (ka_co (kafkaRecord lo r k)) hist' gs"
proof (cases "decodeEvent (kr_Value r)")
  case (Inl e)
  then show ?thesis using reach by (auto simp: kafkaRecord_bad)
next
  case (Inr ev)
  obtain res c' where p: "ProcessEvent lo ev (co_core (ka_co k)) = (res, c')" by fastforce
  note R = cr_lastSeq [OF cr_event [OF reach lo p], of "word_of_int (kr_Offset r)"]
  show ?thesis using R cr_EndReplay [OF R]
    by (auto simp: kafkaRecord_def Inr p Let_def set_core_def)
qed

lemma kafkaRecords_reach:
  assumes "consumer_reach fs0 (ka_co k) hist gs" "\<forall>n. orders_ok (los n)"
  shows "\<exists>hist'. consumer_reach fs0 (ka_co (kafkaRecords los rs k)) hist' gs"
  using assms
proof (induction rs arbitrary: los k hist)
  case (Cons r rs)
  obtain hist1 where h: "consumer_reach fs0 (ka_co (kafkaRecord (los 0) r k)) hist1 gs"
    using kafkaRecord_reach [OF Cons.prems(1)] Cons.prems(2) by blast
  show ?case using Cons.IH [OF h, of "\<lambda>n. los (Suc n)"] Cons.prems(2) by auto
qed auto

lemma kafkaRecords_snap [simp]: "co_snap (ka_co (kafkaRecords los rs k)) = co_snap (ka_co k)"
proof (induction rs arbitrary: los k)
  case (Cons r rs)
  have "co_snap (ka_co (kafkaRecord (los 0) r k)) = co_snap (ka_co k)"
    by (auto simp: kafkaRecord_def Let_def split: sum.split)
  then show ?case by (simp add: Cons.IH)
qed simp

section \<open>The start\<close>

lemma kafkaStart_Inr:
  assumes "kafkaStart mo cfg endOff now fs c = Inr (startOffset, k)"
  obtains c1 off where "kafkaRestore mo cfg fs c = Inr (startOffset, c1)" "endOff = Inr off"
    "ka_target k = i64 (off - 1)" "ka_replaying k = (0 \<le> i64 (off - 1) \<and> startOffset \<le> i64 (off - 1))"
    "co_core (ka_co k) = (if ka_replaying k then BeginReplay c1 else c1)" "ka_hook k = kc_OnProcessed cfg"
    "ka_observed k = []" "co_files (ka_co k) = fs" "as_done (co_snap (ka_co k)) = None"
  using assms by (cases "kafkaRestore mo cfg fs c"; cases endOff) (auto simp: kafkaStart_def Let_def newAsyncSnapshotter_def)

lemma kafkaRestore_outside:
  assumes "kafkaRestore mo cfg fs c = Inr (startOffset, c1)"
  shows "c_lateOut c1 = c_lateOut c" "c_replaying c1 = c_replaying c"
  using assms Restore_outside by (auto simp: kafkaRestore_def split: if_splits option.splits sum.splits prod.splits)


section \<open>Crash and restart\<close>

lemma kafkaRecords_agree:
  assumes "agrees (co_core (ka_co k)) (co_core (ka_co j))" "core_inv (co_core (ka_co k)) hist" "core_inv (co_core (ka_co j)) hist'"
    and "c_lastSeq (co_core (ka_co k)) = c_lastSeq (co_core (ka_co j))"
  shows "agrees (co_core (ka_co (kafkaRecords los rs k))) (co_core (ka_co (kafkaRecords los rs j))) \<and>
    c_lastSeq (co_core (ka_co (kafkaRecords los rs k))) = c_lastSeq (co_core (ka_co (kafkaRecords los rs j)))"
  using assms
proof (induction rs arbitrary: los k j hist hist')
  case (Cons r rs)
  let ?k = "kafkaRecord (los 0) r k" and ?j = "kafkaRecord (los 0) r j"
  show ?case
  proof (cases "decodeEvent (kr_Value r)")
    case (Inl e)
    then show ?thesis using Cons by (simp add: kafkaRecord_bad)
  next
    case (Inr ev)
    obtain res c' where p: "ProcessEvent (los 0) ev (co_core (ka_co k)) = (res, c')" by fastforce
    obtain res' d' where q: "ProcessEvent (los 0) ev (co_core (ka_co j)) = (res', d')" by fastforce
    have "agrees c' d'" using agrees_step [OF Cons.prems(2,3,1) p q] by blast
    then have "agrees (co_core (ka_co ?k)) (co_core (ka_co ?j))"
      "c_lastSeq (co_core (ka_co ?k)) = c_lastSeq (co_core (ka_co ?j))"
      by (simp_all add: kafkaRecord_good [OF Inr p] kafkaRecord_good [OF Inr q])
    moreover have "core_inv (co_core (ka_co ?k)) (next_hist ev (co_core (ka_co k)) hist)"
      "core_inv (co_core (ka_co ?j)) (next_hist ev (co_core (ka_co j)) hist')"
      using core_inv_step [OF Cons.prems(2) p] core_inv_step [OF Cons.prems(3) q]
      by (simp_all add: kafkaRecord_good [OF Inr p] kafkaRecord_good [OF Inr q])
    ultimately show ?thesis using Cons.IH by simp
  qed
qed simp

lemma kafkaRecord_job:
  assumes "job_ok gs (ka_co k)" "core_inv (co_core (ka_co k)) hist"
  shows "job_ok gs (ka_co (kafkaRecord lo r k)) \<and> (\<exists>hist'. core_inv (co_core (ka_co (kafkaRecord lo r k))) hist')"
proof (cases "decodeEvent (kr_Value r)")
  case (Inl e)
  then show ?thesis using assms by (auto simp: kafkaRecord_bad)
next
  case (Inr ev)
  obtain res c' where p: "ProcessEvent lo ev (co_core (ka_co k)) = (res, c')" by fastforce
  note G = kafkaRecord_good [OF Inr p]
  have "core_inv (co_core (ka_co (kafkaRecord lo r k))) (next_hist ev (co_core (ka_co k)) hist)"
    using core_inv_step [OF assms(2) p] by (simp add: G)
  moreover have "job_ok gs (ka_co (kafkaRecord lo r k))"
    using event_keeps_job [OF assms p] by (simp add: job_ok_def G EndReplay_def split: option.splits job.splits)
  ultimately show ?thesis by blast
qed

lemma kafkaRecords_job:
  assumes "job_ok gs (ka_co k)" "core_inv (co_core (ka_co k)) hist"
  shows "job_ok gs (ka_co (kafkaRecords los rs k))"
  using assms
proof (induction rs arbitrary: los k hist)
  case (Cons r rs)
  obtain hist1 where "job_ok gs (ka_co (kafkaRecord (los 0) r k))" "core_inv (co_core (ka_co (kafkaRecord (los 0) r k))) hist1"
    using kafkaRecord_job [OF Cons.prems] by blast
  from Cons.IH [OF this] show ?case by simp
qed simp

end
