(* ===== verification/NatsConsumer.thy ===== *)
theory NatsConsumer
  imports Consumer
begin

text \<open>
  \<^verbatim>\<open>service/engine/core/consumer_nats.go\<close>: the JetStream backend. The broker is what it
  answers: the calls at start-up, the messages with their sequences, the outcome of each
  acknowledgement. The same contract as the Kafka backend is proved of its loop, snapshot ticks included.
\<close>

record nats_config =
  nc_StreamName :: string
  nc_Subjects :: "string list"
  nc_FilterSubject :: string
  nc_MaxAckPending :: int
  nc_SnapshotPath :: string
  nc_SnapshotInterval :: duration
  nc_OnProcessed :: bool

text \<open>A message with its stream sequence, when its metadata parses, and whether its acknowledgement succeeds.\<close>

record nats_message =
  nm_Data :: message_body
  nm_Sequence :: "uint64 option"
  nm_AckOk :: bool

record nats =
  na_co :: consumer
  na_hook :: bool
  na_replaying :: bool
  na_target :: uint64
  na_observed :: "behavior_event list"
  na_terminated :: "nats_message list"
  na_acked :: "nats_message list"

text \<open>What the broker answers at start-up: the calls in their order.\<close>

record nats_broker =
  nb_ensured :: bool
  nb_lastSeq :: "uint64 option"
  nb_consumer :: bool
  nb_iterator :: bool

definition natsRestore :: "map_orders \<Rightarrow> nats_config \<Rightarrow> files \<Rightarrow> core \<Rightarrow> consumer_error + uint64 \<times> core" where
  "natsRestore mo cfg fs c =
     (if nc_SnapshotPath cfg = [] then Inr (1, c)
      else case fs (nc_SnapshotPath cfg) of
        None \<Rightarrow> Inr (1, c)
      | Some data \<Rightarrow>
          (case Restore mo data c of
             (Inl e, c1) \<Rightarrow> Inl (ERestoreFile e)
           | (Inr seq, c1) \<Rightarrow> Inr (seq + 1, c1)))"

definition natsStart :: "map_orders \<Rightarrow> nats_config \<Rightarrow> nats_broker \<Rightarrow> time \<Rightarrow> files \<Rightarrow> core \<Rightarrow>
    consumer_error + uint64 \<times> nats" where
  "natsStart mo cfg b now fs c =
     (if \<not> nb_ensured b then Inl EEnsureStream
      else case natsRestore mo cfg fs c of
        Inl e \<Rightarrow> Inl e
      | Inr (startSeq, c1) \<Rightarrow>
          (case nb_lastSeq b of
             None \<Rightarrow> Inl EStreamInfo
           | Some targetSeq \<Rightarrow>
               (let replaying = (0 < targetSeq \<and> startSeq \<le> targetSeq);
                    c2 = (if replaying then BeginReplay c1 else c1);
                    snap = newAsyncSnapshotter (nc_SnapshotPath cfg) (nc_SnapshotInterval cfg) now
                in if \<not> nb_consumer b then Inl ECreateConsumer
                   else if \<not> nb_iterator b then Inl EIterator
                   else Inr (startSeq, \<lparr>na_co = \<lparr>co_core = c2, co_snap = snap, co_files = fs, co_log = []\<rparr>,
                     na_hook = nc_OnProcessed cfg, na_replaying = replaying, na_target = targetSeq,
                     na_observed = [], na_terminated = [], na_acked = []\<rparr>))))"

definition set_nats_core :: "core \<Rightarrow> nats \<Rightarrow> nats" where
  "set_nats_core c n = n\<lparr>na_co := (na_co n)\<lparr>co_core := c\<rparr>\<rparr>"

text \<open>One message up to the snapshot tick; \<open>Inl\<close> is the early return. The flag says whether the tick
  is reached.\<close>

definition natsMessage :: "loop_orders \<Rightarrow> nats_message \<Rightarrow> nats \<Rightarrow> (consumer_error \<times> nats) + bool \<times> nats" where
  "natsMessage lo m n =
     (case decodeEvent (nm_Data m) of
        Inl e \<Rightarrow> Inr (False, n\<lparr>na_terminated := na_terminated n @ [m]\<rparr>)
      | Inr event \<Rightarrow>
          (let c1 = snd (ProcessEvent lo event (co_core (na_co n)));
               n1 = set_nats_core c1 (if na_hook n \<and> \<not> na_replaying n
                 then n\<lparr>na_observed := na_observed n @ [event]\<rparr> else n)
           in if \<not> nm_AckOk m then Inl (EAck, n1)
              else
                (let n2 = n1\<lparr>na_acked := na_acked n1 @ [m]\<rparr> in
                 case nm_Sequence m of
                   None \<Rightarrow> Inr (True, n2)
                 | Some seq \<Rightarrow>
                     (let c2 = c1\<lparr>c_lastSeq := seq\<rparr> in
                      if na_replaying n2 \<and> na_target n2 \<le> seq
                      then Inr (True, set_nats_core (EndReplay c2) n2\<lparr>na_replaying := False\<rparr>)
                      else Inr (True, set_nats_core c2 n2)))))"

datatype nats_input =
    NMessage loop_orders nats_message "time \<times> time \<times> time"
  | NBackground map_orders write_outcome
  | NClosed time map_orders write_outcome write_outcome
  | NNextFails

text \<open>\<open>Inl\<close>: \<^verbatim>\<open>Run\<close> has returned, with an error or nil.\<close>

definition natsStep :: "nats_input \<Rightarrow> nats \<Rightarrow> (consumer_error option \<times> nats) + nats" where
  "natsStep i n = (case i of
     NMessage lo m clk \<Rightarrow>
       (case natsMessage lo m n of
          Inl (e, n1) \<Rightarrow> Inl (Some e, n1)
        | Inr (ticks, n1) \<Rightarrow> Inr (if ticks then n1\<lparr>na_co := tick clk (na_co n1)\<rparr> else n1))
   | NBackground mo w \<Rightarrow> Inr (n\<lparr>na_co := background mo w (na_co n)\<rparr>)
   | NClosed t mo w w' \<Rightarrow> Inl (None, n\<lparr>na_co := snd (drain t mo w w' (na_co n))\<rparr>)
   | NNextFails \<Rightarrow> Inl (Some ENextMessage, n))"

fun natsRun :: "nats_input list \<Rightarrow> nats \<Rightarrow> (consumer_error option \<times> nats) + nats" where
  "natsRun [] n = Inr n"
| "natsRun (i # is) n = (case natsStep i n of Inl r \<Rightarrow> Inl r | Inr n1 \<Rightarrow> natsRun is n1)"

section \<open>One message\<close>

lemma set_nats_core_simps [simp]:
  "co_core (na_co (set_nats_core c n)) = c" "na_hook (set_nats_core c n) = na_hook n"
  "na_replaying (set_nats_core c n) = na_replaying n" "na_target (set_nats_core c n) = na_target n"
  "na_observed (set_nats_core c n) = na_observed n" "co_snap (na_co (set_nats_core c n)) = co_snap (na_co n)"
  "co_files (na_co (set_nats_core c n)) = co_files (na_co n)" "na_acked (set_nats_core c n) = na_acked n"
  by (simp_all add: set_nats_core_def)

text \<open>The messages the broker lets pass: acknowledged, with metadata.\<close>

definition nats_settled :: "nats_message \<Rightarrow> bool" where
  "nats_settled m \<longleftrightarrow> nm_AckOk m \<and> nm_Sequence m \<noteq> None"

definition stream_seq :: "nats_message \<Rightarrow> uint64" where
  "stream_seq m = (case nm_Sequence m of None \<Rightarrow> 0 | Some seq \<Rightarrow> seq)"

definition nats_deliver :: "loop_orders \<times> nats_message \<times> (time \<times> time \<times> time) \<Rightarrow> nats \<Rightarrow> nats" where
  "nats_deliver i n = (case i of (lo, m, clk) \<Rightarrow>
     (case natsStep (NMessage lo m clk) n of Inl (e, n1) \<Rightarrow> n1 | Inr n1 \<Rightarrow> n1))"

lemma natsMessage_bad:
  "decodeEvent (nm_Data m) = Inl e \<Longrightarrow> natsMessage lo m n = Inr (False, n\<lparr>na_terminated := na_terminated n @ [m]\<rparr>)"
  by (simp add: natsMessage_def)

lemma natsMessage_good:
  assumes "decodeEvent (nm_Data m) = Inr ev" "ProcessEvent lo ev (co_core (na_co n)) = (res, c')" "nats_settled m"
  obtains n1 where "natsMessage lo m n = Inr (True, n1)"
    "co_core (na_co n1) = (if na_replaying n \<and> na_target n \<le> stream_seq m then EndReplay else (\<lambda>c. c))
      (c'\<lparr>c_lastSeq := stream_seq m\<rparr>)"
    "na_replaying n1 = (na_replaying n \<and> \<not> na_target n \<le> stream_seq m)"
    "na_observed n1 = na_observed n @ (if na_hook n \<and> \<not> na_replaying n then [ev] else [])"
    "na_hook n1 = na_hook n" "na_target n1 = na_target n"
    "co_snap (na_co n1) = co_snap (na_co n)" "na_acked n1 = na_acked n @ [m]"
proof -
  obtain seq where q: "nm_AckOk m" "nm_Sequence m = Some seq" using assms(3) by (auto simp: nats_settled_def)
  show thesis
    by (rule that [of "snd (projr (natsMessage lo m n))"])
      (auto simp: natsMessage_def Let_def stream_seq_def assms(1,2) q)
qed

lemma natsMessage_frame:
  "case natsMessage lo m n of Inl (e, n1) \<Rightarrow> na_hook n1 = na_hook n \<and> na_target n1 = na_target n
    | Inr (t, n1) \<Rightarrow> na_hook n1 = na_hook n \<and> na_target n1 = na_target n"
  by (cases "decodeEvent (nm_Data m)"; cases "nm_Sequence m") (simp_all add: natsMessage_def Let_def)

interpretation nats_consumer: event_consumer nats_deliver "\<lambda>n. co_core (na_co n)" na_observed na_hook na_replaying
  na_target "\<lambda>i. nm_Data (fst (snd i))" "\<lambda>i. stream_seq (fst (snd i))" "\<lambda>i. nats_settled (fst (snd i))"
proof unfold_locales
  fix i :: "loop_orders \<times> nats_message \<times> (time \<times> time \<times> time)" and n :: nats and e
  assume "decodeEvent (nm_Data (fst (snd i))) = Inl e"
  then show "co_core (na_co (nats_deliver i n)) = co_core (na_co n) \<and> na_observed (nats_deliver i n) = na_observed n \<and>
      na_replaying (nats_deliver i n) = na_replaying n"
    by (cases i) (simp add: nats_deliver_def natsStep_def natsMessage_bad)
next
  fix i :: "loop_orders \<times> nats_message \<times> (time \<times> time \<times> time)" and n :: nats and ev
  assume e: "decodeEvent (nm_Data (fst (snd i))) = Inr ev" and s: "nats_settled (fst (snd i))"
  obtain lo m clk where i: "i = (lo, m, clk)" by (cases i) auto
  have ev: "decodeEvent (nm_Data m) = Inr ev" "nats_settled m" using e s by (simp_all add: i)
  obtain res c' where p: "ProcessEvent lo ev (co_core (na_co n)) = (res, c')" by fastforce
  note O = ProcessEvent_outside [OF p]
  obtain n1 where G: "natsMessage lo m n = Inr (True, n1)"
    "co_core (na_co n1) = (if na_replaying n \<and> na_target n \<le> stream_seq m then EndReplay else (\<lambda>c. c))
      (c'\<lparr>c_lastSeq := stream_seq m\<rparr>)"
    "na_replaying n1 = (na_replaying n \<and> \<not> na_target n \<le> stream_seq m)"
    "na_observed n1 = na_observed n @ (if na_hook n \<and> \<not> na_replaying n then [ev] else [])"
    using natsMessage_good [OF ev(1) p ev(2)] by metis
  have m: "fst (snd i) = m" by (simp add: i)
  have d: "nats_deliver i n = n1\<lparr>na_co := tick clk (na_co n1)\<rparr>" by (simp add: i nats_deliver_def natsStep_def G(1))
  show "na_observed (nats_deliver i n) = na_observed n @ (if na_hook n \<and> \<not> na_replaying n then [ev] else [])"
    by (simp add: d G(4))
  show "c_lateOut (co_core (na_co (nats_deliver i n))) =
      c_lateOut (co_core (na_co n)) @ sink_calls (co_core (na_co n)) ev" using O by (simp add: d G(2))
  show "na_replaying (nats_deliver i n) = (na_replaying n \<and> \<not> na_target n \<le> stream_seq (fst (snd i))) \<and>
      c_replaying (co_core (na_co (nats_deliver i n))) =
        (c_replaying (co_core (na_co n)) \<and> \<not> (na_replaying n \<and> na_target n \<le> stream_seq (fst (snd i))))"
    using O by (simp add: d G(2,3) m)
next
  fix i :: "loop_orders \<times> nats_message \<times> (time \<times> time \<times> time)" and n :: nats
  obtain lo m clk where [simp]: "i = (lo, m, clk)" by (cases i) auto
  show "na_hook (nats_deliver i n) = na_hook n \<and> na_target (nats_deliver i n) = na_target n"
    using natsMessage_frame [where lo = lo and m = m and n = n] by (auto simp: nats_deliver_def natsStep_def split: sum.splits prod.splits)
qed

section \<open>What the outside sees of a run\<close>

definition nats_live :: "uint64 \<Rightarrow> bool \<Rightarrow> nats_message list \<Rightarrow> behavior_event list" where
  "nats_live t rep ms = events_in nm_Data (live_part (hit nm_Data stream_seq t) rep ms)"

fun received :: "nats_input \<Rightarrow> nats_message list" where
  "received (NMessage lo m clk) = [m]"
| "received _ = []"

lemma nats_live_append: "nats_live t rep (xs @ ys) =
    nats_live t rep xs @ nats_live t (rep \<and> (\<forall>m\<in>set xs. \<not> hit nm_Data stream_seq t m)) ys"
  by (simp add: nats_live_def live_part_append)

lemma nats_step_effects:
  assumes "c_replaying (co_core (na_co n)) = na_replaying n" "natsStep i n = Inr n'"
    and "\<forall>m\<in>set (received i). is_ok (decodeEvent (nm_Data m)) \<longrightarrow> nats_settled m"
  shows "na_replaying n' = (na_replaying n \<and> (\<forall>m\<in>set (received i). \<not> hit nm_Data stream_seq (na_target n) m))"
    "c_replaying (co_core (na_co n')) = na_replaying n'" "na_hook n' = na_hook n" "na_target n' = na_target n"
    "na_observed n' = na_observed n @ (if na_hook n then nats_live (na_target n) (na_replaying n) (received i) else [])"
    "sunk (co_core (na_co n)) (co_core (na_co n')) (nats_live (na_target n) (na_replaying n) (received i))"
proof -
  have nil: "nats_live t rep [] = []" for t rep by (cases rep) (simp_all add: nats_live_def)
  have "na_replaying n' = (na_replaying n \<and> (\<forall>m\<in>set (received i). \<not> hit nm_Data stream_seq (na_target n) m)) \<and>
    c_replaying (co_core (na_co n')) = na_replaying n' \<and> na_hook n' = na_hook n \<and> na_target n' = na_target n \<and>
    na_observed n' = na_observed n @ (if na_hook n then nats_live (na_target n) (na_replaying n) (received i) else []) \<and>
    sunk (co_core (na_co n)) (co_core (na_co n')) (nats_live (na_target n) (na_replaying n) (received i))"
  proof (cases i)
    case (NMessage lo m clk)
    let ?i = "(lo, m, clk)"
    have d: "nats_deliver ?i n = n'" using assms(2) by (simp add: nats_deliver_def NMessage)
    have s: "\<forall>j\<in>set [?i]. is_ok (decodeEvent (nm_Data (fst (snd j)))) \<longrightarrow> nats_settled (fst (snd j))"
      using assms(3) by (simp add: NMessage)
    have l: "events_in (\<lambda>i. nm_Data (fst (snd i))) (live_part (hit (\<lambda>i. nm_Data (fst (snd i)))
        (\<lambda>i. stream_seq (fst (snd i))) t) rep [?i]) = nats_live t rep [m]" for t rep
      using live_events_map [of nm_Data "\<lambda>i. fst (snd i)" stream_seq t rep "[?i]"] by (simp add: nats_live_def)
    show ?thesis
      using nats_consumer.effects_only_live [OF assms(1) s, unfolded l] nats_consumer.kept [of ?i n]
      by (simp add: d NMessage hit_def)
  qed (use assms in \<open>auto simp: natsStep_def nil sunk_same\<close>)
  then show "na_replaying n' = (na_replaying n \<and> (\<forall>m\<in>set (received i). \<not> hit nm_Data stream_seq (na_target n) m))"
    "c_replaying (co_core (na_co n')) = na_replaying n'" "na_hook n' = na_hook n" "na_target n' = na_target n"
    "na_observed n' = na_observed n @ (if na_hook n then nats_live (na_target n) (na_replaying n) (received i) else [])"
    "sunk (co_core (na_co n)) (co_core (na_co n')) (nats_live (na_target n) (na_replaying n) (received i))"
    by blast+
qed

lemma nats_run_effects:
  assumes "c_replaying (co_core (na_co n)) = na_replaying n" "natsRun is n = Inr n'"
    and "ms = concat (map received is)" "\<forall>m\<in>set ms. is_ok (decodeEvent (nm_Data m)) \<longrightarrow> nats_settled m"
  shows "na_replaying n' = (na_replaying n \<and> (\<forall>m\<in>set ms. \<not> hit nm_Data stream_seq (na_target n) m)) \<and>
    c_replaying (co_core (na_co n')) = na_replaying n' \<and>
    na_observed n' = na_observed n @ (if na_hook n then nats_live (na_target n) (na_replaying n) ms else []) \<and>
    sunk (co_core (na_co n)) (co_core (na_co n')) (nats_live (na_target n) (na_replaying n) ms)"
  using assms
proof (induction "is" arbitrary: n ms)
  case Nil
  then show ?case by (cases "na_replaying n'") (simp_all add: nats_live_def sunk_same)
next
  case (Cons i "is")
  obtain n1 where n1: "natsStep i n = Inr n1" "natsRun is n1 = Inr n'"
    using Cons.prems(2) by (auto split: sum.splits)
  have ok: "\<forall>m\<in>set (received i). is_ok (decodeEvent (nm_Data m)) \<longrightarrow> nats_settled m"
    "\<forall>m\<in>set (concat (map received is)). is_ok (decodeEvent (nm_Data m)) \<longrightarrow> nats_settled m"
    using Cons.prems(3,4) by auto
  note S = nats_step_effects [OF Cons.prems(1) n1(1) ok(1)]
  note IH = Cons.IH [OF S(2) n1(2) refl ok(2)]
  have "sunk (co_core (na_co n)) (co_core (na_co n')) (nats_live (na_target n) (na_replaying n) ms)"
    using sunk_trans [OF S(6)] IH by (simp add: Cons.prems(3) nats_live_append S(1,4))
  then show ?case using S IH by (auto simp: Cons.prems(3) nats_live_append)
qed

section \<open>The start\<close>

lemma natsStart_Inr:
  assumes "natsStart mo cfg b now fs c = Inr (startSeq, n)"
  obtains c1 targetSeq where "natsRestore mo cfg fs c = Inr (startSeq, c1)" "nb_lastSeq b = Some targetSeq"
    "na_target n = targetSeq" "na_replaying n = (0 < targetSeq \<and> startSeq \<le> targetSeq)"
    "co_core (na_co n) = (if na_replaying n then BeginReplay c1 else c1)" "na_hook n = nc_OnProcessed cfg"
    "na_observed n = []" "co_files (na_co n) = fs" "as_done (co_snap (na_co n)) = None"
  using assms by (cases "natsRestore mo cfg fs c"; cases "nb_lastSeq b")
    (auto simp: natsStart_def Let_def newAsyncSnapshotter_def split: if_splits)

lemma natsRestore_outside:
  assumes "natsRestore mo cfg fs c = Inr (startSeq, c1)"
  shows "c_lateOut c1 = c_lateOut c" "c_replaying c1 = c_replaying c"
  using assms Restore_outside by (auto simp: natsRestore_def split: if_splits option.splits sum.splits prod.splits)


section \<open>The loop as a consumer\<close>

lemma natsMessage_core:
  assumes "natsMessage lo m n = Inr (t, n1)"
  shows "co_snap (na_co n1) = co_snap (na_co n)" "co_files (na_co n1) = co_files (na_co n)"
    "decodeEvent (nm_Data m) = Inl e \<Longrightarrow> \<not> t \<and> na_co n1 = na_co n"
    "decodeEvent (nm_Data m) = Inr ev \<Longrightarrow> t \<and> (\<exists>q rep. co_core (na_co n1) =
       (if rep then EndReplay else (\<lambda>c. c)) ((snd (ProcessEvent lo ev (co_core (na_co n))))\<lparr>c_lastSeq := q\<rparr>) \<and>
       q = (case nm_Sequence m of None \<Rightarrow> c_lastSeq (co_core (na_co n)) | Some seq \<Rightarrow> seq))"
proof -
  show "co_snap (na_co n1) = co_snap (na_co n)" "co_files (na_co n1) = co_files (na_co n)"
    using assms by (auto simp: natsMessage_def Let_def split: sum.splits option.splits if_splits)
  show "decodeEvent (nm_Data m) = Inl e \<Longrightarrow> \<not> t \<and> na_co n1 = na_co n" using assms by (auto simp: natsMessage_bad)
  assume ev: "decodeEvent (nm_Data m) = Inr ev"
  obtain res c' where p: "ProcessEvent lo ev (co_core (na_co n)) = (res, c')" by fastforce
  have q: "c'\<lparr>c_lastSeq := c_lastSeq (co_core (na_co n))\<rparr> = c'"
    by (simp add: ProcessEvent_outside(4) [OF p, symmetric])
  show "t \<and> (\<exists>q rep. co_core (na_co n1) =
       (if rep then EndReplay else (\<lambda>c. c)) ((snd (ProcessEvent lo ev (co_core (na_co n))))\<lparr>c_lastSeq := q\<rparr>) \<and>
       q = (case nm_Sequence m of None \<Rightarrow> c_lastSeq (co_core (na_co n)) | Some seq \<Rightarrow> seq))"
  proof (cases "nm_Sequence m")
    case None
    then have "t \<and> co_core (na_co n1) = c'" using assms by (auto simp: natsMessage_def ev p Let_def split: if_splits)
    then show ?thesis
      by (intro conjI exI [of _ "c_lastSeq (co_core (na_co n))"] exI [of _ False]) (simp_all add: None p q)
  next
    case (Some seq)
    let ?rep = "na_replaying n \<and> na_target n \<le> seq"
    show ?thesis using assms Some
      by (intro conjI exI [of _ seq] exI [of _ ?rep]) (auto simp: natsMessage_def ev p Let_def split: if_splits)
  qed
qed

section \<open>Crash and restart\<close>

text \<open>The same message, delivered again: its orders, body and sequence; clocks and acknowledgements may differ.\<close>

fun same_message :: "nats_input \<Rightarrow> nats_input \<Rightarrow> bool" where
  "same_message (NMessage lo m clk) (NMessage lo' m' clk') \<longleftrightarrow>
     lo' = lo \<and> nm_Data m' = nm_Data m \<and> nm_Sequence m' = nm_Sequence m"
| "same_message _ _ = False"

text \<open>Ticks never wrap the epoch: a snapshot runs throughout, or the epoch has room for one per message.\<close>

definition roomy :: "nat \<Rightarrow> consumer \<Rightarrow> bool" where
  "roomy k co \<longleftrightarrow> (\<exists>f. as_done (co_snap co) = Some (Running f)) \<or> unat (sm_epoch (c_store (co_core co))) + k < 2 ^ 64"

lemma tick_running: "as_done (co_snap co) = Some (Running f) \<Longrightarrow> tick clk co = co"
  by (cases clk) (simp add: tick_def Let_def)

lemma tick_roomy:
  assumes ci: "core_inv (co_core co) hist" and room: "roomy (Suc k) co"
  shows "agrees (co_core (tick clk co)) (co_core co)" "core_inv (co_core (tick clk co)) hist"
    "c_lastSeq (co_core (tick clk co)) = c_lastSeq (co_core co)" "roomy k (tick clk co)"
proof -
  have "agrees (co_core (tick clk co)) (co_core co) \<and> core_inv (co_core (tick clk co)) hist \<and>
    c_lastSeq (co_core (tick clk co)) = c_lastSeq (co_core co) \<and> roomy k (tick clk co)"
  proof (cases "\<exists>f. as_done (co_snap co) = Some (Running f)")
    case True
    then have "tick clk co = co" using tick_running by blast
    then show ?thesis using True ci by (simp add: agrees_def roomy_def)
  next
    case False
    let ?e = "sm_epoch (c_store (co_core co))"
    have e: "unat ?e + Suc k < 2 ^ 64" using room False by (simp add: roomy_def)
    then have u: "unat (?e + 1) = unat ?e + 1" by (subst unat_add_lem [THEN iffD1]) simp_all
    then have "?e < ?e + 1" by (simp add: word_less_nat_alt)
    note T = tick_agrees [OF ci this, of clk]
    then have "unat (sm_epoch (c_store (co_core (tick clk co)))) \<le> unat ?e + 1"
      using u by (simp add: word_le_nat_alt)
    then show ?thesis using T e by (simp add: roomy_def)
  qed
  then show "agrees (co_core (tick clk co)) (co_core co)" "core_inv (co_core (tick clk co)) hist"
    "c_lastSeq (co_core (tick clk co)) = c_lastSeq (co_core co)" "roomy k (tick clk co)" by blast+
qed

lemma natsStep_core:
  assumes step: "natsStep (NMessage lo m clk) n = Inr n1" and ci: "core_inv (co_core (na_co n)) hist"
    and room: "roomy (Suc k) (na_co n)"
  shows "decodeEvent (nm_Data m) = Inl e \<Longrightarrow> na_co n1 = na_co n"
    "decodeEvent (nm_Data m) = Inr ev \<Longrightarrow> agrees (co_core (na_co n1)) (snd (ProcessEvent lo ev (co_core (na_co n))))"
    "decodeEvent (nm_Data m) = Inr ev \<Longrightarrow> c_lastSeq (co_core (na_co n1)) =
       (case nm_Sequence m of None \<Rightarrow> c_lastSeq (co_core (na_co n)) | Some seq \<Rightarrow> seq)"
    "\<exists>hist'. core_inv (co_core (na_co n1)) hist'" "roomy k (na_co n1)"
proof -
  obtain t n0 where msg: "natsMessage lo m n = Inr (t, n0)" and n1: "n1 = (if t then n0\<lparr>na_co := tick clk (na_co n0)\<rparr> else n0)"
    using step by (auto simp: natsStep_def split: sum.splits)
  note C = natsMessage_core [OF msg]
  show "decodeEvent (nm_Data m) = Inl e \<Longrightarrow> na_co n1 = na_co n" using C(3) by (simp add: n1)
  have less: "roomy (Suc k) x \<Longrightarrow> roomy k x" for x by (auto simp: roomy_def)
  {
    fix ev assume ev: "decodeEvent (nm_Data m) = Inr ev"
    obtain res c' where p: "ProcessEvent lo ev (co_core (na_co n)) = (res, c')" by fastforce
    obtain q rep where K: t "co_core (na_co n0) = (if rep then EndReplay else (\<lambda>c. c)) (c'\<lparr>c_lastSeq := q\<rparr>)"
      "q = (case nm_Sequence m of None \<Rightarrow> c_lastSeq (co_core (na_co n)) | Some seq \<Rightarrow> seq)"
      using C(4) [OF ev] p by auto
    have c0: "core_inv (co_core (na_co n0)) (next_hist ev (co_core (na_co n)) hist)"
      using core_inv_step [OF ci p] by (simp add: K(2))
    have "sm_epoch (c_store (co_core (na_co n0))) = sm_epoch (c_store (co_core (na_co n)))"
      using epoch.ProcessEvent_rel [OF ci p] by (simp add: K(2))
    then have r0: "roomy (Suc k) (na_co n0)" using room C(1) by (simp add: roomy_def)
    note T = tick_roomy [OF c0 r0, of clk]
    have "agrees (co_core (na_co n0)) c'" by (simp add: K(2) agrees_def EndReplay_def)
    then have "agrees (co_core (na_co n1)) c'" using T(1) K(1) by (simp add: n1 agrees_def)
    moreover have "c_lastSeq (co_core (na_co n1)) = q" using T(3) K(1,2) by (simp add: n1)
    ultimately have "agrees (co_core (na_co n1)) (snd (ProcessEvent lo ev (co_core (na_co n)))) \<and>
      c_lastSeq (co_core (na_co n1)) = (case nm_Sequence m of None \<Rightarrow> c_lastSeq (co_core (na_co n)) | Some seq \<Rightarrow> seq) \<and>
      (\<exists>hist'. core_inv (co_core (na_co n1)) hist') \<and> roomy k (na_co n1)"
      using T(2,4) K(1,3) p by (auto simp: n1)
  } note good = this
  show "decodeEvent (nm_Data m) = Inr ev \<Longrightarrow> agrees (co_core (na_co n1)) (snd (ProcessEvent lo ev (co_core (na_co n))))"
    "decodeEvent (nm_Data m) = Inr ev \<Longrightarrow> c_lastSeq (co_core (na_co n1)) =
       (case nm_Sequence m of None \<Rightarrow> c_lastSeq (co_core (na_co n)) | Some seq \<Rightarrow> seq)"
    using good by blast+
  show "\<exists>hist'. core_inv (co_core (na_co n1)) hist'" "roomy k (na_co n1)"
    using good C(3) ci less [OF room] by (cases "decodeEvent (nm_Data m)"; auto simp: n1)+
qed

lemma natsRun_agree:
  assumes "list_all2 same_message is js" "natsRun is n = Inr n2" "natsRun js j = Inr j2"
    and "agrees (co_core (na_co n)) (co_core (na_co j))" "core_inv (co_core (na_co n)) hist" "core_inv (co_core (na_co j)) hist'"
    and "c_lastSeq (co_core (na_co n)) = c_lastSeq (co_core (na_co j))"
    and "roomy (length is) (na_co n)" "roomy (length is) (na_co j)"
  shows "agrees (co_core (na_co n2)) (co_core (na_co j2)) \<and> c_lastSeq (co_core (na_co n2)) = c_lastSeq (co_core (na_co j2))"
  using assms
proof (induction arbitrary: n j hist hist' rule: list_all2_induct)
  case (Cons i "is" i' js)
  obtain lo m clk m' clk' where i: "i = NMessage lo m clk" "i' = NMessage lo m' clk'" "nm_Data m' = nm_Data m"
      "nm_Sequence m' = nm_Sequence m"
    using Cons.hyps(1) by (cases i; cases i') auto
  obtain n1 where n1: "natsStep (NMessage lo m clk) n = Inr n1" "natsRun is n1 = Inr n2"
    using Cons.prems(1) by (auto simp: i split: sum.splits)
  obtain j1 where j1: "natsStep (NMessage lo m' clk') j = Inr j1" "natsRun js j1 = Inr j2"
    using Cons.prems(2) by (auto simp: i split: sum.splits)
  have r: "roomy (Suc (length is)) (na_co n)" "roomy (Suc (length is)) (na_co j)" using Cons.prems(7,8) by simp_all
  note N = natsStep_core [OF n1(1) Cons.prems(4) r(1)] and J = natsStep_core [OF j1(1) Cons.prems(5) r(2), unfolded i(3,4)]
  have "agrees (co_core (na_co n1)) (co_core (na_co j1)) \<and> c_lastSeq (co_core (na_co n1)) = c_lastSeq (co_core (na_co j1))"
  proof (cases "decodeEvent (nm_Data m)")
    case (Inl e)
    then show ?thesis using N(1) J(1) Cons.prems(3,6) by simp
  next
    case (Inr ev)
    obtain res c' where p: "ProcessEvent lo ev (co_core (na_co n)) = (res, c')" by fastforce
    obtain res' d' where q: "ProcessEvent lo ev (co_core (na_co j)) = (res', d')" by fastforce
    have "agrees c' d'" using agrees_step [OF Cons.prems(4,5,3) p q] by blast
    moreover have "agrees (co_core (na_co n1)) c'" "agrees (co_core (na_co j1)) d'"
      using N(2) [OF Inr] J(2) [OF Inr] p q by simp_all
    ultimately show ?thesis using N(3) [OF Inr] J(3) [OF Inr] Cons.prems(6)
      by (simp add: agrees_def split: option.split)
  qed
  then show ?case using Cons.IH [OF n1(2) j1(2)] N(4,5) J(4,5) by blast
qed simp

lemma natsRun_job:
  assumes "job_ok gs (na_co n)" "core_inv (co_core (na_co n)) hist" "as_done (co_snap (na_co n)) = Some (Running f)"
    and "list_all2 same_message is js" "natsRun is n = Inr n2"
  shows "job_ok gs (na_co n2) \<and> co_snap (na_co n2) = co_snap (na_co n)"
  using assms(4,5,1-3)
proof (induction arbitrary: n hist rule: list_all2_induct)
  case (Cons i "is" i' js)
  obtain lo m clk where i: "i = NMessage lo m clk" using Cons.hyps(1) by (cases i; cases i') auto
  obtain n1 where n1: "natsStep (NMessage lo m clk) n = Inr n1" "natsRun is n1 = Inr n2"
    using Cons.prems(1) by (auto simp: i split: sum.splits)
  obtain t n0 where msg: "natsMessage lo m n = Inr (t, n0)" and eq: "n1 = (if t then n0\<lparr>na_co := tick clk (na_co n0)\<rparr> else n0)"
    using n1(1) by (auto simp: natsStep_def split: sum.splits)
  note C = natsMessage_core [OF msg]
  have "tick clk (na_co n0) = na_co n0" using tick_running Cons.prems(4) C(1) by simp
  then have co: "na_co n1 = na_co n0" by (simp add: eq)
  have "job_ok gs (na_co n0)"
  proof (cases "decodeEvent (nm_Data m)")
    case (Inl e)
    then show ?thesis using C(3) Cons.prems(2) by simp
  next
    case (Inr ev)
    obtain res c' where p: "ProcessEvent lo ev (co_core (na_co n)) = (res, c')" by fastforce
    obtain q rep where K: "co_core (na_co n0) = (if rep then EndReplay else (\<lambda>c. c)) (c'\<lparr>c_lastSeq := q\<rparr>)"
      using C(4) [OF Inr] p by auto
    show ?thesis using event_keeps_job [OF Cons.prems(2,3) p] C(1)
      by (simp add: job_ok_def K split: option.splits job.splits)
  qed
  moreover have "roomy (Suc 0) (na_co n)" using Cons.prems(4) by (simp add: roomy_def)
  then obtain hist' where "core_inv (co_core (na_co n0)) hist'"
    using natsStep_core(4) [OF n1(1) Cons.prems(3)] by (auto simp: co)
  ultimately show ?case using Cons.IH [OF n1(2), unfolded co] Cons.prems(4) C(1) by metis
qed simp

lemma Restore_epoch: "Restore mo data c = (Inr seq, c') \<Longrightarrow> sm_epoch (c_store c') = sm_epoch (c_store c)"
  by (auto simp: Restore_def rebuildNegativeDeadlines_def split: gob_bytes.splits sum.splits)

text \<open>A crash loses nothing on NATS either: let a tick start a snapshot, let the loop read further messages,
  let the background job write its file without an error, and let the process die. A new process that finds
  the file resumes right after the position of the snapshot, and once it has read the same messages again,
  whatever snapshots it takes meanwhile, its members, watermark and position are those of the one that died.\<close>

theorem nats_restart_is_exact:
  assumes "consumer_reach fs0 (na_co n) hist gs"
    and "sm_epoch (c_store (co_core (na_co n))) < sm_epoch (c_store (co_core (na_co n))) + 1"
    and "as_done (co_snap (na_co n)) = None" "tick clk (na_co n) = co1" "as_done (co_snap co1) = Some (Running f)"
    and "natsRun is (n\<lparr>na_co := co1\<rparr>) = Inr n2"
    and "background mo w (na_co n2) = co3" "as_done (co_snap co3) = Some (Finished None)"
    and "nc_SnapshotPath cfg = as_path (co_snap (na_co n))" "nc_SnapshotPath cfg \<noteq> []"
    and "map_orders_ok mo'" "natsStart mo' cfg b now (co_files co3) d = Inr (startSeq, j)"
    and "shard_reach d hist'" "unat (sm_epoch (c_store d)) + length is < 2 ^ 64"
    and "c_patterns d = c_patterns (co_core (na_co n))" "c_ruleSet d = c_ruleSet (co_core (na_co n))"
      "c_maxWindow d = c_maxWindow (co_core (na_co n))" "c_allowedLateness d = c_allowedLateness (co_core (na_co n))"
    and "list_all2 same_message is js" "natsRun js j = Inr j2"
  shows "startSeq = c_lastSeq (co_core (na_co n)) + 1 \<and>
    (let c = co_core (na_co n2); c' = co_core (na_co j2)
     in members_view (c_store c') = members_view (c_store c) \<and> c_watermark c' = c_watermark c \<and> c_lastSeq c' = c_lastSeq c)"
proof -
  let ?c = "co_core (na_co n)"
  note T = started_job [OF assms(1-3) assms(5) [folded assms(4)], unfolded assms(4)]
  have n1: "na_co (n\<lparr>na_co := co1\<rparr>) = co1" by simp
  have job: "job_ok [freeze_of ?c] (na_co n2)" "co_snap (na_co n2) = co_snap co1"
    using natsRun_job [of "[freeze_of ?c]" "n\<lparr>na_co := co1\<rparr>", unfolded n1, OF T(1,4) assms(5,19,6)] by blast+
  have stored: "co_files co3 (nc_SnapshotPath cfg) = Some (GobSnapshot (freeze_of ?c))"
    using finished_job [OF job(1), of f mo w] assms(5,7,8,9) job(2) T(5) by simp
  obtain c1 where S: "natsRestore mo' cfg (co_files co3) d = Inr (startSeq, c1)"
      "co_core (na_co j) = (if na_replaying j then BeginReplay c1 else c1)"
    using natsStart_Inr [OF assms(12)] by metis
  obtain res d' where r: "Restore mo' (GobSnapshot (freeze_of ?c)) d = (res, d')" by fastforce
  have I: "shard_inv ?c hist" using consumer_reach_inv [OF assms(1)] reach_inv by (simp add: consumer_inv_def)
  note R = restored_freeze [OF I reach_inv [OF assms(13)] assms(15) assms(11) r]
  have d': "d' = c1" and seq: "startSeq = c_lastSeq ?c + 1"
    using S(1) stored assms(10) r R(1) by (auto simp: natsRestore_def)
  have ag: "agrees (co_core co1) (co_core (na_co j))"
    using T(2) R(2) [OF assms(16-18)] by (auto simp: S(2) d' [symmetric] agrees_def BeginReplay_def)
  have inv: "core_inv (co_core (na_co j)) hist" using R(4) by (simp add: S(2) d')
  have sq: "c_lastSeq (co_core co1) = c_lastSeq (co_core (na_co j))"
    using R(3) T(3) by (simp add: S(2) d' BeginReplay_def)
  have "sm_epoch (c_store (co_core (na_co j))) = sm_epoch (c_store d)"
    using Restore_epoch [of mo' _ d] r R(1) by (simp add: S(2) d' BeginReplay_def)
  then have room: "roomy (length is) co1" "roomy (length is) (na_co j)"
    using assms(5,14) by (simp_all add: roomy_def)
  from natsRun_agree [OF assms(19,6,20), unfolded n1, OF ag T(4) inv sq room]
  show ?thesis using seq by (simp add: Let_def agrees_def)
qed
end
