(* ===== verification/Producer.thy ===== *)
theory Producer
  imports Consumer RuleFacts
begin

text \<open>
  \<^verbatim>\<open>service/engine/core/producer.go\<close>, \<^verbatim>\<open>producer_nats.go\<close> and
  \<^verbatim>\<open>producer_kafka.go\<close>: publishing an event to the shard that owns its member, and the
  filter by which a shard reads its events (\<^verbatim>\<open>cmd/rule-engine-core\<close>). Whether a broker
  accepts a message is an argument; a message body is the structure its JSON stands for.
\<close>

section \<open>JSON of an event\<close>

text \<open>What a value reads back as from its JSON: numbers become \<^verbatim>\<open>float64\<close>, where \<open>f32\<close> says
  how the shortest decimal of a \<^verbatim>\<open>float32\<close> reads; infinities and NaN have no JSON.\<close>

fun json_value :: "(f64 \<Rightarrow> f64) \<Rightarrow> gval \<Rightarrow> gval option"
and json_values :: "(f64 \<Rightarrow> f64) \<Rightarrow> gval list \<Rightarrow> gval list option"
and json_fields :: "(f64 \<Rightarrow> f64) \<Rightarrow> (string \<times> gval) list \<Rightarrow> (string \<times> gval) list option"
where
  "json_value f32 VNil = Some VNil"
| "json_value f32 (VBool b) = Some (VBool b)"
| "json_value f32 (VStr s) = Some (VStr s)"
| "json_value f32 (VF64 x) = (if fin x then Some (VF64 x) else None)"
| "json_value f32 (VF32 x) = (if fin x then Some (VF64 (f32 x)) else None)"
| "json_value f32 (VInt k i) = Some (VF64 (f64_of_int i))"
| "json_value f32 (VList vs) = map_option VList (json_values f32 vs)"
| "json_value f32 (VMap kvs) = map_option VMap (json_fields f32 kvs)"
| "json_values f32 [] = Some []"
| "json_values f32 (v # vs) = (case json_value f32 v of None \<Rightarrow> None | Some w \<Rightarrow> map_option (\<lambda>ws. w # ws) (json_values f32 vs))"
| "json_fields f32 [] = Some []"
| "json_fields f32 ((k, v) # kvs) =
     (case json_value f32 v of None \<Rightarrow> None | Some w \<Rightarrow> map_option (\<lambda>kws. (k, w) # kws) (json_fields f32 kvs))"

definition marshalEvent :: "(f64 \<Rightarrow> f64) \<Rightarrow> string enumeration \<Rightarrow> behavior_event \<Rightarrow> message_body option" where
  "marshalEvent f32 it event =
     (if list_all (\<lambda>x. json_value f32 (the (ev_Fields event x)) \<noteq> None) (it (dom (ev_Fields event)))
      then Some (JsonEvent (event\<lparr>ev_Fields := (\<lambda>x. Option.bind (ev_Fields event x) (json_value f32))\<rparr>))
      else None)"

section \<open>NATS (producer\_nats.go)\<close>

datatype producer_error = EMarshal | EPublish

record nats_producer_config =
  np_SubjectPrefix :: string
  np_NumShards :: int

definition natsSubject :: "nats_producer_config \<Rightarrow> string \<Rightarrow> string" where
  "natsSubject cfg memberID =
     np_SubjectPrefix cfg @ ''.'' @ fmt_int (ShardOfMember memberID (np_NumShards cfg)) @ ''.'' @ memberID"

definition natsPublish :: "(f64 \<Rightarrow> f64) \<Rightarrow> string enumeration \<Rightarrow> nats_producer_config \<Rightarrow> bool \<Rightarrow> behavior_event \<Rightarrow>
    (string \<times> message_body) list \<Rightarrow> producer_error option \<times> (string \<times> message_body) list" where
  "natsPublish f32 it cfg accepted event stream =
     (let subject = natsSubject cfg (ev_MemberID event) in
      case marshalEvent f32 it event of
        None \<Rightarrow> (Some EMarshal, stream)
      | Some data \<Rightarrow> if accepted then (None, stream @ [(subject, data)]) else (Some EPublish, stream))"

text \<open>What \<^verbatim>\<open>setupNATSConsumer\<close> lets a shard read.\<close>

definition natsFilterSubject :: "int \<Rightarrow> string" where
  "natsFilterSubject shardID = ''rule.events.'' @ fmt_int shardID @ ''.>''"

section \<open>Kafka (producer\_kafka.go)\<close>

record kafka_producer_config =
  kp_Topic :: string
  kp_NumShards :: int

record produced_record =
  pd_Topic :: string
  pd_Partition :: int
  pd_Key :: string
  pd_Value :: message_body

definition i32 :: "int \<Rightarrow> int" where
  "i32 x = signed_take_bit 31 x"

text \<open>The client puts each record into the partition \<open>route\<close> says.\<close>

definition kafkaPublish :: "(f64 \<Rightarrow> f64) \<Rightarrow> string enumeration \<Rightarrow> kafka_producer_config \<Rightarrow> (produced_record \<Rightarrow> int) \<Rightarrow> bool \<Rightarrow>
    behavior_event \<Rightarrow> (int \<Rightarrow> produced_record list) \<Rightarrow> producer_error option \<times> (int \<Rightarrow> produced_record list)" where
  "kafkaPublish f32 it cfg route accepted event parts =
     (let shard = ShardOfMember (ev_MemberID event) (kp_NumShards cfg) in
      case marshalEvent f32 it event of
        None \<Rightarrow> (Some EMarshal, parts)
      | Some data \<Rightarrow>
          (let record = \<lparr>pd_Topic = kp_Topic cfg, pd_Partition = i32 shard, pd_Key = ev_MemberID event, pd_Value = data\<rparr>
           in if accepted then (None, parts(route record := parts (route record) @ [record])) else (Some EPublish, parts)))"

section \<open>What is published is what is read\<close>

text \<open>The values that JSON has: what a decoded event holds.\<close>

fun json_native :: "gval \<Rightarrow> bool" where
  "json_native (VF64 x) = fin x"
| "json_native (VF32 x) = False"
| "json_native (VInt k i) = False"
| "json_native (VList vs) = list_all json_native vs"
| "json_native (VMap kvs) = list_all (\<lambda>kv. json_native (snd kv)) kvs"
| "json_native _ = True"

lemma json_native_value:
  "json_native v \<Longrightarrow> json_value f32 v = Some v"
  "list_all json_native vs \<Longrightarrow> json_values f32 vs = Some vs"
  "list_all (\<lambda>kv. json_native (snd kv)) kvs \<Longrightarrow> json_fields f32 kvs = Some kvs"
  by (induction f32 v and f32 vs and f32 kvs rule: json_value_json_values_json_fields.induct) auto

lemma marshal_native:
  assumes "enumerates it" "finite (dom (ev_Fields event))" "\<forall>v\<in>ran (ev_Fields event). json_native v"
  shows "marshalEvent f32 it event = Some (JsonEvent event)"
proof -
  have v: "json_value f32 v = Some v" if "ev_Fields event x = Some v" for x v
    using assms(3) that by (intro json_native_value(1)) (auto simp: ran_def)
  have "(\<lambda>x. Option.bind (ev_Fields event x) (json_value f32)) = ev_Fields event"
  proof
    fix x
    show "Option.bind (ev_Fields event x) (json_value f32) = ev_Fields event x"
      using v [of x] by (cases "ev_Fields event x") simp_all
  qed
  moreover have "list_all (\<lambda>x. json_value f32 (the (ev_Fields event x)) \<noteq> None) (it (dom (ev_Fields event)))"
    using v enumeratesD(2) [OF assms(1,2)] by (auto simp: list_all_iff)
  ultimately show ?thesis by (simp add: marshalEvent_def)
qed

lemma no_dot: "CHR ''.'' \<notin> set (fmt_int i)"
  using fmt_int_chars [of "CHR ''.''" i] by (auto simp: num_char_def decimal_digit_def)

lemma dot_split: "CHR ''.'' \<notin> set a \<Longrightarrow> CHR ''.'' \<notin> set b \<Longrightarrow> a @ ''.'' @ u = b @ ''.'' @ v \<Longrightarrow> a = b"
  using split_first(1) [of "CHR ''.''" a u] split_first(1) [of "CHR ''.''" b v] by simp


text \<open>The Kafka producer writes to the partition of the owner only if the client does what the record says:
  with a client that honours \<^verbatim>\<open>Partition\<close> the owner's partition grows by the event and no other
  changes.\<close>

theorem kafka_routes_to_owner:
  assumes "\<forall>r. route r = pd_Partition r" "shard_count_ok (kp_NumShards cfg)" "kp_NumShards cfg \<le> 2 ^ 31"
    and "ev_EventID event \<noteq> []" "ev_MemberID event \<noteq> []"
    and "enumerates it" "finite (dom (ev_Fields event))" "\<forall>v\<in>ran (ev_Fields event). json_native v"
    and "kafkaPublish f32 it cfg route True event parts = (err, parts')"
  shows "err = None \<and> (\<exists>r. decodeEvent (pd_Value r) = Inr event \<and>
    parts' = parts(ShardOfMember (ev_MemberID event) (kp_NumShards cfg) :=
      parts (ShardOfMember (ev_MemberID event) (kp_NumShards cfg)) @ [r]))"
proof -
  let ?own = "ShardOfMember (ev_MemberID event) (kp_NumShards cfg)"
  have "0 \<le> ?own \<and> ?own < kp_NumShards cfg" using member_shard_in_range [OF assms(2)] by blast
  then have own: "i32 ?own = ?own" using assms(3) by (simp add: i32_def signed_take_bit_int_eq_self)
  let ?r = "\<lparr>pd_Topic = kp_Topic cfg, pd_Partition = ?own, pd_Key = ev_MemberID event, pd_Value = JsonEvent event\<rparr>"
  have "err = None" "parts' = parts(?own := parts ?own @ [?r])"
    using assms(9) marshal_native [OF assms(6-8)] own by (simp_all add: kafkaPublish_def Let_def assms(1))
  then show ?thesis using assms(4,5) by (intro conjI exI [of _ ?r]) (simp_all add: decodeEvent_def)
qed

section \<open>Witnesses\<close>

text \<open>A broker's matching of filters that end in a full wildcard.\<close>

definition tail_match :: "string \<Rightarrow> string \<Rightarrow> bool" where
  "tail_match f s \<longleftrightarrow> (let p = butlast f in has_prefix s p \<and> length p < length s)"

definition plain_event :: behavior_event where
  "plain_event = \<lparr>ev_EventID = ''e'', ev_MemberID = ''alice'', ev_Behavior = ''Login'', ev_Fields = [''amount'' \<mapsto> VF64 fzero],
     ev_OccurredAt = 0\<rparr>"

lemma plain_event: "ev_EventID plain_event \<noteq> []" "ev_MemberID plain_event \<noteq> []"
  "finite (dom (ev_Fields plain_event))" "\<forall>v\<in>ran (ev_Fields plain_event). json_native v"
  by (auto simp: plain_event_def fzero_def)


theorem kafka_routes_to_owner_witness:
  "fst (kafkaPublish (\<lambda>x. x) sorted_list_of_set \<lparr>kp_Topic = ''t'', kp_NumShards = 4\<rparr> pd_Partition True plain_event (\<lambda>_. [])) = None"
  using kafka_routes_to_owner [of pd_Partition "\<lparr>kp_Topic = ''t'', kp_NumShards = 4\<rparr>" plain_event, OF _ _ _ plain_event(1,2)
      enumerates_sorted plain_event(3,4) prod.collapse [symmetric], of "\<lambda>x. x" "\<lambda>_. []"] by (simp add: shard_count_ok_def)

end
