(* ===== verification/Startup.thy ===== *)
theory Startup
  imports RuleStore KafkaConsumer NatsConsumer Producer
begin

text \<open>
  From the tables to a running shard: the pattern repository
  (\<^verbatim>\<open>service/base/cep/repository/db/cep_pattern.go\<close>), the settings
  (\<^verbatim>\<open>pkg/env/env.go\<close>) and the start-up of \<^verbatim>\<open>cmd/rule-engine-core/main.go\<close>. What
  the shard reports is traced back to the rows of the tables.
\<close>

section \<open>Settings (env.go)\<close>

type_synonym environment = "string \<rightharpoonup> string"

definition env_Str :: "environment \<Rightarrow> string \<Rightarrow> string \<Rightarrow> string" where
  "env_Str env key def = (case env key of Some v \<Rightarrow> if v \<noteq> [] then v else def | None \<Rightarrow> def)"

definition env_Int :: "environment \<Rightarrow> string \<Rightarrow> int \<Rightarrow> int" where
  "env_Int env key def = (case env key of
     Some v \<Rightarrow> if v \<noteq> [] then (case atoi v of Some n \<Rightarrow> n | None \<Rightarrow> def) else def
   | None \<Rightarrow> def)"

section \<open>Patterns (cep\_pattern.go, db\_entity.go)\<close>

definition CEPPatternStatusActive :: int where "CEPPatternStatusActive = 1"

datatype states_json = StatesJson "pattern_state list" | NoStates string

record pattern_record =
  pw_ID :: string
  pw_Name :: string
  pw_StatesJSON :: states_json
  pw_Status :: int

record pattern_ctx =
  px_ok :: bool
  px_order :: "pattern_record list \<Rightarrow> pattern_record list"

datatype startup_error =
    ELoadRules store_error
  | EPatternQuery
  | EPatternStates string
  | EAddPattern cep_error
  | EBackend string

fun decode_patterns :: "pattern_record list \<Rightarrow> startup_error + cep_pattern list" where
  "decode_patterns [] = Inr []"
| "decode_patterns (rec # recs) = (case pw_StatesJSON rec of
     NoStates s \<Rightarrow> Inl (EPatternStates (pw_ID rec))
   | StatesJson states \<Rightarrow>
       (case decode_patterns recs of
          Inl e \<Rightarrow> Inl e
        | Inr ps \<Rightarrow> Inr (\<lparr>pt_ID = pw_ID rec, pt_Name = pw_Name rec, pt_States = states\<rparr> # ps)))"

definition ListActivePatterns :: "pattern_ctx \<Rightarrow> pattern_record list \<Rightarrow> startup_error + cep_pattern list" where
  "ListActivePatterns px t =
     (if \<not> px_ok px then Inl EPatternQuery
      else decode_patterns (px_order px (filter (\<lambda>rec. pw_Status rec = CEPPatternStatusActive) t)))"

section \<open>Start-up (main.go)\<close>

fun addPatterns :: "cep_pattern list \<Rightarrow> core \<Rightarrow> startup_error + core" where
  "addPatterns [] c = Inr c"
| "addPatterns (p # ps) c = (case AddPattern p (c_patterns c) of
     Inl e \<Rightarrow> Inl (EAddPattern e)
   | Inr pats \<Rightarrow> addPatterns ps (c\<lparr>c_patterns := pats\<rparr>))"

definition startEngine :: "db_ctx \<Rightarrow> pattern_ctx \<Rightarrow> int \<Rightarrow> rule_row list strategy_uc \<Rightarrow> pattern_record list \<Rightarrow>
    startup_error + core" where
  "startEngine ctx px shardID uc patternRows = (case fst (ListActiveCompiled ctx uc) of
     Inl e \<Rightarrow> Inl (ELoadRules e)
   | Inr ruleSet \<Rightarrow>
       (case ListActivePatterns px patternRows of
          Inl e \<Rightarrow> Inl e
        | Inr patterns \<Rightarrow> addPatterns patterns (NewCore shardID ruleSet [])))"

definition snapshotPathOf :: "string \<Rightarrow> int \<Rightarrow> string" where
  "snapshotPathOf snapshotDir shardID =
     (if snapshotDir \<noteq> [] then snapshotDir @ ''/shard_'' @ fmt_int shardID @ ''.snap'' else [])"

definition setupNATSConsumer :: "int \<Rightarrow> string \<Rightarrow> nats_config" where
  "setupNATSConsumer shardID snapshotPath =
     \<lparr>nc_StreamName = ''rule-events'', nc_Subjects = [''rule.events.>''],
      nc_FilterSubject = natsFilterSubject shardID, nc_MaxAckPending = 1000, nc_SnapshotPath = snapshotPath, nc_SnapshotInterval = 60 * Second, nc_OnProcessed = False\<rparr>"

definition setupKafkaConsumer :: "environment \<Rightarrow> int \<Rightarrow> string \<Rightarrow> kafka_config" where
  "setupKafkaConsumer env shardID snapshotPath =
     \<lparr>kc_Topic = env_Str env ''TOPIC'' ''rule-events'', kc_Partition = i32 shardID, kc_MaxPollRecords = 1000,
      kc_SnapshotPath = snapshotPath, kc_SnapshotInterval = 60 * Second, kc_OnProcessed = False\<rparr>"

datatype backend = NATS "nats_config \<times> core" | Kafka "kafka_config \<times> core"

definition setupBackend :: "environment \<Rightarrow> db_ctx \<Rightarrow> pattern_ctx \<Rightarrow> rule_row list strategy_uc \<Rightarrow> pattern_record list \<Rightarrow>
    startup_error + backend" where
  "setupBackend env ctx px uc patternRows =
     (let backend = env_Str env ''BACKEND'' ''nats'';
          shardID = env_Int env ''SHARD_ID'' 0;
          snapshotPath = snapshotPathOf (env_Str env ''SNAPSHOT_DIR'' []) shardID
      in case startEngine ctx px shardID uc patternRows of
           Inl e \<Rightarrow> Inl e
         | Inr engine \<Rightarrow>
             if backend = ''nats'' then Inr (NATS (setupNATSConsumer shardID snapshotPath, engine))
             else if backend = ''kafka'' then Inr (Kafka (setupKafkaConsumer env shardID snapshotPath, engine))
             else Inl (EBackend backend))"

section \<open>A started shard is a reachable shard\<close>

lemma decode_patterns_Inr:
  "decode_patterns recs = Inr ps \<Longrightarrow>
    list_all2 (\<lambda>rec p. pt_ID p = pw_ID rec \<and> pt_Name p = pw_Name rec \<and> pw_StatesJSON rec = StatesJson (pt_States p)) recs ps"
proof (induction recs arbitrary: ps)
  case (Cons rec recs)
  then show ?case
    by (cases "pw_StatesJSON rec"; cases "decode_patterns recs") auto
qed simp

lemma decode_patterns_IDs: "decode_patterns recs = Inr ps \<Longrightarrow> map pt_ID ps = map pw_ID recs"
  by (induction recs arbitrary: ps) (auto split: states_json.splits sum.splits)

lemma addPatterns_Inr:
  assumes "addPatterns ps c = Inr c'" "shard_reach c (\<lambda>_. [])" "c_store c = empty_store"
    and "distinct (map pt_ID ps)" "\<forall>p\<in>set ps. patternByID (c_patterns c) (pt_ID p) = None"
  shows "shard_reach c' (\<lambda>_. []) \<and> c' = c\<lparr>c_patterns := c_patterns c'\<rparr> \<and>
    map cp_pattern (c_patterns c') = map cp_pattern (c_patterns c) @ ps"
  using assms
proof (induction ps arbitrary: c)
  case (Cons p ps)
  obtain pats where pats: "AddPattern p (c_patterns c) = Inr pats"
    using Cons.prems(1) by (auto split: sum.splits)
  obtain cp where cp: "pats = c_patterns c @ [cp]" "cp_pattern cp = p"
    using pats unfolding AddPattern_Inr by blast
  let ?c = "c\<lparr>c_patterns := pats\<rparr>"
  have "shard_reach ?c (\<lambda>_. [])"
    using Cons.prems pats by (intro reach_pattern) simp_all
  moreover have "addPatterns ps ?c = Inr c'" using Cons.prems(1) by (simp add: pats)
  moreover have "\<forall>q\<in>set ps. patternByID (c_patterns ?c) (pt_ID q) = None"
    using Cons.prems(4,5) cp by (auto simp: patternByID_def find_None_iff)
  ultimately have IH: "shard_reach c' (\<lambda>_. [])" "c' = ?c\<lparr>c_patterns := c_patterns c'\<rparr>"
    "map cp_pattern (c_patterns c') = map cp_pattern pats @ ps"
    using Cons.IH [of ?c] Cons.prems(3,4) by simp_all
  have "c' = c\<lparr>c_patterns := c_patterns c'\<rparr>" by (subst IH(2)) simp
  then show ?case using IH(1,3) cp by simp
qed simp

lemma startEngine_Inr:
  assumes "startEngine ctx px shardID uc t = Inr c" and fair: "\<forall>xs. mset (px_order px xs) = mset xs"
    and ids: "distinct (map pw_ID t)"
  obtains ruleSet ls where "fst (ListActiveCompiled ctx uc) = Inr ruleSet" "c_ruleSet c = ruleSet"
    "mset ls = mset (filter (\<lambda>rec. pw_Status rec = CEPPatternStatusActive) t)"
    "decode_patterns ls = Inr (map cp_pattern (c_patterns c))" "shard_reach c (\<lambda>_. [])"
proof -
  obtain ruleSet patterns where S: "fst (ListActiveCompiled ctx uc) = Inr ruleSet"
      "ListActivePatterns px t = Inr patterns" "addPatterns patterns (NewCore shardID ruleSet []) = Inr c"
    using assms(1) by (auto simp: startEngine_def split: sum.splits)
  let ?act = "filter (\<lambda>rec. pw_Status rec = CEPPatternStatusActive) t"
  let ?ls = "px_order px ?act"
  have d: "decode_patterns ?ls = Inr patterns" using S(2) by (simp add: ListActivePatterns_def split: if_splits)
  have "mset (map pw_ID ?ls) = mset (map pw_ID ?act)" using fair by (metis mset_map)
  moreover have "distinct (map pw_ID ?act)" using ids by (simp add: distinct_map_filter)
  ultimately have "distinct (map pt_ID patterns)"
    unfolding decode_patterns_IDs [OF d] by (metis mset_eq_imp_distinct_iff)
  moreover have n: "c_store (NewCore shardID ruleSet []) = empty_store" "c_patterns (NewCore shardID ruleSet []) = []"
    "c_ruleSet (NewCore shardID ruleSet []) = ruleSet" by (simp_all add: NewCore_def Let_def)
  ultimately have A: "shard_reach c (\<lambda>_. [])" "c = (NewCore shardID ruleSet [])\<lparr>c_patterns := c_patterns c\<rparr>"
      "map cp_pattern (c_patterns c) = patterns"
    using addPatterns_Inr [OF S(3) reach_new] by (simp_all add: patternByID_def)
  have r: "c_ruleSet c = ruleSet" by (subst A(2)) (simp add: n)
  show thesis by (rule that [OF S(1) r _ _ A(1)]) (use fair d A(3) in simp_all)
qed

lemma compile_strategies_all:
  "compile_strategies objs = Inr css \<Longrightarrow>
    list_all2 (\<lambda>obj cs. strategy_of (rg_RuleNode obj) cs \<and> cs_ID cs = rg_ID obj \<and> cs_Name cs = rg_Name obj) objs css"
proof (induction objs arbitrary: css)
  case (Cons obj objs)
  then show ?case
    by (cases "Compile (rg_RuleNode obj)"; cases "compile_strategies objs") (auto simp: strategy_of_def)
qed simp

lemma process_all_frame:
  assumes "shard_reach c hist" "\<forall>n. orders_ok (los n)"
  shows "c_ruleSet (snd (process_all los es c)) = c_ruleSet c \<and> (\<exists>hist'. shard_reach (snd (process_all los es c)) hist')"
  using assms
proof (induction es arbitrary: los c hist)
  case (Cons e es)
  obtain r c1 where r: "ProcessEvent (los 0) e c = (r, c1)" by fastforce
  obtain rs c2 where rs: "process_all (\<lambda>n. los (Suc n)) es c1 = (rs, c2)" by fastforce
  have "shard_reach c1 (next_hist e c hist)" using Cons.prems r by (intro reach_event) simp_all
  moreover have "c_ruleSet c1 = c_ruleSet c" by (rule ProcessEvent_frame(2) [OF reach_facts(1) [OF Cons.prems(1)] r])
  ultimately show ?case using Cons.IH [of c1 _ "\<lambda>n. los (Suc n)"] Cons.prems(2) by (auto simp: r rs)
qed auto

lemma filter_zip_map:
  assumes "list_all2 (\<lambda>obj cs. cs_ID cs = rg_ID obj \<and> cs_Name cs = rg_Name obj) objs css"
  shows "map (\<lambda>(node, cs). \<lparr>mu_ID = cs_ID cs, mu_Name = cs_Name cs\<rparr>)
      (filter (\<lambda>(node, cs). P node) (zip (map rg_RuleNode objs) css)) =
    map (\<lambda>obj. \<lparr>mu_ID = rg_ID obj, mu_Name = rg_Name obj\<rparr>) (filter (\<lambda>obj. P (rg_RuleNode obj)) objs)"
  using assms by (induction rule: list_all2_induct) auto

text \<open>C26 A shard that starts is one the other theorems speak of: it is reachable, and it has registered exactly
  the patterns that are active in the table, provided pattern IDs are a key of it.\<close>

theorem started_shard_is_reachable:
  assumes "startEngine ctx px shardID uc t = Inr c" "\<forall>xs. mset (px_order px xs) = mset xs" "distinct (map pw_ID t)"
  shows "shard_reach c (\<lambda>_. []) \<and>
    (\<exists>ls. mset ls = mset (filter (\<lambda>rec. pw_Status rec = CEPPatternStatusActive) t) \<and>
       list_all2 (\<lambda>rec cp. cp_pattern cp = \<lparr>pt_ID = pw_ID rec, pt_Name = pw_Name rec, pt_States = pt_States (cp_pattern cp)\<rparr> \<and>
         pw_StatesJSON rec = StatesJson (pt_States (cp_pattern cp))) ls (c_patterns c))"
proof -
  obtain ruleSet ls where S: "fst (ListActiveCompiled ctx uc) = Inr ruleSet" "c_ruleSet c = ruleSet"
    "mset ls = mset (filter (\<lambda>rec. pw_Status rec = CEPPatternStatusActive) t)"
    "decode_patterns ls = Inr (map cp_pattern (c_patterns c))" "shard_reach c (\<lambda>_. [])"
    using startEngine_Inr [OF assms] by metis
  have "list_all2 (\<lambda>rec cp. cp_pattern cp = \<lparr>pt_ID = pw_ID rec, pt_Name = pw_Name rec, pt_States = pt_States (cp_pattern cp)\<rparr> \<and>
         pw_StatesJSON rec = StatesJson (pt_States (cp_pattern cp))) ls (c_patterns c)"
    using decode_patterns_Inr [OF S(4)] unfolding list_all2_map2 by (rule list_all2_mono) (auto intro: cep_pattern.equality)
  then show ?thesis using S(3,5) by blast
qed

lemma active_rows_eq: "active_rows t = filter (\<lambda>row. rw_Status row = RuleStrategyStatusActive) t"
  by (auto simp: active_rows_def wanted_def intro: filter_cong)

lemma verdict_of_table:
  assumes "store_reach uc" "fair_order ctx" "startEngine ctx px shardID uc t = Inr c"
    and "\<forall>xs. mset (px_order px xs) = mset xs" "distinct (map pw_ID t)"
    and "\<forall>n. orders_ok (los n)" "c1 = snd (process_all los es c)" "ProcessEvent lo e c1 = (res, c2)"
    and "\<not> isLate c1 (ev_OccurredAt e)"
    and "\<forall>row\<in>set (su_store uc). \<forall>node. rw_RuleNode row = NodeJson node \<longrightarrow> (\<forall>k\<in>set (aggregate_keys_of node). key_ok k)"
    and "ms = foldEvent (c_maxWindow c1) e (view_or_new (members_view (c_store c1)) (ev_MemberID e))"
  shows "\<exists>ls objs. mset ls = mset (active_rows (su_store uc)) \<and>
    unmarshal_all (map scan ls) = Inr objs \<and>
    pr_MatchedRules res = map (\<lambda>obj. \<lparr>mu_ID = rg_ID obj, mu_Name = rg_Name obj\<rparr>)
      (filter (\<lambda>obj. matched (Evaluate (rg_RuleNode obj) (direct_ctx (lo_buckets lo) ms (buildEvalFields e) (ev_OccurredAt e)))) objs)"
proof -
  obtain ruleSet where S: "fst (ListActiveCompiled ctx uc) = Inr ruleSet" "c_ruleSet c = ruleSet" "shard_reach c (\<lambda>_. [])"
    using startEngine_Inr [OF assms(3-5)] by metis
  have "ListActiveCompiled ctx uc = (Inr ruleSet, snd (ListActiveCompiled ctx uc))" using S(1) by (simp add: prod_eq_iff)
  then have "current (su_store uc) ruleSet"
    using rule_db.load_current [OF store_reach_coherent [OF assms(1)] assms(2)] by blast
  then obtain ls objs where L: "mset ls = mset (active_rows (su_store uc))" "unmarshal_all (map scan ls) = Inr objs"
      "compile_rules objs = Inr ruleSet" unfolding current_def by blast
  obtain css where css: "compile_strategies objs = Inr css" "rs_Strategies ruleSet = css"
    using L(3) by (auto simp: compile_rules_def split: sum.splits)
  note A = compile_strategies_all [OF css(1)]
  obtain hist1 where R: "c_ruleSet c1 = ruleSet" "shard_reach c1 hist1"
    using process_all_frame [OF S(3) assms(6)] S(2) assms(7) by metis
  have s: "list_all2 strategy_of (map rg_RuleNode objs) (rs_Strategies (c_ruleSet c1))"
    unfolding R(1) css(2) list_all2_map1 by (rule list_all2_mono [OF A]) blast
  have rows: "set ls \<subseteq> set (su_store uc)" using L(1) by (metis active_rows_def filter_is_subset set_mset_mset)
  have k: "\<forall>node\<in>set (map rg_RuleNode objs). \<forall>k\<in>set (aggregate_keys_of node). key_ok k"
  proof
    fix node assume "node \<in> set (map rg_RuleNode objs)"
    then obtain i where i: "i < length objs" "node = rg_RuleNode (objs ! i)" by (auto simp: in_set_conv_nth)
    have "i < length ls" "unmarshalRuleNode (scan (ls ! i)) = Inr (objs ! i)"
      using L(2) i(1) unfolding unmarshal_all_Inr list_all2_map1 list_all2_conv_all_nth by auto
    then have "rw_RuleNode (ls ! i) = NodeJson node" "ls ! i \<in> set (su_store uc)"
      using rows i(2) by (auto simp: unmarshalRuleNode_def scan_def split: node_json.splits
          dest: arg_cong [where f = rg_RuleNode])
    then show "\<forall>k\<in>set (aggregate_keys_of node). key_ok k" using assms(10) by blast
  qed
  have IDs: "list_all2 (\<lambda>obj cs. cs_ID cs = rg_ID obj \<and> cs_Name cs = rg_Name obj) objs css"
    by (rule list_all2_mono [OF A]) blast
  have "pr_MatchedRules res = map (\<lambda>(node, cs). \<lparr>mu_ID = cs_ID cs, mu_Name = cs_Name cs\<rparr>)
    (filter (\<lambda>(node, cs). matched (Evaluate node (direct_ctx (lo_buckets lo) ms (buildEvalFields e) (ev_OccurredAt e))))
      (zip (map rg_RuleNode objs) (rs_Strategies (c_ruleSet c1))))"
    using on_time_step [OF reach_facts(1) [OF R(2)] assms(8,9)] evaluateRules_direct [OF s k]
    unfolding assms(11) by metis
  then show ?thesis
    using L(1,2) unfolding R(1) css(2) filter_zip_map [OF IDs] by blast
qed


end
