(* ===== verification/FloatMul.thy ===== *)
theory FloatMul
  imports GoFloat
begin

text \<open>
  More of Go's \<^verbatim>\<open>float64\<close>, for the tools around the engine: multiplication, decimal
  constants and the conversion to an integer. A result of moderate size is off the real result by at
  most one part in \<open>2^53\<close>.
\<close>

section \<open>Operations\<close>

fun f64_mul :: "f64 \<Rightarrow> f64 \<Rightarrow> f64" where
  "f64_mul (FFin s1 m1 e1) (FFin s2 m2 e2) =
     round_f64 (s1 \<noteq> s2) (m1 * m2 * up2 (e1 + e2)) (up2 (- (e1 + e2)))"
| "f64_mul (FInf s1) (FInf s2) = FInf (s1 \<noteq> s2)"
| "f64_mul (FInf s1) (FFin s2 m2 e2) = (if m2 = 0 then FNaN else FInf (s1 \<noteq> s2))"
| "f64_mul (FFin s1 m1 e1) (FInf s2) = (if m1 = 0 then FNaN else FInf (s1 \<noteq> s2))"
| "f64_mul _ _ = FNaN"

text \<open>The constant \<open>n/d\<close> of the source: the nearest \<^verbatim>\<open>float64\<close>.\<close>

definition f64_const :: "int \<Rightarrow> int \<Rightarrow> f64" where
  "f64_const n d = round_f64 (n < 0) \<bar>n\<bar> d"

text \<open>\<^verbatim>\<open>int(x)\<close> cuts the fraction off; what it gives for a value that is no 64-bit integer
  is left to the implementation: \<open>wild\<close>.\<close>

definition f64_to_int :: "(f64 \<Rightarrow> int) \<Rightarrow> f64 \<Rightarrow> int" where
  "f64_to_int wild x = (case x of
     FFin s m e \<Rightarrow>
       (let t = (m * up2 e) div up2 (- e); i = (if s then - t else t) in if i64_range i then i else wild x)
   | _ \<Rightarrow> wild x)"

section \<open>Rounding errors\<close>

text \<open>Reals that are neither near the subnormal nor near the infinite end.\<close>

definition moderate :: "real \<Rightarrow> bool" where
  "moderate x \<longleftrightarrow> 2 powi (- 1022) \<le> x \<and> x < 2 powi 1000"

lemma moderateI:
  assumes "1 / 1000 \<le> x" "x < 2 ^ 62"
  shows "moderate x"
proof -
  have "2 powi (- 1022) \<le> (2 powi (- 10) :: real)" by (rule power_int_increasing) simp_all
  also have "\<dots> \<le> x" using assms by simp
  finally have lo: "2 powi (- 1022) \<le> x" .
  have "(2 ^ 62 :: real) = 2 powi 62" by simp
  also have "\<dots> \<le> 2 powi 1000" by (rule power_int_increasing) simp_all
  finally show ?thesis using assms lo unfolding moderate_def by linarith
qed

lemma round_even_near:
  assumes "0 < den"
  shows "\<bar>real_of_int (round_even num den) - real_of_int num / real_of_int den\<bar> \<le> 1 / 2"
proof -
  define q r where "q = num div den" and "r = num mod den"
  have num: "num = q * den + r" by (simp add: q_def r_def)
  have r: "0 \<le> r" "r < den" using assms by (simp_all add: r_def)
  have x: "real_of_int num / real_of_int den = real_of_int q + real_of_int r / real_of_int den"
    using assms by (simp add: num add_divide_distrib)
  have "0 \<le> real_of_int r / real_of_int den" using r assms by simp
  moreover have "real_of_int r / real_of_int den \<le> 1 / 2" if "\<not> den < 2 * r"
    using that assms by (simp add: field_simps)
  moreover have "1 / 2 \<le> real_of_int r / real_of_int den" "real_of_int r / real_of_int den \<le> 1" if "den \<le> 2 * r"
    using that assms r by (simp_all add: field_simps)
  ultimately show ?thesis
    unfolding round_even_def Let_def q_def [symmetric] r_def [symmetric] x by auto
qed

lemma round_f64_near:
  assumes n: "0 < n" and d: "0 < d" and x: "moderate (real_of_int n / real_of_int d)"
  shows "fin (round_f64 s n d)"
    and "\<bar>fval (round_f64 s n d) - (if s then - 1 else 1) * (real_of_int n / real_of_int d)\<bar>
      \<le> real_of_int n / real_of_int d / 2 ^ 53"
proof -
  define x b e where "x = real_of_int n / real_of_int d" and "b = base_exp 53 n d" and "e = round_exp 53 (- 1074) n d"
  define q where "q = round_even (n * up2 (- e)) (d * up2 e)"
  note B = base_exp_bounds [OF n d, of 53, folded x_def b_def]
  have lo: "2 powi (- 1022) \<le> x" and hi: "x < 2 powi 1000" using x unfolding moderate_def x_def by blast+
  have "- 1074 \<le> b"
  proof (rule ccontr)
    assume "\<not> - 1074 \<le> b"
    then have "2 powi (53 + b) \<le> (2 powi (- 1022) :: real)" by (intro power_int_increasing) simp_all
    then show False using lo B(2) by (simp del: power_int_minus power_int_numeral)
  qed
  then have eb: "e = b" by (simp add: e_def b_def round_exp_base)
  have "2 powi (52 + b) < (2 powi 1000 :: real)" using le_less_trans [OF B(1) hi] by simp
  then have e: "e < 948" using power_int_le_imp_less_exp [of "2::real" "52 + b" 1000] by (simp add: eb)
  have dpos: "0 < d * up2 e" using d by simp
  have "\<bar>real_of_int q - x / 2 powi e\<bar> \<le> 1 / 2"
    using round_even_near [OF dpos, of "n * up2 (- e)"] by (simp only: q_def x_def scaled_real [OF d])
  then have "\<bar>real_of_int q - x / 2 powi e\<bar> * 2 powi e \<le> 1 / 2 * 2 powi e" by (intro mult_right_mono) simp_all
  moreover have "\<bar>real_of_int q - x / 2 powi e\<bar> * 2 powi e = \<bar>real_of_int q * 2 powi e - x\<bar>"
    using abs_mult [of "real_of_int q - x / 2 powi e" "2 powi e"] by (simp add: left_diff_distrib)
  ultimately have "\<bar>real_of_int q * 2 powi e - x\<bar> \<le> 2 powi e / 2" by simp
  also have "\<dots> \<le> x / 2 ^ 53"
  proof -
    have "2 powi e * 2 ^ 52 \<le> x" using B(1) by (simp add: eb power_int_add mult.commute)
    then show ?thesis by (simp add: field_simps)
  qed
  finally have near: "\<bar>real_of_int q * 2 powi e - x\<bar> \<le> x / 2 ^ 53" .
  have v: "fin (round_f64 s n d)" "fval (round_f64 s n d) = (if s then - 1 else 1) * (real_of_int q * 2 powi e)"
    using e by (auto simp: round_f64_unfold [OF n e_def q_def] power_int_add)
  show "fin (round_f64 s n d)" by (fact v(1))
  have "\<bar>- y + x\<bar> = \<bar>y - x\<bar>" for y by linarith
  then show "\<bar>fval (round_f64 s n d) - (if s then - 1 else 1) * (real_of_int n / real_of_int d)\<bar>
      \<le> real_of_int n / real_of_int d / 2 ^ 53"
    using near by (simp add: v(2) x_def)
qed

lemma f64_positive:
  assumes "fin a" "f64_wf a" "0 < fval a"
  obtains m e where "a = FFin False m e" "0 < m" "fval a = real_of_int m * 2 powi e"
proof -
  obtain s m e where a: "a = FFin s m e" using assms(1) by (cases a) simp_all
  have "0 \<le> m" using assms(2) by (simp add: a)
  moreover have "m \<noteq> 0" using assms(3) by (auto simp: a)
  moreover have "\<not> s"
  proof
    assume s
    have "0 \<le> real_of_int m * 2 powi e" using \<open>0 \<le> m\<close> by (intro mult_nonneg_nonneg) simp_all
    with \<open>s\<close> assms(3) show False by (simp add: a)
  qed
  ultimately show thesis using that [of m e] a by simp
qed

lemma f64_mul_near:
  assumes "fin a" "f64_wf a" "0 < fval a" "fin b" "f64_wf b" "0 < fval b"
    and "moderate (fval a * fval b)"
  shows "fin (f64_mul a b)" "\<bar>fval (f64_mul a b) - fval a * fval b\<bar> \<le> fval a * fval b / 2 ^ 53"
proof -
  obtain m1 e1 where a: "a = FFin False m1 e1" "0 < m1" "fval a = real_of_int m1 * 2 powi e1"
    by (rule f64_positive [OF assms(1-3)])
  obtain m2 e2 where b: "b = FFin False m2 e2" "0 < m2" "fval b = real_of_int m2 * 2 powi e2"
    by (rule f64_positive [OF assms(4-6)])
  have x: "real_of_int (m1 * m2 * up2 (e1 + e2)) / real_of_int (up2 (- (e1 + e2))) = fval a * fval b"
    using up2_quotient [of "e1 + e2"] by (simp add: a(3) b(3) power_int_add field_simps)
  have "0 < m1 * m2 * up2 (e1 + e2)" "0 < up2 (- (e1 + e2))" using a(2) b(2) by simp_all
  note N = round_f64_near [OF this, of False, unfolded x, OF assms(7)]
  show "fin (f64_mul a b)" "\<bar>fval (f64_mul a b) - fval a * fval b\<bar> \<le> fval a * fval b / 2 ^ 53"
    using N by (simp_all add: a(1) b(1) del: minus_add_distrib)
qed

lemma f64_add_near:
  assumes "fin a" "f64_wf a" "0 < fval a" "fin b" "f64_wf b" "0 < fval b"
    and "moderate (fval a + fval b)"
  shows "fin (f64_add a b)" "\<bar>fval (f64_add a b) - (fval a + fval b)\<bar> \<le> (fval a + fval b) / 2 ^ 53"
proof -
  obtain m1 e1 where a: "a = FFin False m1 e1" "0 < m1" "fval a = real_of_int m1 * 2 powi e1"
    by (rule f64_positive [OF assms(1-3)])
  obtain m2 e2 where b: "b = FFin False m2 e2" "0 < m2" "fval b = real_of_int m2 * 2 powi e2"
    by (rule f64_positive [OF assms(4-6)])
  define E t where "E = min e1 e2" and "t = at_exp False m1 e1 E + at_exp False m2 e2 E"
  have t: "real_of_int t * 2 powi E = fval a + fval b"
    by (simp add: t_def distrib_right at_exp_val E_def a b)
  have pos: "0 < t" using a(2) b(2) by (simp add: t_def at_exp_def add_pos_pos)
  have x: "real_of_int (t * up2 E) / real_of_int (up2 (- E)) = fval a + fval b"
    using up2_quotient [of E] by (simp add: t [symmetric] field_simps)
  have "0 < t * up2 E" "0 < up2 (- E)" using pos by simp_all
  note N = round_f64_near [OF this, of False, unfolded x, OF assms(7)]
  have "f64_add a b = round_f64 False (t * up2 E) (up2 (- E))"
    using pos by (simp add: a(1) b(1) Let_def E_def [symmetric] t_def [symmetric])
  then show "fin (f64_add a b)" "\<bar>fval (f64_add a b) - (fval a + fval b)\<bar> \<le> (fval a + fval b) / 2 ^ 53"
    using N by simp_all
qed

lemma f64_mul_wf: "f64_wf a \<Longrightarrow> f64_wf b \<Longrightarrow> f64_wf (f64_mul a b)"
  by (cases a; cases b) (auto intro!: round_f64_wf mult_nonneg_nonneg)

lemma f64_const_wf: "0 < d \<Longrightarrow> f64_wf (f64_const n d)"
  by (simp add: f64_const_def round_f64_wf)

lemma f64_const_near:
  assumes "0 < n" "0 < d" "moderate (real_of_int n / real_of_int d)"
  shows "fin (f64_const n d)" "\<bar>fval (f64_const n d) - real_of_int n / real_of_int d\<bar> \<le> real_of_int n / real_of_int d / 2 ^ 53"
  using round_f64_near [OF assms, of False] assms(1) by (simp_all add: f64_const_def)

lemma f64_to_int_floor:
  assumes "fin a" "f64_wf a" "0 < fval a" "fval a < 2 ^ 62"
  shows "f64_to_int wild a = \<lfloor>fval a\<rfloor>"
proof -
  obtain m e where a: "a = FFin False m e" "0 < m" "fval a = real_of_int m * 2 powi e"
    by (rule f64_positive [OF assms(1-3)])
  have "fval a = real_of_int (m * up2 e) / real_of_int (up2 (- e))"
    by (simp only: a(3) of_int_mult times_divide_eq_right [symmetric] up2_quotient)
  then have t: "(m * up2 e) div up2 (- e) = \<lfloor>fval a\<rfloor>" by (simp only: floor_divide_of_int_eq)
  have "0 \<le> \<lfloor>fval a\<rfloor>" "\<lfloor>fval a\<rfloor> < 2 ^ 62" using assms(3,4) by (simp_all add: floor_less_iff)
  then have "i64_range \<lfloor>fval a\<rfloor>" by simp
  then show ?thesis by (simp add: f64_to_int_def a(1) Let_def t [unfolded a(1)])
qed

lemma round_f64_fin:
  assumes "0 \<le> n" "0 < d" "real_of_int n / real_of_int d < 2 powi 1000"
  shows "fin (round_f64 s n d)"
proof (cases "n = 0")
  case False
  then have n: "0 < n" using assms(1) by simp
  define e where "e = round_exp 53 (- 1074) n d"
  have "2 powi (52 + base_exp 53 n d) < (2 powi 1000 :: real)"
    using le_less_trans [OF base_exp_bounds(1) [OF n assms(2), of 53] assms(3)] by simp
  then have "e < 948"
    using power_int_le_imp_less_exp [of "2::real" "52 + base_exp 53 n d" 1000] by (simp add: e_def round_exp_base)
  then show ?thesis by (auto simp: round_f64_unfold [OF n e_def refl])
qed (simp add: round_f64_def round_gen_def)

lemma f64_mul_fin:
  assumes "fin a" "f64_wf a" "fin b" "f64_wf b" "\<bar>fval a\<bar> < 2 ^ 300" "\<bar>fval b\<bar> < 2 ^ 300"
  shows "fin (f64_mul a b)"
proof -
  obtain s1 m1 e1 s2 m2 e2 where ab: "a = FFin s1 m1 e1" "b = FFin s2 m2 e2"
    using assms(1,3) by (cases a; cases b) simp_all
  have m: "0 \<le> m1" "0 \<le> m2" using assms(2,4) by (simp_all add: ab)
  have v: "\<bar>fval a\<bar> = real_of_int m1 * 2 powi e1" "\<bar>fval b\<bar> = real_of_int m2 * 2 powi e2"
    using m by (simp_all add: ab abs_mult)
  have "real_of_int (m1 * m2 * up2 (e1 + e2)) / real_of_int (up2 (- (e1 + e2))) = \<bar>fval a\<bar> * \<bar>fval b\<bar>"
    unfolding v of_int_mult times_divide_eq_right [symmetric] up2_quotient by (simp add: power_int_add)
  also have "\<dots> < 2 ^ 300 * 2 ^ 300" using assms(5,6) by (intro mult_strict_mono') simp_all
  also have "\<dots> \<le> (2 powi 1000 :: real)"
    unfolding power_add [symmetric] by (subst power_int_of_nat [symmetric], rule power_int_increasing) simp_all
  finally show ?thesis using m by (simp add: ab round_f64_fin del: minus_add_distrib)
qed

end
