(* ===== verification/LoadGen.thy ===== *)
theory LoadGen
  imports Startup FloatMul
begin

text \<open>
  The load generator (\<^verbatim>\<open>cmd/event-producer/main.go\<close>): its settings, the checks that Go
  makes when it starts, the events it makes up and its main loop over either broker. The clock, the random
  draws, the UUIDs and what the broker answers come in as the wake-ups of the loop.
\<close>

section \<open>Settings and start\<close>

definition BehaviorCryptoWithdraw :: string where
  "BehaviorCryptoWithdraw = ''CryptoWithdraw''"

record generator =
  ge_Topic :: string
  ge_NumShards :: int
  ge_Rate :: int
  ge_Count :: int
  ge_MemberPool :: int
  ge_Behavior :: string

definition generatorOf :: "environment \<Rightarrow> generator" where
  "generatorOf env =
     \<lparr>ge_Topic = env_Str env ''TOPIC'' ''rule-events'', ge_NumShards = env_Int env ''NUM_SHARDS'' 1,
      ge_Rate = env_Int env ''RATE'' 100, ge_Count = env_Int env ''COUNT'' 0,
      ge_MemberPool = env_Int env ''MEMBER_POOL'' 100, ge_Behavior = env_Str env ''BEHAVIOR'' BehaviorCryptoWithdraw\<rparr>"

datatype gen_fault = EUnknownBackend string | EDivideByZero | ENonPositiveInterval | EInvalidIntn

datatype gen_backend = ToNATS nats_producer_config | ToKafka kafka_producer_config

definition setupNATSProducer :: "environment \<Rightarrow> int \<Rightarrow> nats_producer_config" where
  "setupNATSProducer env numShards =
     \<lparr>np_SubjectPrefix = env_Str env ''SUBJECT_PREFIX'' ''rule.events'', np_NumShards = numShards\<rparr>"

definition setupKafkaProducer :: "string \<Rightarrow> int \<Rightarrow> kafka_producer_config" where
  "setupKafkaProducer topic numShards = \<lparr>kp_Topic = topic, kp_NumShards = numShards\<rparr>"

definition setupProducer :: "environment \<Rightarrow> gen_fault + gen_backend" where
  "setupProducer env =
     (let backend = env_Str env ''BACKEND'' ''nats''; g = generatorOf env in
      if backend = ''nats'' then Inr (ToNATS (setupNATSProducer env (ge_NumShards g)))
      else if backend = ''kafka'' then Inr (ToKafka (setupKafkaProducer (ge_Topic g) (ge_NumShards g)))
      else Inl (EUnknownBackend backend))"

text \<open>The division panics on zero, \<^verbatim>\<open>NewTicker\<close> on an interval that is not positive.\<close>

definition tickInterval :: "int \<Rightarrow> gen_fault + duration" where
  "tickInterval rate =
     (if rate = 0 then Inl EDivideByZero
      else let interval = Second sdiv rate in if interval \<le> 0 then Inl ENonPositiveInterval else Inr interval)"

lemma tickInterval_ok: "is_ok (tickInterval rate) \<longleftrightarrow> 0 < rate \<and> rate \<le> Second"
proof (cases "0 < rate")
  case True
  then have "Second sdiv rate = Second div rate" by (simp add: signed_divide_int_def Second_def)
  moreover have "0 < Second div rate \<longleftrightarrow> rate \<le> Second" using True by (simp add: pos_imp_zdiv_pos_iff)
  ultimately show ?thesis using True by (auto simp: tickInterval_def Let_def)
next
  case False
  then have "Second sdiv rate \<le> 0" if "rate \<noteq> 0"
    using that by (simp add: signed_divide_int_def Second_def pos_imp_zdiv_nonneg_iff)
  then show ?thesis using False by (auto simp: tickInterval_def Let_def)
qed

section \<open>Events\<close>

text \<open>\<^verbatim>\<open>user-%04d\<close>.\<close>

definition pad4 :: "int \<Rightarrow> string" where
  "pad4 i =
     (let ds = dec_str \<bar>i\<bar>; sign = (if i < 0 then ''-'' else [])
      in sign @ replicate (4 - length sign - length ds) (CHR ''0'') @ ds)"

definition userName :: "int \<Rightarrow> string" where
  "userName i = ''user-'' @ pad4 i"

text \<open>What one wake-up of the loop brings: the context is done, or a tick with its time, the draws of
  \<^verbatim>\<open>Intn\<close> and \<^verbatim>\<open>Float64\<close>, a UUID and whether the broker accepts the message.\<close>

datatype wakeup = Cancelled | Tick (tk_now: time) (tk_intn: int) (tk_float: f64) (tk_uuid: string) (tk_accepted: bool)

definition newEvent :: "generator \<Rightarrow> time \<Rightarrow> int \<Rightarrow> f64 \<Rightarrow> string \<Rightarrow> behavior_event" where
  "newEvent g now intn draw uuid =
     \<lparr>ev_EventID = uuid, ev_MemberID = userName (i64 (intn + 1)), ev_Behavior = ge_Behavior g,
      ev_Fields = [''amount'' \<mapsto> VF64 (f64_mul draw (f64_of_int 10000))], ev_OccurredAt = now\<rparr>"

section \<open>The main loop\<close>

text \<open>Where the loop is after the wake-ups it is given: returned, panicked, or still waiting.\<close>

datatype 's gen_outcome = GenStopped int 's | GenFinished int 's | GenPanicked gen_fault 's | GenWaiting int 's

fun generate :: "(bool \<Rightarrow> behavior_event \<Rightarrow> 's \<Rightarrow> producer_error option \<times> 's) \<Rightarrow> generator \<Rightarrow> wakeup list \<Rightarrow> int \<Rightarrow> 's \<Rightarrow>
    's gen_outcome" where
  "generate publish g [] sent s = GenWaiting sent s"
| "generate publish g (Cancelled # ws) sent s = GenStopped sent s"
| "generate publish g (Tick now intn draw uuid accepted # ws) sent s =
     (if ge_MemberPool g \<le> 0 then GenPanicked EInvalidIntn s
      else let event = newEvent g now intn draw uuid; (err, s1) = publish accepted event s
           in if err \<noteq> None then generate publish g ws sent s1
              else let sent1 = i64 (sent + 1)
                   in if 0 < ge_Count g \<and> ge_Count g \<le> sent1 then GenFinished sent1 s1
                      else generate publish g ws sent1 s1)"

section \<open>The interface of a producer\<close>

text \<open>\<^verbatim>\<open>EventProducer\<close> (\<^verbatim>\<open>producer.go\<close>): an accepted event is delivered, a
  refused one changes nothing.\<close>

definition tickEvent :: "generator \<Rightarrow> wakeup \<Rightarrow> behavior_event" where
  "tickEvent g w = newEvent g (tk_now w) (tk_intn w) (tk_float w) (tk_uuid w)"

definition accepted_events :: "generator \<Rightarrow> wakeup list \<Rightarrow> behavior_event list" where
  "accepted_events g ws = map (tickEvent g) (filter (\<lambda>w. w \<noteq> Cancelled \<and> tk_accepted w) ws)"

locale event_producer =
  fixes publish :: "bool \<Rightarrow> behavior_event \<Rightarrow> 's \<Rightarrow> producer_error option \<times> 's"
    and deliver :: "behavior_event \<Rightarrow> 's \<Rightarrow> 's"
    and sound :: "behavior_event \<Rightarrow> bool"
  assumes published: "sound e \<Longrightarrow> publish True e s = (None, deliver e s)"
    and refused: "\<exists>err. publish False e s = (Some err, s)"
begin

lemma generate_tick:
  assumes "0 < ge_MemberPool g" "w \<noteq> Cancelled" "sound (tickEvent g w)"
  shows "generate publish g (w # ws) sent s =
    (if \<not> tk_accepted w then generate publish g ws sent s
     else if 0 < ge_Count g \<and> ge_Count g \<le> i64 (sent + 1) then GenFinished (i64 (sent + 1)) (deliver (tickEvent g w) s)
     else generate publish g ws (i64 (sent + 1)) (deliver (tickEvent g w) s))"
proof -
  obtain now i x u a where w: "w = Tick now i x u a" using assms(2) by (cases w) simp_all
  obtain err where "publish False (newEvent g now i x u) s = (Some err, s)" using refused by blast
  then show ?thesis using assms published [of "newEvent g now i x u" s]
    by (cases a) (simp_all add: w tickEvent_def Let_def)
qed

lemma generate_finishes:
  assumes "0 < ge_MemberPool g" "\<forall>w\<in>set ws. w \<noteq> Cancelled \<and> sound (tickEvent g w)"
    and "0 \<le> sent" "sent < ge_Count g" "ge_Count g < 2 ^ 63" "ge_Count g \<le> sent + int (length (accepted_events g ws))"
  shows "generate publish g ws sent s =
    GenFinished (ge_Count g) (fold deliver (take (nat (ge_Count g - sent)) (accepted_events g ws)) s)"
  using assms(2-)
proof (induction ws arbitrary: sent s)
  case (Cons w ws)
  have w: "w \<noteq> Cancelled" "sound (tickEvent g w)" using Cons.prems(1) by simp_all
  have i: "i64 (sent + 1) = sent + 1" using Cons.prems(2-4) by (intro i64_id) simp
  show ?case
  proof (cases "tk_accepted w")
    case False
    then show ?thesis using Cons by (simp add: generate_tick [OF assms(1) w] accepted_events_def)
  next
    case True
    then have a: "accepted_events g (w # ws) = tickEvent g w # accepted_events g ws" using w by (simp add: accepted_events_def)
    have n: "nat (ge_Count g - sent) = Suc (nat (ge_Count g - (sent + 1)))" using Cons.prems(3) by simp
    show ?thesis
    proof (cases "ge_Count g \<le> sent + 1")
      case last: True
      then have "ge_Count g = sent + 1" using Cons.prems(3) by simp
      then show ?thesis using True Cons.prems(2) by (simp add: generate_tick [OF assms(1) w] i a)
    next
      case False
      then show ?thesis using True Cons.IH [of "sent + 1"] Cons.prems
        by (simp add: generate_tick [OF assms(1) w] i a n)
    qed
  qed
qed (simp add: accepted_events_def)

lemma generate_forever:
  assumes "0 < ge_MemberPool g" "\<forall>w\<in>set ws. w \<noteq> Cancelled \<and> sound (tickEvent g w)" "ge_Count g \<le> 0"
  shows "\<exists>sent'. generate publish g ws sent s = GenWaiting sent' (fold deliver (accepted_events g ws) s)"
  using assms(2)
proof (induction ws arbitrary: sent s)
  case (Cons w ws)
  then have w: "w \<noteq> Cancelled" "sound (tickEvent g w)" by simp_all
  show ?case using Cons w assms(3) by (simp add: generate_tick [OF assms(1) w] accepted_events_def)
qed (simp add: accepted_events_def)

end

definition json_sound :: "string enumeration \<Rightarrow> behavior_event \<Rightarrow> bool" where
  "json_sound it e \<longleftrightarrow> enumerates it \<and> finite (dom (ev_Fields e)) \<and> (\<forall>v\<in>ran (ev_Fields e). json_native v)"

definition natsDeliver :: "nats_producer_config \<Rightarrow> behavior_event \<Rightarrow> (string \<times> message_body) list \<Rightarrow> (string \<times> message_body) list" where
  "natsDeliver cfg e stream = stream @ [(natsSubject cfg (ev_MemberID e), JsonEvent e)]"

definition kafkaDeliver :: "kafka_producer_config \<Rightarrow> (produced_record \<Rightarrow> int) \<Rightarrow> behavior_event \<Rightarrow>
    (int \<Rightarrow> produced_record list) \<Rightarrow> int \<Rightarrow> produced_record list" where
  "kafkaDeliver cfg route e parts =
     (let record = \<lparr>pd_Topic = kp_Topic cfg, pd_Partition = i32 (ShardOfMember (ev_MemberID e) (kp_NumShards cfg)),
        pd_Key = ev_MemberID e, pd_Value = JsonEvent e\<rparr>
      in parts(route record := parts (route record) @ [record]))"

interpretation nats_producer: event_producer "natsPublish f32 it cfg" "natsDeliver cfg" "json_sound it"
  by unfold_locales
    (auto simp: natsPublish_def natsDeliver_def json_sound_def marshal_native split: option.split)

interpretation kafka_producer: event_producer "kafkaPublish f32 it kcfg route" "kafkaDeliver kcfg route" "json_sound it"
  by unfold_locales
    (auto simp: kafkaPublish_def kafkaDeliver_def json_sound_def marshal_native Let_def split: option.split)

section \<open>The generator stops\<close>

definition draws_ok :: "generator \<Rightarrow> wakeup \<Rightarrow> bool" where
  "draws_ok g w \<longleftrightarrow> w \<noteq> Cancelled \<and> 0 \<le> tk_intn w \<and> tk_intn w < ge_MemberPool g \<and>
     fin (tk_float w) \<and> f64_wf (tk_float w) \<and> 0 \<le> fval (tk_float w) \<and> fval (tk_float w) < 1 \<and> tk_uuid w \<noteq> []"

lemma tickEvent_sound:
  assumes "draws_ok g w" "enumerates it"
  shows "json_sound it (tickEvent g w)" "decodeEvent (JsonEvent (tickEvent g w)) = Inr (tickEvent g w)"
proof -
  have "fval (f64_of_int 10000) = 10000" "fin (f64_of_int 10000)" by (simp_all add: f64_of_int_exact)
  then have "fin (f64_mul (tk_float w) (f64_of_int 10000))"
    using assms(1) by (intro f64_mul_fin) (auto simp: draws_ok_def f64_of_int_wf)
  then show "json_sound it (tickEvent g w)" using assms(2) by (simp add: json_sound_def tickEvent_def newEvent_def)
  show "decodeEvent (JsonEvent (tickEvent g w)) = Inr (tickEvent g w)"
    using assms(1) by (simp add: draws_ok_def decodeEvent_def tickEvent_def newEvent_def userName_def)
qed


section \<open>Witness\<close>

definition demo_generator :: generator where
  "demo_generator = \<lparr>ge_Topic = ''rule-events'', ge_NumShards = 4, ge_Rate = 100, ge_Count = 1, ge_MemberPool = 100,
     ge_Behavior = BehaviorCryptoWithdraw\<rparr>"

definition demo_half :: "string \<Rightarrow> bool \<Rightarrow> wakeup" where
  "demo_half uuid accepted = Tick 0 41 (FFin False (2 ^ 52) (- 53)) uuid accepted"

lemma demo_half_ok: "draws_ok demo_generator (demo_half uuid accepted) = (uuid \<noteq> [])"
  by (simp add: draws_ok_def demo_half_def demo_generator_def)


end
