(* ===== verification/LatencyStats.thy ===== *)
theory LatencyStats
  imports FloatMul
begin

text \<open>
  The latency summary of the benchmark (\<^verbatim>\<open>cmd/bench/stats.go\<close>). Durations are nanoseconds;
  the percentile index is computed in \<^verbatim>\<open>float64\<close> as in the code, and proved to be the nearest rank.
\<close>

section \<open>The latency summary (stats.go)\<close>

record summary =
  sl_Count :: int
  sl_Mean :: int
  sl_P50 :: int
  sl_P95 :: int
  sl_P99 :: int
  sl_Max :: int

definition rank_index :: "(f64 \<Rightarrow> int) \<Rightarrow> int \<Rightarrow> f64 \<Rightarrow> int" where
  "rank_index wild len p =
     (let idx = i64 (f64_to_int wild (f64_add (f64_mul (f64_of_int len) p) (f64_const 999999 1000000)) - 1);
          idx = (if idx < 0 then 0 else idx)
      in if len \<le> idx then len - 1 else idx)"

definition summarize :: "(f64 \<Rightarrow> int) \<Rightarrow> int list \<Rightarrow> summary" where
  "summarize wild durs =
     (if durs = [] then \<lparr>sl_Count = 0, sl_Mean = 0, sl_P50 = 0, sl_P95 = 0, sl_P99 = 0, sl_Max = 0\<rparr>
      else let sorted = sort durs; len = int (length sorted);
               total = fold (\<lambda>d total. i64 (total + d)) sorted 0;
               rank = (\<lambda>p. sorted ! nat (rank_index wild len p))
           in \<lparr>sl_Count = len, sl_Mean = i64 (total sdiv len), sl_P50 = rank (f64_const 50 100),
               sl_P95 = rank (f64_const 95 100), sl_P99 = rank (f64_const 99 100),
               sl_Max = sorted ! nat (len - 1)\<rparr>)"

section \<open>Nearest rank\<close>

lemma rank_real:
  fixes N k :: int
  assumes "1 \<le> N" "N < 2 ^ 31" "1 \<le> k" "k \<le> 99"
  defines "y \<equiv> f64_add (f64_mul (f64_of_int N) (f64_const k 100)) (f64_const 999999 1000000)"
  shows "fin y" "f64_wf y" "\<bar>fval y - (real_of_int (k * N) / 100 + 999999 / 1000000)\<bar> < 1 / 1000000"
proof -
  define c q n eps where "c = f64_const k 100" and "q = f64_const 999999 1000000" and "n = f64_of_int N"
    and "eps = 1 / (2::real) ^ 53"
  define r where "r = real_of_int k / 100"
  have eps: "0 < eps" "eps \<le> 1 / 1000000000" by (simp_all add: eps_def)
  have n: "fin n" "fval n = N" "f64_wf n" using assms(1,2) by (simp_all add: n_def f64_of_int_exact f64_of_int_wf)
  have u: "0 \<le> N * eps" "N * eps \<le> 1 / 4194304"
  proof -
    have "N * eps \<le> 2 ^ 31 * eps" using assms(2) eps(1) by (intro mult_right_mono) simp_all
    then show "N * eps \<le> 1 / 4194304" by (simp add: eps_def)
    show "0 \<le> N * eps" using assms(1) eps(1) by simp
  qed
  have r: "1 / 100 \<le> r" "r \<le> 99 / 100" using assms(3,4) by (simp_all add: r_def)
  have c: "fin c" "f64_wf c" "\<bar>fval c - r\<bar> \<le> r * eps"
    using f64_const_near [of k 100] assms(3) moderateI [of r] r by (simp_all add: c_def r_def eps_def f64_const_wf)
  have re: "r * eps \<le> eps" "0 \<le> r * eps" using r eps by simp_all
  have c': "1 / 200 \<le> fval c" "fval c \<le> 1" "\<bar>fval c - r\<bar> \<le> eps" using c(3) re r eps by linarith+
  have q: "fin q" "f64_wf q" "\<bar>fval q - 999999 / 1000000\<bar> \<le> eps"
    using f64_const_near [of 999999 1000000] moderateI [of "999999 / 1000000"]
    by (simp_all add: q_def eps_def f64_const_wf)
  have N: "1 \<le> real_of_int N" "real_of_int N < 2 ^ 31" using assms(1,2) by simp_all
  have p: "N * fval c \<le> N" "1 / 200 \<le> N * fval c"
  proof -
    show "N * fval c \<le> N" using mult_left_mono [OF c'(2), of "real_of_int N"] N by simp
    show "1 / 200 \<le> N * fval c" using mult_mono [OF N(1) c'(1)] N by simp
  qed
  have mod: "moderate (fval n * fval c)" unfolding n(2)
    by (rule moderateI [OF _ le_less_trans [OF p(1)]]) (use p(2) N in simp_all)
  define x where "x = f64_mul n c"
  have x: "fin x" "f64_wf x" "\<bar>fval x - N * fval c\<bar> \<le> N * fval c * eps"
    using f64_mul_near [OF n(1,3) _ c(1,2) _ mod] n c' N
    by (simp_all add: x_def eps_def f64_mul_wf c(2))
  have xe: "N * fval c * eps \<le> N * eps" using mult_right_mono [OF p(1)] eps(1) by simp
  have x': "1 / 1000 \<le> fval x" "fval x \<le> N + N * eps" using x(3) xe p u by linarith+
  have ye: "fval x + fval q \<le> N + 2" using x' u q(3) eps by linarith
  have pos: "0 < fval x" "0 < fval q" "moderate (fval x + fval q)"
    using x' q(3) eps ye N by (auto intro!: moderateI)
  have y: "fin y" "f64_wf y" "\<bar>fval y - (fval x + fval q)\<bar> \<le> (fval x + fval q) * eps"
    using f64_add_near [OF x(1,2) pos(1) q(1,2) pos(2,3)]
    by (simp_all add: y_def x_def n_def c_def q_def eps_def f64_add_wf)
  show "fin y" "f64_wf y" by (fact y(1,2))+
  have e1: "(fval x + fval q) * eps \<le> N * eps + 2 * eps"
    using mult_right_mono [OF ye, of eps] eps(1) by (simp add: distrib_right)
  have e2: "\<bar>N * fval c - N * r\<bar> \<le> N * eps"
  proof -
    have "\<bar>N * fval c - N * r\<bar> = N * \<bar>fval c - r\<bar>" using N by (simp add: abs_mult flip: right_diff_distrib)
    also have "\<dots> \<le> N * eps" using c'(3) N by (intro mult_left_mono) simp_all
    finally show ?thesis .
  qed
  have "1 / 4194304 + 1 / 4194304 + 1 / 4194304 + 3 * eps < 1 / (1000000::real)" by (simp add: eps_def)
  then have "\<bar>fval y - (N * r + 999999 / 1000000)\<bar> < 1 / 1000000"
    using y(3) e1 e2 x(3) xe q(3) u by linarith
  then show "\<bar>fval y - (real_of_int (k * N) / 100 + 999999 / 1000000)\<bar> < 1 / 1000000" by (simp add: r_def mult.commute)
qed

text \<open>The index is one less than the \<open>p\<close>-th percent of the number of samples, rounded up.\<close>

lemma rank_index_nearest:
  assumes "1 \<le> N" "N < 2 ^ 31" "1 \<le> k" "k \<le> 99"
  shows "rank_index wild N (f64_const k 100) = (k * N + 99) div 100 - 1"
proof -
  define y where "y = f64_add (f64_mul (f64_of_int N) (f64_const k 100)) (f64_const 999999 1000000)"
  note Y = rank_real [OF assms, folded y_def]
  define C where "C = (k * N + 99) div 100"
  have M: "1 \<le> k * N" "k * N \<le> 99 * N" using assms mult_mono [of 1 k 1 N] by simp_all
  have C: "100 * C \<le> k * N + 99" "k * N \<le> 100 * C" by (simp_all add: C_def)
  have "real_of_int (100 * C) \<le> real_of_int (k * N + 99)" "real_of_int (k * N) \<le> real_of_int (100 * C)"
    using C by (simp_all only: of_int_le_iff)
  then have "C \<le> fval y" "fval y < C + 1" using Y(3) unfolding abs_less_iff of_int_mult of_int_add of_int_numeral by linarith+
  then have fl: "\<lfloor>fval y\<rfloor> = C" by linarith
  have "1 \<le> C" "C \<le> N" using C M assms(1) by linarith+
  then have "real_of_int C + 1 \<le> 2 ^ 62" "0 < real_of_int C" using assms(2) by simp_all
  then have "f64_to_int wild y = C"
    using f64_to_int_floor [OF Y(1,2), of wild] \<open>C \<le> fval y\<close> \<open>fval y < C + 1\<close> fl by linarith
  then show ?thesis
    using \<open>1 \<le> C\<close> \<open>C \<le> N\<close> assms(2) by (simp add: rank_index_def y_def [symmetric] C_def [symmetric] Let_def)
qed

lemma sorted_nth_counts:
  assumes "sorted xs" "i < length xs"
  shows "length (filter (\<lambda>d. d < xs ! i) xs) \<le> i" "Suc i \<le> length (filter (\<lambda>d. d \<le> xs ! i) xs)"
proof -
  have "{j. j < length xs \<and> xs ! j < xs ! i} \<subseteq> {..<i}"
    using sorted_nth_mono [OF assms(1)] by (force simp: not_le [symmetric])
  then show "length (filter (\<lambda>d. d < xs ! i) xs) \<le> i"
    using card_mono [of "{..<i}"] by (simp add: length_filter_conv_card)
  have "{..i} \<subseteq> {j. j < length xs \<and> xs ! j \<le> xs ! i}"
    using sorted_nth_mono [OF assms(1) _ assms(2)] assms(2) by auto
  then show "Suc i \<le> length (filter (\<lambda>d. d \<le> xs ! i) xs)"
    using card_mono [of "{j. j < length xs \<and> xs ! j \<le> xs ! i}" "{..i}"] by (simp add: length_filter_conv_card)
qed

lemma length_filter_sort: "length (filter P (sort xs)) = length (filter P xs)"
  by (metis mset_filter mset_sort size_mset)

text \<open>A sum of non-negative terms that fits never wraps on the way.\<close>

lemma fold_total:
  assumes "\<forall>d\<in>set xs. 0 \<le> d" "0 \<le> t" "t + sum_list xs < 2 ^ 63"
  shows "fold (\<lambda>d total. i64 (total + d)) xs t = t + sum_list xs"
  using assms
proof (induction xs arbitrary: t)
  case (Cons d xs)
  have "0 \<le> sum_list xs" using Cons.prems(1) by (intro sum_list_nonneg) simp
  then have "i64 (t + d) = t + d" using Cons.prems by (intro i64_id) simp
  then show ?case using Cons.IH [of "t + d"] Cons.prems by (simp add: algebra_simps)
qed simp

definition percentile_of :: "int list \<Rightarrow> int \<Rightarrow> int \<Rightarrow> bool" where
  "percentile_of durs k P \<longleftrightarrow> P \<in> set durs \<and>
     100 * int (length (filter (\<lambda>d. d < P) durs)) < k * int (length durs) \<and>
     k * int (length durs) \<le> 100 * int (length (filter (\<lambda>d. d \<le> P) durs))"

lemma rank_is_percentile:
  assumes "durs \<noteq> []" "int (length durs) < 2 ^ 31" "1 \<le> k" "k \<le> 99"
    and i_def: "i = nat (rank_index wild (int (length durs)) (f64_const k 100))"
  shows "i < length durs" "percentile_of durs k (sort durs ! i)" "int i = (k * int (length durs) + 99) div 100 - 1"
proof -
  define N where "N = int (length durs)"
  have N: "1 \<le> N" using assms(1) by (simp add: N_def Suc_le_eq)
  have M: "1 \<le> k * N" "k * N \<le> 99 * N" using assms(3,4) N mult_mono [of 1 k 1 N] by simp_all
  then have "1 \<le> (k * N + 99) div 100" "(k * N + 99) div 100 \<le> N" by linarith+
  moreover have "rank_index wild N (f64_const k 100) = (k * N + 99) div 100 - 1"
    using rank_index_nearest [OF N] assms(2-4) by (simp add: N_def)
  ultimately have i: "int i = (k * N + 99) div 100 - 1" "int i < N" by (simp_all add: i_def N_def)
  then show il: "i < length durs" "int i = (k * int (length durs) + 99) div 100 - 1" by (simp_all add: N_def)
  have "100 * int i < k * N" "k * N \<le> 100 * (int i + 1)" unfolding i(1) by presburger+
  then show "percentile_of durs k (sort durs ! i)"
    using sorted_nth_counts [of "sort durs" i] il(1) nth_mem [of i "sort durs"]
    by (simp add: percentile_of_def N_def length_filter_sort)
qed

text \<open>C40 The percentiles of a stage are those of the nearest-rank method in spite of the floating-point
  index: for fewer than \<open>2^31\<close> samples each is a sample, fewer than \<open>p\<close> percent of the samples lie below
  it and at least \<open>p\<close> percent do not lie above; they are ordered, the maximum is the greatest sample and
  the mean the integer mean.\<close>

theorem percentiles_are_nearest_rank:
  assumes "durs \<noteq> []" "int (length durs) < 2 ^ 31" "\<forall>d\<in>set durs. 0 \<le> d" "sum_list durs < 2 ^ 63"
    and "s = summarize wild durs"
  shows "percentile_of durs 50 (sl_P50 s) \<and> percentile_of durs 95 (sl_P95 s) \<and> percentile_of durs 99 (sl_P99 s) \<and>
    sl_P50 s \<le> sl_P95 s \<and> sl_P95 s \<le> sl_P99 s \<and> sl_P99 s \<le> sl_Max s \<and> sl_Max s = Max (set durs) \<and>
    sl_Mean s = sum_list durs div int (length durs) \<and> sl_Count s = int (length durs)"
proof -
  define xs i where "xs = sort durs" and "i = (\<lambda>k. nat (rank_index wild (int (length durs)) (f64_const k 100)))"
  have xs: "sorted xs" "length xs = length durs" "set xs = set durs" "mset xs = mset durs"
    by (simp_all add: xs_def)
  have R: "i k < length durs" "percentile_of durs k (xs ! i k)" "int (i k) = (k * int (length durs) + 99) div 100 - 1"
    if "1 \<le> k" "k \<le> 99" for k
    using rank_is_percentile [OF assms(1,2) that refl, of wild] by (simp_all add: i_def xs_def)
  have "i 50 \<le> i 95" "i 95 \<le> i 99" using R(3) [of 50] R(3) [of 95] R(3) [of 99] by simp_all
  then have mono: "xs ! i 50 \<le> xs ! i 95" "xs ! i 95 \<le> xs ! i 99" "xs ! i 99 \<le> xs ! (length durs - 1)"
    using R(1) [of 95] R(1) [of 99] xs(1,2) by (auto intro!: sorted_nth_mono)
  have "xs ! (length durs - 1) = Max (set durs)"
  proof (rule Max_eqI [symmetric])
    show "xs ! (length durs - 1) \<in> set durs" using nth_mem [of "length durs - 1" xs] xs assms(1) by simp
    fix y assume "y \<in> set durs"
    then obtain j where "j < length durs" "y = xs ! j" using xs(2,3) by (metis in_set_conv_nth)
    then show "y \<le> xs ! (length durs - 1)" using xs(1,2) by (auto intro!: sorted_nth_mono)
  qed simp
  moreover have "i64 (fold (\<lambda>d total. i64 (total + d)) xs 0 sdiv int (length durs)) = sum_list durs div int (length durs)"
  proof -
    have sum: "sum_list xs = sum_list durs" using xs(4) by (metis sum_mset_sum_list)
    have nn: "0 \<le> sum_list durs" using assms(3) by (intro sum_list_nonneg) simp
    have "sum_list durs div int (length durs) \<le> sum_list durs" using nn assms(1) by (intro zdiv_mono2 [of _ 1, simplified]) (simp_all add: Suc_le_eq)
    moreover have "fold (\<lambda>d total. i64 (total + d)) xs 0 = sum_list durs"
      using fold_total [of xs 0] assms(3,4) sum xs(3) by simp
    moreover have "sum_list durs sdiv int (length durs) = sum_list durs div int (length durs)"
      using nn assms(1) by (simp add: signed_divide_int_def sgn_if)
    moreover have "0 \<le> sum_list durs div int (length durs)"
      using nn assms(1) by (simp add: pos_imp_zdiv_nonneg_iff)
    ultimately show ?thesis using assms(4) by (simp add: i64_id)
  qed
  moreover have "nat (int (length durs) - 1) = length durs - 1" by (simp add: nat_diff_distrib)
  then have "sl_P50 s = xs ! i 50 \<and> sl_P95 s = xs ! i 95 \<and> sl_P99 s = xs ! i 99 \<and>
      sl_Max s = xs ! (length durs - 1) \<and> sl_Count s = int (length durs) \<and>
      sl_Mean s = i64 (fold (\<lambda>d total. i64 (total + d)) xs 0 sdiv int (length durs))"
    using assms(1) by (simp add: assms(5) summarize_def Let_def xs_def i_def)
  ultimately show ?thesis using mono R(2) [of 50] R(2) [of 95] R(2) [of 99] by simp
qed

theorem percentiles_are_nearest_rank_witness:
  "percentile_of [30, 10, 20] 95 (sl_P95 (summarize (\<lambda>_. 0) [30, 10, 20])) \<and>
   sl_Max (summarize (\<lambda>_. 0) [30, 10, 20]) = 30 \<and> sl_Mean (summarize (\<lambda>_. 0) [30, 10, 20]) = 20"
  using percentiles_are_nearest_rank [of "[30, 10, 20]", OF _ _ _ _ refl, of "\<lambda>_. 0"] by simp

end
