(* ===== verification/Bench.thy ===== *)
theory Bench
  imports LoadGen LatencyStats
begin

text \<open>
  The benchmark (\<^verbatim>\<open>cmd/bench/main.go\<close>): the latency collector between the consumer and
  the benchmark goroutine, one stage that sends at a target rate and waits for the consumer, and the ladder
  of stages. Clock readings, UUIDs, the broker and the pace of the consumer are arguments; a loop that has
  not returned after the readings it is given is \<open>None\<close>.
\<close>

section \<open>The collector\<close>

record collector =
  cl_durs :: "int list"
  cl_processed :: int

text \<open>\<^verbatim>\<open>add\<close> runs on the consumer's goroutine in two steps: the append under the lock,
  then the atomic count.\<close>

datatype collector_step = Append int | Counted

fun collect :: "collector_step \<Rightarrow> collector \<Rightarrow> collector" where
  "collect (Append d) c = c\<lparr>cl_durs := cl_durs c @ [d]\<rparr>"
| "collect Counted c = c\<lparr>cl_processed := i64 (cl_processed c + 1)\<rparr>"

definition drainSegment :: "collector \<Rightarrow> int list \<times> collector" where
  "drainSegment c = (cl_durs c, c\<lparr>cl_durs := []\<rparr>)"

section \<open>Sending on schedule\<close>

definition benchEvent :: "(int \<Rightarrow> string) \<Rightarrow> (int \<Rightarrow> time) \<Rightarrow> int \<Rightarrow> int \<Rightarrow> behavior_event option" where
  "benchEvent uuid clock memberPool produced =
     (if memberPool = 0 then None
      else Some \<lparr>ev_EventID = uuid produced, ev_MemberID = userName (i64 (produced smod memberPool + 1)),
        ev_Behavior = BehaviorCryptoWithdraw,
        ev_Fields = [''amount'' \<mapsto> VF64 (f64_add (f64_of_int (produced smod 10000)) (f64_const 1 2))],
        ev_OccurredAt = clock produced\<rparr>)"

definition Seconds :: "duration \<Rightarrow> f64" where
  "Seconds d = f64_add (f64_of_int (d sdiv Second)) (f64_div (f64_of_int (d smod Second)) (f64_of_int 1000000000))"

text \<open>The inner loop; the event of a number is \<open>None\<close> where making it panics.\<close>

partial_function (option) sendUntil :: "(int \<Rightarrow> behavior_event option) \<Rightarrow> f64 \<Rightarrow> f64 \<Rightarrow> int \<Rightarrow> behavior_event list \<Rightarrow>
    (gen_fault + (f64 \<times> int \<times> behavior_event list)) option" where
  "sendUntil ev target schedIdx produced sent =
     (if f64_lt schedIdx target
      then (case ev produced of
              None \<Rightarrow> Some (Inl EDivideByZero)
            | Some event \<Rightarrow> sendUntil ev target (f64_add schedIdx (f64_of_int 1)) (i64 (produced + 1)) (sent @ [event]))
      else Some (Inr (schedIdx, produced, sent)))"

text \<open>The outer loop reads the clock twice in each round: for the condition and for the target.\<close>

definition targetAt :: "int \<Rightarrow> duration \<Rightarrow> f64" where
  "targetAt rate t = f64_mul (f64_of_int rate) (Seconds t)"

fun sendStage :: "int \<Rightarrow> duration \<Rightarrow> (int \<Rightarrow> behavior_event option) \<Rightarrow> (duration \<times> duration) list \<Rightarrow> f64 \<Rightarrow> int \<Rightarrow>
    behavior_event list \<Rightarrow> (gen_fault + (int \<times> behavior_event list)) option" where
  "sendStage rate dur ev [] schedIdx produced sent = None"
| "sendStage rate dur ev ((t1, t2) # ts) schedIdx produced sent =
     (if t1 < dur
      then (case sendUntil ev (targetAt rate t2) schedIdx produced sent of
              None \<Rightarrow> None
            | Some (Inl e) \<Rightarrow> Some (Inl e)
            | Some (Inr (schedIdx1, produced1, sent1)) \<Rightarrow> sendStage rate dur ev ts schedIdx1 produced1 sent1)
      else Some (Inr (produced, sent)))"

section \<open>One stage\<close>

definition grace :: duration where
  "grace = 15 * Second"

text \<open>The loop that waits for the consumer: each reading of the clock comes with what the consumer did until
  the count is read.\<close>

fun drainWait :: "int \<Rightarrow> int \<Rightarrow> (duration \<times> collector_step list) list \<Rightarrow> collector \<Rightarrow> (bool \<times> collector) option" where
  "drainWait processedBefore okProduced [] col = None"
| "drainWait processedBefore okProduced ((t, steps) # rs) col =
     (if t < grace
      then let col1 = fold collect steps col
           in if okProduced \<le> i64 (cl_processed col1 - processedBefore) then Some (True, col1)
              else drainWait processedBefore okProduced rs col1
      else Some (False, col))"

record stage_result =
  sr_TargetRate :: int
  sr_AchievedRate :: f64
  sr_Produced :: int
  sr_PubErrors :: int
  sr_Drained :: bool
  sr_DrainTime :: duration
  sr_Latency :: summary
  sr_samples :: "int list"

text \<open>What a stage meets: what the consumer does before the counts are read, while the stage sends, while it
  waits and before the samples are taken; the clock; the failed publishes before and after.\<close>

record stage_env =
  se_early :: "collector_step list"
  se_errsBefore :: int
  se_ticks :: "(duration \<times> duration) list"
  se_elapsed :: duration
  se_during :: "collector_step list"
  se_errsAfter :: int
  se_waits :: "(duration \<times> collector_step list) list"
  se_tail :: "collector_step list"
  se_drainTime :: duration

definition runStage :: "(f64 \<Rightarrow> int) \<Rightarrow> (int \<Rightarrow> behavior_event option) \<Rightarrow> stage_env \<Rightarrow> int \<Rightarrow> duration \<Rightarrow> collector \<Rightarrow>
    (gen_fault + (stage_result \<times> behavior_event list \<times> collector)) option" where
  "runStage wild ev env targetRate dur col =
     (let col1 = fold collect (se_early env) (snd (drainSegment col));
          processedBefore = cl_processed col1
      in case sendStage targetRate dur ev (se_ticks env) fzero 0 [] of
           None \<Rightarrow> None
         | Some (Inl e) \<Rightarrow> Some (Inl e)
         | Some (Inr (produced, sent)) \<Rightarrow>
             (let pubErrs = i64 (se_errsAfter env - se_errsBefore env);
                  okProduced = i64 (produced - pubErrs)
              in case drainWait processedBefore okProduced (se_waits env) (fold collect (se_during env) col1) of
                   None \<Rightarrow> None
                 | Some (drained, col2) \<Rightarrow>
                     (let (samples, col3) = drainSegment (fold collect (se_tail env) col2)
                      in Some (Inr (\<lparr>sr_TargetRate = targetRate, sr_AchievedRate = f64_div (f64_of_int produced) (Seconds (se_elapsed env)),
                           sr_Produced = produced, sr_PubErrors = pubErrs, sr_Drained = drained, sr_DrainTime = se_drainTime env,
                           sr_Latency = summarize wild samples, sr_samples = samples\<rparr>, sent, col3)))))"

section \<open>The ladder\<close>

fun splitComma :: "string \<Rightarrow> string list" where
  "splitComma [] = [[]]"
| "splitComma (c # cs) = (if c = CHR '','' then [] # splitComma cs
     else (case splitComma cs of [] \<Rightarrow> [[c]] | p # ps \<Rightarrow> (c # p) # ps))"

definition ascii_space :: "char \<Rightarrow> bool" where
  "ascii_space c \<longleftrightarrow> c \<in> {CHR 0x09, CHR 0x0A, CHR 0x0B, CHR 0x0C, CHR 0x0D, CHR '' ''}"

text \<open>\<^verbatim>\<open>TrimSpace\<close> on ASCII text.\<close>

definition trimSpace :: "string \<Rightarrow> string" where
  "trimSpace s = rev (dropWhile ascii_space (rev (dropWhile ascii_space s)))"

definition stage_failed :: "stage_result \<Rightarrow> bool" where
  "stage_failed res \<longleftrightarrow> \<not> sr_Drained res \<or>
     f64_lt (sr_AchievedRate res) (f64_mul (f64_const 99 100) (f64_of_int (sr_TargetRate res)))"

datatype bench_fault = EBadRate string | EUnknownMode string | EStage gen_fault

text \<open>A bad entry ends the program with no report. The collector goes from one stage to the next.\<close>

fun ladder :: "(f64 \<Rightarrow> int) \<Rightarrow> (nat \<Rightarrow> int \<Rightarrow> behavior_event option) \<Rightarrow> (nat \<Rightarrow> stage_env) \<Rightarrow> duration \<Rightarrow> nat \<Rightarrow>
    string list \<Rightarrow> collector \<Rightarrow> (bench_fault + stage_result list) option" where
  "ladder wild ev envs dur i [] col = Some (Inr [])"
| "ladder wild ev envs dur i (rs # rest) col = (case atoi (trimSpace rs) of
     None \<Rightarrow> Some (Inl (EBadRate rs))
   | Some r \<Rightarrow>
       if r \<le> 0 then Some (Inl (EBadRate rs))
       else (case runStage wild (ev i) (envs i) r dur col of
               None \<Rightarrow> None
             | Some (Inl e) \<Rightarrow> Some (Inl (EStage e))
             | Some (Inr (res, sent, col1)) \<Rightarrow>
                 if stage_failed res then Some (Inr [res])
                 else (case ladder wild ev envs dur (Suc i) rest col1 of
                         None \<Rightarrow> None
                       | Some (Inl e) \<Rightarrow> Some (Inl e)
                       | Some (Inr stages) \<Rightarrow> Some (Inr (res # stages)))))"

definition benchStages :: "environment \<Rightarrow> (f64 \<Rightarrow> int) \<Rightarrow> (nat \<Rightarrow> int \<Rightarrow> behavior_event option) \<Rightarrow> (nat \<Rightarrow> stage_env) \<Rightarrow>
    duration \<Rightarrow> (bench_fault + stage_result list) option" where
  "benchStages env wild ev envs dur =
     (let mode = env_Str env ''MODE'' ''fixed''; col = \<lparr>cl_durs = [], cl_processed = 0\<rparr> in
      if mode = ''fixed'' then
        (case runStage wild (ev 0) (envs 0) (env_Int env ''RATE'' 10000) dur col of
           None \<Rightarrow> None
         | Some (Inl e) \<Rightarrow> Some (Inl (EStage e))
         | Some (Inr (res, sent, col1)) \<Rightarrow> Some (Inr [res]))
      else if mode = ''ladder'' then
        ladder wild ev envs dur 0 (splitComma (env_Str env ''RATES'' ''10000,20000,40000,80000,160000'')) col
      else Some (Inl (EUnknownMode mode)))"

section \<open>The brokers\<close>

text \<open>Each run has a stream or topic of its own with one shard. An event that does not marshal is sent with an
  empty body; a publish that fails, at once or later, counts as one error.\<close>

definition benchBody :: "(f64 \<Rightarrow> f64) \<Rightarrow> string enumeration \<Rightarrow> behavior_event \<Rightarrow> message_body" where
  "benchBody f32 it event = (case marshalEvent f32 it event of None \<Rightarrow> NotJson | Some data \<Rightarrow> data)"

definition benchNATSPublish :: "(f64 \<Rightarrow> f64) \<Rightarrow> string enumeration \<Rightarrow> string \<Rightarrow> bool \<Rightarrow> behavior_event \<Rightarrow>
    int \<times> (string \<times> message_body) list \<Rightarrow> int \<times> (string \<times> message_body) list" where
  "benchNATSPublish f32 it pre accepted event st =
     (let (pubErrs, stream) = st in
      if accepted then (pubErrs, stream @ [(pre @ ''.0.'' @ ev_MemberID event, benchBody f32 it event)])
      else (i64 (pubErrs + 1), stream))"

definition benchNATSConsumer :: "string \<Rightarrow> string \<Rightarrow> nats_config" where
  "benchNATSConsumer runID snapshotPath =
     \<lparr>nc_StreamName = runID, nc_Subjects = [runID @ ''.>''], nc_FilterSubject = runID @ ''.0.>'', nc_MaxAckPending = 8192,
      nc_SnapshotPath = snapshotPath, nc_SnapshotInterval = 10 * Second, nc_OnProcessed = True\<rparr>"

definition benchKafkaPublish :: "(f64 \<Rightarrow> f64) \<Rightarrow> string enumeration \<Rightarrow> string \<Rightarrow> (produced_record \<Rightarrow> int) \<Rightarrow> bool \<Rightarrow>
    behavior_event \<Rightarrow> int \<times> (int \<Rightarrow> produced_record list) \<Rightarrow> int \<times> (int \<Rightarrow> produced_record list)" where
  "benchKafkaPublish f32 it runID route accepted event st =
     (let (pubErrs, parts) = st;
          record = \<lparr>pd_Topic = runID, pd_Partition = 0, pd_Key = ev_MemberID event, pd_Value = benchBody f32 it event\<rparr>
      in if accepted then (pubErrs, parts(route record := parts (route record) @ [record]))
         else (i64 (pubErrs + 1), parts))"

definition benchKafkaConsumer :: "string \<Rightarrow> string \<Rightarrow> kafka_config" where
  "benchKafkaConsumer runID snapshotPath =
     \<lparr>kc_Topic = runID, kc_Partition = 0, kc_MaxPollRecords = 8192,
      kc_SnapshotPath = snapshotPath, kc_SnapshotInterval = 10 * Second, kc_OnProcessed = True\<rparr>"

text \<open>The consumer's filter lets every event of the run through.\<close>

lemma bench_stream_is_read:
  assumes "\<forall>p s. CHR ''*'' \<notin> set p \<longrightarrow> CHR ''>'' \<notin> set p \<longrightarrow>
      matches (p @ ''.>'') s = (\<exists>rest. rest \<noteq> [] \<and> s = p @ ''.'' @ rest)"
    and "CHR ''*'' \<notin> set runID" "CHR ''>'' \<notin> set runID" "ev_MemberID event \<noteq> []"
    and "benchNATSPublish f32 it runID True event (errs, stream) = (errs', stream')"
  shows "matches (nc_FilterSubject (benchNATSConsumer runID path)) (fst (List.last stream'))"
proof -
  have "matches ((runID @ ''.0'') @ ''.>'') s = (\<exists>rest. rest \<noteq> [] \<and> s = (runID @ ''.0'') @ ''.'' @ rest)" for s
    using assms(1) [rule_format, of "runID @ ''.0''" s] assms(2,3) by simp
  then show ?thesis using assms(4,5) by (auto simp: benchNATSPublish_def benchNATSConsumer_def)
qed

section \<open>A stage sends on schedule\<close>

declare sendUntil.simps [simp del]

lemma sendUntil_returns:
  assumes "fin target" "fval target < 2 ^ 52" "fin schedIdx" "fval schedIdx = real_of_int produced" "0 \<le> produced" "produced < 2 ^ 53"
    and "\<And>k. 0 \<le> k \<Longrightarrow> ev k \<noteq> None" "n = max produced \<lceil>fval target\<rceil>"
  shows "\<exists>idx. sendUntil ev target schedIdx produced sent = Some (Inr (idx, n, sent @ map (the \<circ> ev) [produced..n - 1])) \<and>
    fin idx \<and> fval idx = real_of_int n"
  using assms
proof (induction "nat (\<lceil>fval target\<rceil> - produced)" arbitrary: schedIdx produced sent rule: less_induct)
  case less
  have lt: "f64_lt schedIdx target \<longleftrightarrow> real_of_int produced < fval target"
    using less.prems by (simp add: f64_lt_fin)
  show ?case
  proof (cases "real_of_int produced < fval target")
    case False
    then have "n = produced" using less.prems(8) by (simp add: ceiling_le_iff)
    then show ?thesis using False less.prems(3,4) lt by (simp add: sendUntil.simps)
  next
    case True
    obtain event where event: "ev produced = Some event" using less.prems(5,7) by blast
    have small: "produced < 2 ^ 52" "produced < \<lceil>fval target\<rceil>" using True less.prems(2) by (simp_all add: less_ceiling_iff)
    have one: "fin (f64_add schedIdx (f64_of_int 1))" "fval (f64_add schedIdx (f64_of_int 1)) = real_of_int (produced + 1)"
      using f64_add_exact [OF less.prems(3), of "f64_of_int 1" "produced + 1"] f64_of_int_exact [of 1] less.prems(4,5) small
      by simp_all
    have i: "i64 (produced + 1) = produced + 1" using less.prems(5,6) by (intro i64_id) simp
    have n: "n = max (produced + 1) \<lceil>fval target\<rceil>" using less.prems(8) small by simp
    from less.hyps [OF _ less.prems(1,2) one _ _ less.prems(7) n, of "sent @ [event]"] less.prems(5) small
    obtain idx where "sendUntil ev target (f64_add schedIdx (f64_of_int 1)) (produced + 1) (sent @ [event]) =
        Some (Inr (idx, n, (sent @ [event]) @ map (the \<circ> ev) [produced + 1..n - 1]))" "fin idx" "fval idx = real_of_int n"
      by auto
    moreover have "[produced..n - 1] = produced # [produced + 1..n - 1]"
      using small less.prems(8) by (intro upto_rec1) simp
    ultimately show ?thesis using True lt event by (subst sendUntil.simps) (simp add: i)
  qed
qed

definition rounds :: "duration \<Rightarrow> (duration \<times> duration) list \<Rightarrow> duration list" where
  "rounds dur ticks = map snd (takeWhile (\<lambda>(t1, t2). t1 < dur) ticks)"

lemma sendStage_returns:
  assumes "\<exists>t\<in>set ticks. dur \<le> fst t" "\<And>k. 0 \<le> k \<Longrightarrow> ev k \<noteq> None"
    and "\<forall>t\<in>set (rounds dur ticks). fin (targetAt rate t) \<and> fval (targetAt rate t) < 2 ^ 52"
    and "fin idx" "fval idx = real_of_int produced" "0 \<le> produced" "produced < 2 ^ 53"
    and "n = Max (insert produced ((\<lambda>t. \<lceil>fval (targetAt rate t)\<rceil>) ` set (rounds dur ticks)))"
  shows "sendStage rate dur ev ticks idx produced sent = Some (Inr (n, sent @ map (the \<circ> ev) [produced..n - 1]))"
  using assms
proof (induction ticks arbitrary: idx produced sent)
  case (Cons t ticks)
  obtain t1 t2 where t: "t = (t1, t2)" by fastforce
  show ?case
  proof (cases "t1 < dur")
    case False
    then show ?thesis using Cons.prems(8) by (simp add: t rounds_def)
  next
    case True
    have r: "rounds dur (t # ticks) = t2 # rounds dur ticks" using True by (simp add: t rounds_def)
    have T: "fin (targetAt rate t2)" "fval (targetAt rate t2) < 2 ^ 52" using Cons.prems(3) by (simp_all add: r)
    define m where "m = max produced \<lceil>fval (targetAt rate t2)\<rceil>"
    obtain idx1 where S: "sendUntil ev (targetAt rate t2) idx produced sent =
        Some (Inr (idx1, m, sent @ map (the \<circ> ev) [produced..m - 1]))" "fin idx1" "fval idx1 = real_of_int m"
      using sendUntil_returns [where ev = ev and sent = sent, OF T Cons.prems(4-7,2) m_def] by blast
    have "\<lceil>fval (targetAt rate t2)\<rceil> \<le> 2 ^ 52" using T(2) by (simp add: ceiling_le_iff)
    then have m: "0 \<le> m" "m < 2 ^ 53" using Cons.prems(6,7) by (simp_all add: m_def)
    have n: "n = Max (insert m ((\<lambda>t. \<lceil>fval (targetAt rate t)\<rceil>) ` set (rounds dur ticks)))"
      using Cons.prems(8) by (cases "rounds dur ticks = []") (simp_all add: r m_def max.assoc max.left_commute)
    have rest: "\<forall>t\<in>set (rounds dur ticks). fin (targetAt rate t) \<and> fval (targetAt rate t) < 2 ^ 52"
      using Cons.prems(3) by (simp add: r)
    have pm: "produced \<le> m" by (simp add: m_def)
    have "m \<le> n" unfolding n by (rule Max_ge) simp_all
    then have "[produced..n - 1] = [produced..m - 1] @ [m..n - 1]"
      using upto_split1 [of produced m "n - 1"] pm by (cases "m = n") simp_all
    moreover have "\<exists>t\<in>set ticks. dur \<le> fst t" using Cons.prems(1) True by (simp add: t)
    ultimately show ?thesis
      using Cons.IH [OF _ Cons.prems(2) rest S(2,3) m n] True by (simp add: t S(1))
  qed
qed simp

text \<open>C39 A stage sends on schedule and returns: once the clock passes the duration, the stage has sent, each
  once and in order, the events \<open>0 \<dots> n - 1\<close>, where \<open>n\<close> is the greatest target it has read, rounded up;
  it is never a whole event behind or ahead of its rate.\<close>

theorem stage_sends_on_schedule:
  assumes "\<exists>t\<in>set ticks. dur \<le> fst t" "memberPool \<noteq> 0"
    and "\<forall>t\<in>set (rounds dur ticks). fin (targetAt rate t) \<and> fval (targetAt rate t) < 2 ^ 52"
    and "n = Max (insert 0 ((\<lambda>t. \<lceil>fval (targetAt rate t)\<rceil>) ` set (rounds dur ticks)))"
  shows "sendStage rate dur (benchEvent uuid clock memberPool) ticks fzero 0 [] =
    Some (Inr (n, map (the \<circ> benchEvent uuid clock memberPool) [0..n - 1]))"
  using sendStage_returns [OF assms(1) _ assms(3), of "benchEvent uuid clock memberPool" fzero 0 n "[]"] assms(2,4)
  by (simp add: benchEvent_def fzero_def)

section \<open>A drained stage has seen its events\<close>

text \<open>One goroutine calls \<^verbatim>\<open>add\<close>: its steps come in pairs.\<close>

fun paired :: "collector_step list \<Rightarrow> bool" where
  "paired (Append d # Counted # steps) = paired steps"
| "paired [Append d] = True"
| "paired [] = True"
| "paired _ = False"

fun appended :: "collector_step list \<Rightarrow> int list" where
  "appended [] = []"
| "appended (Append d # steps) = d # appended steps"
| "appended (Counted # steps) = appended steps"

fun counted :: "collector_step list \<Rightarrow> int" where
  "counted [] = 0"
| "counted (Append d # steps) = counted steps"
| "counted (Counted # steps) = 1 + counted steps"

lemma appended_append [simp]: "appended (xs @ ys) = appended xs @ appended ys"
  by (induction xs rule: appended.induct) simp_all

lemma counted_append [simp]: "counted (xs @ ys) = counted xs + counted ys"
  by (induction xs rule: counted.induct) simp_all

lemma counted_bounds: "0 \<le> counted steps" "counted steps \<le> int (length steps)"
  by (induction steps rule: counted.induct) simp_all

lemma paired_prefix: "paired (xs @ ys) \<Longrightarrow> counted xs \<le> int (length (appended xs))"
  by (induction xs rule: paired.induct) (auto split: collector_step.splits elim: paired.elims)

lemma collect_steps:
  assumes "0 \<le> cl_processed c" "cl_processed c + int (length steps) < 2 ^ 63"
  shows "cl_durs (fold collect steps c) = cl_durs c @ appended steps"
    "cl_processed (fold collect steps c) = cl_processed c + counted steps"
proof -
  have "cl_durs (fold collect steps c) = cl_durs c @ appended steps \<and>
      cl_processed (fold collect steps c) = cl_processed c + counted steps"
    using assms
  proof (induction steps arbitrary: c rule: appended.induct)
    case (3 steps)
    then have "i64 (cl_processed c + 1) = cl_processed c + 1" by (intro i64_id) simp
    then show ?case using 3 by simp
  qed simp_all
  then show "cl_durs (fold collect steps c) = cl_durs c @ appended steps"
    "cl_processed (fold collect steps c) = cl_processed c + counted steps" by simp_all
qed

lemma drainWait_steps:
  assumes "drainWait before ok rs c = Some (drained, c')"
  shows "\<exists>rs1 rs2. rs = rs1 @ rs2 \<and> c' = fold collect (concat (map snd rs1)) c \<and>
    (drained \<longrightarrow> ok \<le> i64 (cl_processed c' - before))"
  using assms
proof (induction before ok rs c rule: drainWait.induct)
  case (2 before ok t steps rs c)
  show ?case
  proof (cases "t < grace")
    case False
    then show ?thesis using 2 by (intro exI [of _ "[]"] exI [of _ "(t, steps) # rs"]) simp
  next
    case True
    show ?thesis
    proof (cases "ok \<le> i64 (cl_processed (fold collect steps c) - before)")
      case hit: True
      then show ?thesis using 2 True by (intro exI [of _ "[(t, steps)]"] exI [of _ rs]) (simp add: Let_def)
    next
      case False
      then obtain rs1 rs2 where "rs = rs1 @ rs2" "c' = fold collect (concat (map snd rs1)) (fold collect steps c)"
          "drained \<longrightarrow> ok \<le> i64 (cl_processed c' - before)"
        using 2 True by (auto simp: Let_def)
      then show ?thesis by (intro exI [of _ "(t, steps) # rs1"] exI [of _ rs2]) simp
    qed
  qed
qed simp

text \<open>A drained stage has seen its events: when the wait ends with the count reached, there is a sample for every
  event the broker took, however the consumer's appends and counts interleave with the reads of the benchmark
  goroutine; no sample of the stage is lost and the next stage starts with none.\<close>

theorem drained_stage_saw_every_event:
  assumes "runStage wild ev env rate dur col = Some (Inr (res, sent, col'))" "sr_Drained res"
    and "paired (se_early env @ se_during env @ concat (map snd (se_waits env)))"
    and "0 \<le> cl_processed col" "cl_processed col + int (length (se_early env @ se_during env @
      concat (map snd (se_waits env)) @ se_tail env)) < 2 ^ 63"
    and "0 \<le> sr_PubErrors res" "sr_PubErrors res \<le> sr_Produced res" "sr_Produced res < 2 ^ 63"
  shows "sr_Produced res - sr_PubErrors res \<le> int (length (sr_samples res)) \<and>
    (\<exists>waited. sr_samples res = appended (se_early env @ se_during env @ waited @ se_tail env)) \<and>
    cl_durs col' = [] \<and> sr_Latency res = summarize wild (sr_samples res)"
proof -
  define col0 where "col0 = snd (drainSegment col)"
  define col1 where "col1 = fold collect (se_early env) col0"
  have col0: "cl_durs col0 = []" "cl_processed col0 = cl_processed col" by (simp_all add: col0_def drainSegment_def)
  obtain drained col2 where W: "drainWait (cl_processed col1) (i64 (sr_Produced res - sr_PubErrors res)) (se_waits env)
        (fold collect (se_during env) col1) = Some (drained, col2)"
      "sr_Drained res = drained" "sr_samples res = cl_durs (fold collect (se_tail env) col2)" "cl_durs col' = []"
      "sr_Latency res = summarize wild (sr_samples res)"
    using assms(1) unfolding runStage_def Let_def col0_def [symmetric] col1_def [symmetric]
    by (auto simp: drainSegment_def split: option.splits sum.splits prod.splits)
  obtain rs1 rs2 where R: "se_waits env = rs1 @ rs2"
      "col2 = fold collect (concat (map snd rs1)) (fold collect (se_during env) col1)"
      "drained \<longrightarrow> i64 (sr_Produced res - sr_PubErrors res) \<le> i64 (cl_processed col2 - cl_processed col1)"
    using drainWait_steps [OF W(1)] by blast
  define waited where "waited = concat (map snd rs1)"
  have len: "cl_processed col0 + int (length (se_early env @ se_during env @ waited @ se_tail env)) < 2 ^ 63"
    using assms(5) by (simp add: col0(2) R(1) waited_def)
  have col2: "col2 = fold collect (se_early env @ se_during env @ waited) col0"
    by (simp add: R(2) col1_def waited_def)
  have tail: "fold collect (se_tail env) col2 = fold collect (se_early env @ se_during env @ waited @ se_tail env) col0"
    by (simp add: col2)
  have durs: "sr_samples res = appended (se_early env @ se_during env @ waited @ se_tail env)"
    using collect_steps(1) [OF _ len] assms(4) by (simp add: W(3) tail col0)
  have count: "cl_processed col2 - cl_processed col1 = counted (se_during env @ waited)"
    using collect_steps(2) [of col0 "se_early env @ se_during env @ waited"] collect_steps(2) [of col0 "se_early env"] len assms(4)
    by (simp add: col2 col1_def col0(2) del: fold_append)
  have "paired ((se_early env @ se_during env @ waited) @ concat (map snd rs2))"
    using assms(3) by (simp add: R(1) waited_def)
  then have "counted (se_early env @ se_during env @ waited) \<le> int (length (appended (se_early env @ se_during env @ waited)))"
    by (rule paired_prefix)
  moreover have "i64 (sr_Produced res - sr_PubErrors res) = sr_Produced res - sr_PubErrors res"
    using assms(6-8) by (intro i64_id) simp
  moreover have "i64 (counted (se_during env @ waited)) = counted (se_during env @ waited)"
    using counted_bounds [of "se_during env @ waited"] len assms(4) by (intro i64_id) (simp add: col0(2))
  ultimately have "sr_Produced res - sr_PubErrors res \<le> int (length (sr_samples res))"
    using R(3) W(2) assms(2) counted_bounds(1) [of "se_early env"] by (simp add: count durs)
  then show ?thesis using durs W(4,5) by blast
qed

section \<open>The ladder stops at the first failure\<close>

text \<open>The ladder runs the rates in order up to and including the first stage that fails and none after it: all
  stages it reports but the last have held their rate and drained, and when the last has held too, every rate
  was tried.\<close>

theorem ladder_stops_at_first_failure:
  assumes "ladder wild ev envs dur i rates col = Some (Inr stages)"
  shows "length stages \<le> length rates \<and>
    list_all2 (\<lambda>res rs. atoi (trimSpace rs) = Some (sr_TargetRate res) \<and> 0 < sr_TargetRate res) stages (take (length stages) rates) \<and>
    list_all (\<lambda>res. \<not> stage_failed res) (butlast stages) \<and>
    (stages = [] \<or> \<not> stage_failed (List.last stages) \<longrightarrow> length stages = length rates)"
  using assms
proof (induction wild ev envs dur i rates col arbitrary: stages rule: ladder.induct)
  case (2 wild ev envs dur i rs rest col)
  obtain r where r: "atoi (trimSpace rs) = Some r" "0 < r" using 2(2) by (auto split: option.splits if_splits)
  obtain res sent col1 where S: "runStage wild (ev i) (envs i) r dur col = Some (Inr (res, sent, col1))"
    using 2(2) r by (auto split: option.splits sum.splits)
  have t: "sr_TargetRate res = r"
    using S by (auto simp: runStage_def Let_def split: option.splits sum.splits prod.splits)
  show ?case
  proof (cases "stage_failed res")
    case True
    then have "stages = [res]" using 2(2) r S by simp
    then show ?thesis using True r t by simp
  next
    case False
    obtain more where more: "ladder wild ev envs dur (Suc i) rest col1 = Some (Inr more)" "stages = res # more"
      using 2(2) r S False by (auto split: option.splits sum.splits)
    from 2(1) [OF r(1) _ S refl refl refl False more(1)] r(2) show ?thesis
      using False r t by (auto simp: more(2))
  qed
qed simp

section \<open>Witnesses\<close>

abbreviation demo_bench :: "int \<Rightarrow> behavior_event option" where
  "demo_bench \<equiv> benchEvent (\<lambda>k. ''id'') (\<lambda>k. k) 100"

definition demo_ticks :: "(duration \<times> duration) list" where
  "demo_ticks = [(0, 1500000000), (2 * Second, 0)]"

lemma demo_target: "targetAt 2 1500000000 = FFin False (3 * 2 ^ 51) (- 51)"
  by code_simp

lemma demo_rounds: "rounds (2 * Second) demo_ticks = [1500000000]"
  by (simp add: rounds_def demo_ticks_def Second_def)

lemma demo_schedule:
  "\<forall>t\<in>set (rounds (2 * Second) demo_ticks). fin (targetAt 2 t) \<and> fval (targetAt 2 t) < 2 ^ 52"
  "Max (insert 0 ((\<lambda>t. \<lceil>fval (targetAt 2 t)\<rceil>) ` set (rounds (2 * Second) demo_ticks))) = 3"
  by (simp_all add: demo_rounds demo_target power_int_minus)

theorem stage_sends_on_schedule_witness:
  "sendStage 2 (2 * Second) demo_bench demo_ticks fzero 0 [] = Some (Inr (3, map (the \<circ> demo_bench) [0..2]))"
  using stage_sends_on_schedule [of demo_ticks "2 * Second" 100 2 3, OF _ _ demo_schedule(1) demo_schedule(2) [symmetric]]
  by (simp add: demo_ticks_def)

definition demo_stage :: stage_env where
  "demo_stage = \<lparr>se_early = [], se_errsBefore = 0, se_ticks = demo_ticks, se_elapsed = 2 * Second,
     se_during = [Append 5, Counted, Append 7], se_errsAfter = 1, se_waits = [(0, []), (1, [Counted, Append 6])],
     se_tail = [Counted], se_drainTime = 1\<rparr>"

lemma demo_run_stage:
  "\<exists>res sent col'. runStage (\<lambda>_. 0) demo_bench demo_stage 2 (2 * Second) \<lparr>cl_durs = [], cl_processed = 0\<rparr> =
     Some (Inr (res, sent, col')) \<and> sr_Drained res \<and> sr_Produced res = 3 \<and> sr_PubErrors res = 1 \<and> length (sr_samples res) = 3"
proof -
  have "sendStage 2 (2 * Second) demo_bench demo_ticks fzero 0 [] = Some (Inr (3, map (the \<circ> demo_bench) [0..2]))"
    using sendStage_returns [of demo_ticks "2 * Second" demo_bench 2 fzero 0 3 "[]"] demo_schedule
    by (simp add: demo_ticks_def benchEvent_def fzero_def)
  then show ?thesis
    by (simp add: runStage_def demo_stage_def drainSegment_def Let_def grace_def Second_def i64_id)
qed

theorem drained_stage_saw_every_event_witness:
  "\<exists>res sent col'. runStage (\<lambda>_. 0) demo_bench demo_stage 2 (2 * Second) \<lparr>cl_durs = [], cl_processed = 0\<rparr> =
     Some (Inr (res, sent, col')) \<and> 3 - 1 \<le> int (length (sr_samples res)) \<and> cl_durs col' = []"
proof -
  obtain res sent col' where R: "runStage (\<lambda>_. 0) demo_bench demo_stage 2 (2 * Second) \<lparr>cl_durs = [], cl_processed = 0\<rparr> =
      Some (Inr (res, sent, col'))" "sr_Drained res" "sr_Produced res = 3" "sr_PubErrors res = 1"
    using demo_run_stage by blast
  from drained_stage_saw_every_event [OF R(1,2)] R show ?thesis by (simp add: demo_stage_def)
qed

definition demo_stuck :: stage_env where
  "demo_stuck = demo_stage\<lparr>se_waits := [(20 * Second, [])]\<rparr>"

theorem ladder_stops_at_first_failure_witness:
  "\<exists>stages. ladder (\<lambda>_. 0) (\<lambda>_. demo_bench) (\<lambda>_. demo_stuck) (2 * Second) 0 [''2'', ''x''] \<lparr>cl_durs = [], cl_processed = 0\<rparr> =
     Some (Inr stages) \<and> length stages \<le> 2 \<and> list_all (\<lambda>res. \<not> stage_failed res) (butlast stages)"
proof -
  have "sendStage 2 (2 * Second) demo_bench demo_ticks fzero 0 [] = Some (Inr (3, map (the \<circ> demo_bench) [0..2]))"
    using sendStage_returns [of demo_ticks "2 * Second" demo_bench 2 fzero 0 3 "[]"] demo_schedule
    by (simp add: demo_ticks_def benchEvent_def fzero_def)
  then obtain res sent col' where R: "runStage (\<lambda>_. 0) demo_bench demo_stuck 2 (2 * Second) \<lparr>cl_durs = [], cl_processed = 0\<rparr> =
      Some (Inr (res, sent, col'))" "\<not> sr_Drained res"
    by (simp add: runStage_def demo_stuck_def demo_stage_def drainSegment_def Let_def grace_def Second_def i64_id)
  have "atoi (trimSpace ''2'') = Some 2" by code_simp
  then have "ladder (\<lambda>_. 0) (\<lambda>_. demo_bench) (\<lambda>_. demo_stuck) (2 * Second) 0 [''2'', ''x''] \<lparr>cl_durs = [], cl_processed = 0\<rparr> =
      Some (Inr [res])" using R by (simp add: stage_failed_def)
  from ladder_stops_at_first_failure [OF this] this show ?thesis by auto
qed

end
