(* ===== verification/Settings.thy ===== *)
theory Settings
  imports LoadGen
begin

text \<open>
  The settings the programs start with: durations of the environment (\<^verbatim>\<open>pkg/env/env.go\<close> with
  \<^verbatim>\<open>time.ParseDuration\<close> of the standard library), the configuration file
  (\<^verbatim>\<open>config/config.go\<close>) and the database handle (\<^verbatim>\<open>pkg/db/db.go\<close>).
\<close>

section \<open>time.ParseDuration\<close>

text \<open>\<^verbatim>\<open>leadingInt\<close>: the digits at the front, refused above \<open>2^63\<close>.\<close>

fun leadingInt :: "int \<Rightarrow> string \<Rightarrow> (int \<times> string) option" where
  "leadingInt x [] = Some (x, [])"
| "leadingInt x (c # s) =
     (if \<not> decimal_digit c then Some (x, c # s)
      else if 2 ^ 63 div 10 < x then None
      else let y = x * 10 + digit_value c in if 2 ^ 63 < y then None else leadingInt y s)"

text \<open>\<^verbatim>\<open>leadingFraction\<close>: further digits than fit are dropped.\<close>

fun leadingFraction :: "int \<Rightarrow> f64 \<Rightarrow> bool \<Rightarrow> string \<Rightarrow> int \<times> f64 \<times> string" where
  "leadingFraction x scale over [] = (x, scale, [])"
| "leadingFraction x scale over (c # s) =
     (if \<not> decimal_digit c then (x, scale, c # s)
      else let y = x * 10 + digit_value c in
        if over \<or> (2 ^ 63 - 1) div 10 < x \<or> 2 ^ 63 < y then leadingFraction x scale True s
        else leadingFraction y (f64_mul scale (f64_of_int 10)) False s)"

definition unitMap :: "string \<rightharpoonup> int" where
  "unitMap = map_of [(''ns'', 1), (''us'', 1000), ([CHR 0xC2, CHR 0xB5, CHR ''s''], 1000),
     ([CHR 0xCE, CHR 0xBC, CHR ''s''], 1000), (''ms'', 1000000), (''s'', 1000000000),
     (''m'', 60000000000), (''h'', 3600000000000)]"

definition unit_char :: "char \<Rightarrow> bool" where
  "unit_char c \<longleftrightarrow> c \<noteq> CHR ''.'' \<and> \<not> decimal_digit c"

definition fractionPart :: "string \<Rightarrow> int \<times> f64 \<times> string" where
  "fractionPart s = (if s \<noteq> [] \<and> hd s = CHR ''.'' then leadingFraction 0 (f64_of_int 1) False (tl s) else (0, f64_of_int 1, s))"

text \<open>One number with its unit: its value in nanoseconds and what follows.\<close>

definition parseUnit :: "string \<Rightarrow> (int \<times> string) option" where
  "parseUnit s =
     (if s = [] \<or> unit_char (hd s) then None
      else case leadingInt 0 s of
        None \<Rightarrow> None
      | Some (v, s1) \<Rightarrow>
          (let (f, scale, s2) = fractionPart s1;
               pre = (s1 \<noteq> s); post = (s2 \<noteq> s1 \<and> s2 \<noteq> tl s1);
               u = takeWhile unit_char s2
           in if \<not> pre \<and> \<not> post \<or> u = [] then None
              else case unitMap u of
                None \<Rightarrow> None
              | Some unit \<Rightarrow>
                  if 2 ^ 63 div unit < v then None
                  else let v1 = v * unit + (if 0 < f
                        then f64_to_int (\<lambda>x. 0) (f64_mul (f64_of_int f) (f64_div (f64_of_int unit) scale)) else 0)
                    in if 0 < f \<and> 2 ^ 63 < v1 then None else Some (v1, dropWhile unit_char s2)))"

lemma leadingInt_rest: "leadingInt x s = Some (v, r) \<Longrightarrow> \<exists>ds. s = ds @ r"
proof (induction x s rule: leadingInt.induct)
  case (2 x c s)
  show ?case
  proof (cases "decimal_digit c")
    case True
    then obtain ds where "s = ds @ r" using 2 by (auto simp: Let_def split: if_splits)
    then show ?thesis by (intro exI [of _ "c # ds"]) simp
  qed (use 2 in auto)
qed simp

lemma leadingFraction_rest: "leadingFraction x scale over s = (f, sc, r) \<Longrightarrow> \<exists>ds. s = ds @ r"
proof (induction x scale over s rule: leadingFraction.induct)
  case (2 x scale over c s)
  show ?case
  proof (cases "decimal_digit c")
    case True
    then obtain ds where "s = ds @ r" using 2 by (auto simp: Let_def split: if_splits)
    then show ?thesis by (intro exI [of _ "c # ds"]) simp
  qed (use 2 in auto)
qed simp

lemma fractionPart_rest: "fractionPart s = (f, sc, r) \<Longrightarrow> length r \<le> length s"
  using leadingFraction_rest [of 0 "f64_of_int 1" False "tl s" f sc r]
  by (cases s) (auto simp: fractionPart_def split: if_splits)

lemma parseUnit_shorter:
  assumes "parseUnit s = Some (v, r)"
  shows "length r < length s"
proof -
  obtain x s1 where I: "leadingInt 0 s = Some (x, s1)" using assms by (auto simp: parseUnit_def split: if_splits option.splits)
  obtain f scale s2 where F: "fractionPart s1 = (f, scale, s2)" by (metis prod_cases3)
  have r: "r = dropWhile unit_char s2" "takeWhile unit_char s2 \<noteq> []"
    using assms by (auto simp: parseUnit_def I F Let_def split: if_splits option.splits)
  have "length s1 \<le> length s" using leadingInt_rest [OF I] by auto
  moreover have "length s2 \<le> length s1" by (rule fractionPart_rest [OF F])
  moreover have "length s2 = length (takeWhile unit_char s2) + length r"
    unfolding r(1) by (metis length_append takeWhile_dropWhile_id)
  ultimately show ?thesis using r(2) by (cases "takeWhile unit_char s2") auto
qed

text \<open>The sum is a \<^verbatim>\<open>uint64\<close>: it wraps before it is checked.\<close>

function parseUnits :: "int \<Rightarrow> string \<Rightarrow> int option" where
  "parseUnits d s =
     (if s = [] then Some d
      else case parseUnit s of
        None \<Rightarrow> None
      | Some (v, r) \<Rightarrow> (let d1 = (d + v) mod 2 ^ 64 in if 2 ^ 63 < d1 then None else parseUnits d1 r))"
  by pat_completeness auto
termination by (relation "measure (\<lambda>(d, s). length s)") (auto simp: parseUnit_shorter)

declare parseUnits.simps [simp del]

definition ParseDuration :: "string \<Rightarrow> duration option" where
  "ParseDuration s =
     (let (neg, r) = (case s of [] \<Rightarrow> (False, []) | c # cs \<Rightarrow>
            if c = CHR ''-'' then (True, cs) else if c = CHR ''+'' then (False, cs) else (False, s))
      in if r = ''0'' then Some 0
         else if r = [] then None
         else case parseUnits 0 r of
           None \<Rightarrow> None
         | Some d \<Rightarrow> if neg then Some (i64 (- d)) else if 2 ^ 63 \<le> d then None else Some d)"

definition env_Duration :: "environment \<Rightarrow> string \<Rightarrow> duration \<Rightarrow> duration" where
  "env_Duration env key def = (case env key of
     Some v \<Rightarrow> if v \<noteq> [] then (case ParseDuration v of Some d \<Rightarrow> d | None \<Rightarrow> def) else def
   | None \<Rightarrow> def)"


text \<open>Whole numbers of a unit read back, up to the largest duration.\<close>

lemma digits_fold:
  assumes "list_all decimal_digit ds" "0 \<le> x"
  shows "x \<le> fold (\<lambda>c v. 10 * v + digit_value c) ds x"
  using assms
proof (induction ds arbitrary: x)
  case (Cons c ds)
  have "0 \<le> digit_value c" using Cons.prems(1) by (simp add: decimal_digit_def digit_value_def Let_def)
  then show ?case using Cons.IH [of "10 * x + digit_value c"] Cons.prems by simp
qed simp

lemma leadingInt_digits:
  assumes "list_all decimal_digit ds" "0 \<le> x" "r = [] \<or> \<not> decimal_digit (hd r)"
    and "fold (\<lambda>c v. 10 * v + digit_value c) ds x \<le> 2 ^ 63"
  shows "leadingInt x (ds @ r) = Some (fold (\<lambda>c v. 10 * v + digit_value c) ds x, r)"
  using assms
proof (induction ds arbitrary: x)
  case Nil
  then show ?case by (cases r) auto
next
  case (Cons c ds)
  let ?y = "10 * x + digit_value c"
  have d: "decimal_digit c" "0 \<le> digit_value c" using Cons.prems(1) by (simp_all add: decimal_digit_def digit_value_def Let_def)
  then have y: "0 \<le> ?y" "?y \<le> 2 ^ 63"
    using Cons.prems(1,2,4) digits_fold [of ds ?y] by auto
  then have "x \<le> 2 ^ 63 div 10" using d(2) by linarith
  then show ?case using Cons.IH [of ?y] Cons.prems d y by (simp add: Let_def mult.commute)
qed

lemma digits_value_dec: "0 \<le> n \<Longrightarrow> digits_value (dec_str n) = n"
proof (induction n rule: dec_str.induct)
  case (1 n)
  have v: "digit_value (digit_char d) = d" if "0 \<le> d" "d < 10" for d
    using that by (simp add: digit_value_def digit_char_def)
  show ?case
  proof (cases "n < 10")
    case True
    then show ?thesis using 1 v by (simp add: dec_str.simps [of n] digits_value_def)
  next
    case False
    then show ?thesis using 1 v by (simp add: dec_str.simps [of n] digits_value_def)
  qed
qed

lemma dec_str_decimal: "0 \<le> n \<Longrightarrow> list_all decimal_digit (dec_str n)"
  unfolding list_all_iff using dec_str_digits digit_char_decimal by blast

lemma unitMap_units: "unitMap u = Some k \<Longrightarrow> u \<noteq> [] \<and> list_all unit_char u \<and> 0 < k"
  by (auto simp: unitMap_def unit_char_def decimal_digit_def split: if_splits)

lemma ParseDuration_units:
  assumes u: "unitMap u = Some k" and n: "0 \<le> n" "n * k < 2 ^ 63"
  shows "ParseDuration (fmt_int n @ u) = Some (n * k)"
proof -
  note U = unitMap_units [OF u]
  have f: "fmt_int n = dec_str n" using n(1) by (simp add: fmt_int_def)
  note D = dec_str_decimal [OF n(1)]
  obtain c cs where c: "dec_str n = c # cs" by (cases "dec_str n") auto
  have hd: "decimal_digit c" "c \<noteq> CHR ''-''" "c \<noteq> CHR ''+''" "c \<noteq> CHR ''.''"
    using D by (auto simp: c decimal_digit_def)
  have "n \<le> n * k" using n(1) U by (simp add: mult_le_cancel_left1)
  then have I: "leadingInt 0 (dec_str n @ u) = Some (n, u)"
    using leadingInt_digits [OF D, of 0 u] digits_value_dec [OF n(1)] n(2) U
    by (cases u) (auto simp: digits_value_def unit_char_def)
  have F: "fractionPart u = (0, f64_of_int 1, u)" using U by (cases u) (auto simp: fractionPart_def unit_char_def)
  have all: "\<forall>x\<in>set u. unit_char x" using U by (simp add: list_all_iff)
  then have T: "takeWhile unit_char u = u" "dropWhile unit_char u = []"
    by (simp_all only: takeWhile_eq_all_conv dropWhile_eq_Nil_conv)
  have le: "n \<le> 2 ^ 63 div k"
    using zdiv_mono1 [of "n * k" "2 ^ 63" k] n(2) U by simp
  have h: "dec_str n @ u \<noteq> []" "\<not> unit_char (hd (dec_str n @ u))" "u \<noteq> dec_str n @ u"
    using hd(1) by (simp_all add: c unit_char_def)
  have "parseUnit (dec_str n @ u) = Some (n * k, [])"
    unfolding parseUnit_def I F T Let_def prod.case option.case using h le u U by simp
  moreover have "0 \<le> n * k" using n(1) U by simp
  ultimately have "parseUnits 0 (dec_str n @ u) = Some (n * k)"
    using n(2) by (simp add: parseUnits.simps [of 0] parseUnits.simps [of _ "[]"] c)
  moreover have "dec_str n @ u \<noteq> ''0''"
  proof
    assume "dec_str n @ u = ''0''"
    then have "u = []" by (simp add: c)
    then show False using U by simp
  qed
  ultimately show ?thesis using n(2) hd U by (simp add: ParseDuration_def f c)
qed

text \<open>A duration in the environment that is a whole number of one of Go's units reads back as that many
  units, up to the largest duration.\<close>

theorem durations_read_back:
  assumes "unitMap u = Some k" "0 \<le> n" "n * k < 2 ^ 63" "env key = Some (fmt_int n @ u)"
  shows "env_Duration env key def = n * k"
proof -
  have "fmt_int n @ u \<noteq> []" using unitMap_units [OF assms(1)] by simp
  then show ?thesis using ParseDuration_units [OF assms(1-3)] assms(4) by (simp add: env_Duration_def)
qed

lemma parse_fraction: "ParseDuration ''1.5h'' = Some (5400 * Second)"
  by code_simp

text \<open>The sum wraps to zero before it is checked.\<close>

lemma parse_wraps: "ParseDuration ''9223372036854775808ns9223372036854775808ns'' = Some 0"
  by code_simp

theorem durations_read_back_witness:
  "env_Duration [''DURATION'' \<mapsto> ''90s''] ''DURATION'' 0 = 90 * Second"
proof -
  have "fmt_int 90 @ ''s'' = ''90s''" by code_simp
  then show ?thesis
    using durations_read_back [of "''s''" 1000000000 90 "[''DURATION'' \<mapsto> ''90s'']" "''DURATION''" 0]
    by (simp add: unitMap_def Second_def)
qed

section \<open>The database handle (db.go)\<close>

record DBConfig =
  db_Host :: string
  db_User :: string
  db_Password :: string
  db_DBName :: string
  db_Port :: int
  db_SSLMode :: string
  db_TimeZone :: string
  db_MaxOpenConns :: int
  db_MaxIdleConns :: int
  db_ConnMaxLifetimeSec :: int

definition DSN :: "DBConfig \<Rightarrow> string" where
  "DSN c = ''host='' @ db_Host c @ '' user='' @ db_User c @ '' password='' @ db_Password c @ '' dbname='' @ db_DBName c @
     '' port='' @ fmt_int (db_Port c) @ '' sslmode='' @ db_SSLMode c @ '' TimeZone='' @ db_TimeZone c"

record db_handle =
  dh_DSN :: string
  dh_MaxOpenConns :: int
  dh_MaxIdleConns :: int
  dh_ConnMaxLifetime :: duration

text \<open>The package variables: whether the \<^verbatim>\<open>Once\<close> is spent, and the handle. A function that panics has
  spent it too.\<close>

record db_package =
  dk_once :: bool
  dk_instance :: "db_handle option"

datatype db_panic = PConnect | PUnderlying

definition or_default :: "int \<Rightarrow> int \<Rightarrow> int" where
  "or_default def x = (if x = 0 then def else x)"

definition db_Init :: "bool \<Rightarrow> bool \<Rightarrow> DBConfig \<Rightarrow> db_package \<Rightarrow> db_panic option \<times> db_package" where
  "db_Init opens underlying config pk =
     (if dk_once pk then (None, pk)
      else let pk1 = pk\<lparr>dk_once := True\<rparr> in
        if \<not> opens then (Some PConnect, pk1)
        else if \<not> underlying then (Some PUnderlying, pk1)
        else let maxOpen = or_default 25 (db_MaxOpenConns config);
                 maxIdle = or_default 10 (db_MaxIdleConns config);
                 lifetimeSec = or_default 300 (db_ConnMaxLifetimeSec config)
             in (None, pk1\<lparr>dk_instance := Some \<lparr>dh_DSN = DSN config, dh_MaxOpenConns = maxOpen,
                  dh_MaxIdleConns = maxIdle, dh_ConnMaxLifetime = i64 (lifetimeSec * Second)\<rparr>\<rparr>))"

definition GetDB :: "db_package \<Rightarrow> db_handle option" where
  "GetDB pk = dk_instance pk"

text \<open>Only the first call counts, whatever later ones are given.\<close>

lemma Init_once: "db_Init o1 u1 c1 pk = (r, pk1) \<Longrightarrow> db_Init o2 u2 c2 pk1 = (None, pk1)"
  by (auto simp: db_Init_def Let_def split: if_splits)

lemma Init_handle:
  "db_Init True True config \<lparr>dk_once = False, dk_instance = None\<rparr> =
    (None, \<lparr>dk_once = True, dk_instance = Some \<lparr>dh_DSN = DSN config, dh_MaxOpenConns = or_default 25 (db_MaxOpenConns config),
       dh_MaxIdleConns = or_default 10 (db_MaxIdleConns config),
       dh_ConnMaxLifetime = i64 (or_default 300 (db_ConnMaxLifetimeSec config) * Second)\<rparr>\<rparr>)"
  by (simp add: db_Init_def Let_def)

text \<open>Values go into the string as they are: a password with a space in it sets other settings.\<close>

lemma DSN_injects:
  "DSN \<lparr>db_Host = ''h'', db_User = ''u'', db_Password = ''p dbname=x'', db_DBName = ''rules'', db_Port = 5432,
      db_SSLMode = ''disable'', db_TimeZone = ''UTC'', db_MaxOpenConns = 0, db_MaxIdleConns = 0, db_ConnMaxLifetimeSec = 0\<rparr> =
    DSN \<lparr>db_Host = ''h'', db_User = ''u'', db_Password = ''p'', db_DBName = ''x dbname=rules'', db_Port = 5432,
      db_SSLMode = ''disable'', db_TimeZone = ''UTC'', db_MaxOpenConns = 0, db_MaxIdleConns = 0, db_ConnMaxLifetimeSec = 0\<rparr>"
  by (simp add: DSN_def)

section \<open>The configuration file (config.go)\<close>

record App =
  ap_Addr :: string

record LogConfig =
  lc_Level :: string

record Config =
  cg_App :: App
  cg_DB :: DBConfig
  cg_Log :: LogConfig

text \<open>How reading the file may go; what the settings decode to, when they do, is the outcome of \<^verbatim>\<open>Unmarshal\<close>.\<close>

datatype read_config = ConfigRead | ConfigFileNotFound | ConfigUnreadable

datatype config_error = ERead | EUnmarshal

definition config_Load :: "read_config \<Rightarrow> Config option \<Rightarrow> config_error + Config" where
  "config_Load r unmarshalled =
     (if r = ConfigUnreadable then Inl ERead
      else case unmarshalled of None \<Rightarrow> Inl EUnmarshal | Some cfg \<Rightarrow> Inr cfg)"

end
