(* ===== verification/BenchMain.thy ===== *)
theory BenchMain
  imports Bench Settings
begin

text \<open>
  \<^verbatim>\<open>main\<close> of the benchmark (\<^verbatim>\<open>cmd/bench/main.go\<close>): its settings, the engine it builds from the
  same tables as the service, the broker it wires, the stages, and the files it leaves. Paths are joined before lexical
  cleaning.
\<close>

section \<open>Settings\<close>

record bench_settings =
  bs_Backend :: string
  bs_Duration :: duration
  bs_MemberPool :: int
  bs_SnapshotOn :: bool
  bs_OutDir :: string
  bs_CPUProfile :: string

definition benchSettings :: "environment \<Rightarrow> bench_settings" where
  "benchSettings env =
     \<lparr>bs_Backend = env_Str env ''BACKEND'' ''nats'', bs_Duration = env_Duration env ''DURATION'' (60 * Second),
      bs_MemberPool = env_Int env ''MEMBER_POOL'' 100, bs_SnapshotOn = (env_Str env ''SNAPSHOT'' ''off'' = ''on''),
      bs_OutDir = env_Str env ''OUT_DIR'' ''docs/benchmarks/raw'', bs_CPUProfile = env_Str env ''CPU_PROFILE'' []\<rparr>"

definition joinPath :: "string \<Rightarrow> string \<Rightarrow> string" where
  "joinPath dir name = (if dir = [] then name else dir @ ''/'' @ name)"

definition runID :: "time \<Rightarrow> string" where
  "runID now = ''bench-'' @ fmt_int (now div Second)"

section \<open>Start\<close>

text \<open>What a run meets outside: the output directory, the configuration, the database, the temporary directory, the
  broker and the profile. \<open>bw_broker\<close> is whether the connections and the stream or topic of the run come up.\<close>

record bench_world =
  bw_now :: time
  bw_mkdir :: bool
  bw_read :: read_config
  bw_config :: "Config option"
  bw_dbOpens :: bool
  bw_dbUnderlying :: bool
  bw_tempDir :: string
  bw_broker :: bool
  bw_profile :: bool

datatype bench_fatal =
    BMkdir
  | BConfig config_error
  | BDatabase db_panic
  | BStart startup_error
  | BBroker
  | BBackend string
  | BProfile
  | BStages bench_fault

datatype bench_consumer = BenchNATS nats_config | BenchKafka kafka_config

definition benchSetup :: "environment \<Rightarrow> db_ctx \<Rightarrow> pattern_ctx \<Rightarrow> rule_row list strategy_uc \<Rightarrow> pattern_record list \<Rightarrow>
    bench_world \<Rightarrow> bench_fatal + core \<times> bench_consumer" where
  "benchSetup env ctx px uc patternRows w =
     (let st = benchSettings env; run = runID (bw_now w) in
      if \<not> bw_mkdir w then Inl BMkdir
      else case config_Load (bw_read w) (bw_config w) of
        Inl e \<Rightarrow> Inl (BConfig e)
      | Inr cfg \<Rightarrow>
          (case db_Init (bw_dbOpens w) (bw_dbUnderlying w) (cg_DB cfg) \<lparr>dk_once = False, dk_instance = None\<rparr> of
             (Some p, pk) \<Rightarrow> Inl (BDatabase p)
           | (None, pk) \<Rightarrow>
               (case startEngine ctx px 0 uc patternRows of
                  Inl e \<Rightarrow> Inl (BStart e)
                | Inr engine \<Rightarrow>
                    (let snapshotPath = (if bs_SnapshotOn st then joinPath (bw_tempDir w) (run @ ''.snap'') else [])
                     in if bs_Backend st = ''nats'' then
                          (if bw_broker w then Inr (engine, BenchNATS (benchNATSConsumer run snapshotPath)) else Inl BBroker)
                        else if bs_Backend st = ''kafka'' then
                          (if bw_broker w then Inr (engine, BenchKafka (benchKafkaConsumer run snapshotPath)) else Inl BBroker)
                        else Inl (BBackend (bs_Backend st))))))"

section \<open>The stages and the files they leave\<close>

text \<open>One line of nanoseconds per sample.\<close>

definition writeSamplesCSV :: "int list \<Rightarrow> string list" where
  "writeSamplesCSV samples = map fmt_int samples"

definition csvPath :: "string \<Rightarrow> string \<Rightarrow> string \<Rightarrow> nat \<Rightarrow> string" where
  "csvPath outDir run backend i = joinPath outDir (run @ ''-stage'' @ fmt_int (int i) @ ''-'' @ backend @ ''.csv'')"

definition stageFiles :: "string \<Rightarrow> string \<Rightarrow> string \<Rightarrow> stage_result list \<Rightarrow> (string \<times> string list) list" where
  "stageFiles outDir run backend stages =
     map (\<lambda>(i, s). (csvPath outDir run backend i, writeSamplesCSV (sr_samples s))) (List.enumerate 0 stages)"

text \<open>\<open>uuid\<close> and \<open>clock\<close> give the draws and readings of each stage, \<open>envs\<close> what it meets. A stage that has not
  returned is \<open>None\<close>.\<close>

definition benchMain :: "environment \<Rightarrow> db_ctx \<Rightarrow> pattern_ctx \<Rightarrow> rule_row list strategy_uc \<Rightarrow> pattern_record list \<Rightarrow>
    bench_world \<Rightarrow> (f64 \<Rightarrow> int) \<Rightarrow> (nat \<Rightarrow> int \<Rightarrow> string) \<Rightarrow> (nat \<Rightarrow> int \<Rightarrow> time) \<Rightarrow> (nat \<Rightarrow> stage_env) \<Rightarrow>
    (bench_fatal + stage_result list \<times> (string \<times> string list) list) option" where
  "benchMain env ctx px uc patternRows w wild uuid clock envs =
     (let st = benchSettings env in
      case benchSetup env ctx px uc patternRows w of
        Inl f \<Rightarrow> Some (Inl f)
      | Inr (engine, consumer) \<Rightarrow>
          if bs_CPUProfile st \<noteq> [] \<and> \<not> bw_profile w then Some (Inl BProfile)
          else (case benchStages env wild (\<lambda>i. benchEvent (uuid i) (clock i) (bs_MemberPool st)) envs (bs_Duration st) of
                  None \<Rightarrow> None
                | Some (Inl e) \<Rightarrow> Some (Inl (BStages e))
                | Some (Inr stages) \<Rightarrow>
                    Some (Inr (stages, stageFiles (bs_OutDir st) (runID (bw_now w)) (bs_Backend st) stages))))"

text \<open>No stage overwrites the samples of another, and each file has every sample of its stage.\<close>

lemma csvPath_inj: "csvPath dir run backend i = csvPath dir run backend j \<longleftrightarrow> i = j"
proof
  assume "csvPath dir run backend i = csvPath dir run backend j"
  then have "fmt_int (int i) = fmt_int (int j)" by (simp add: csvPath_def joinPath_def split: if_splits)
  then show "i = j" using fmt_int_inj by force
qed simp

lemma stageFiles_distinct: "distinct (map fst (stageFiles dir run backend stages))"
proof -
  have "map fst (stageFiles dir run backend stages) = map (csvPath dir run backend) [0..<length stages]"
    by (rule nth_equalityI) (simp_all add: stageFiles_def nth_enumerate_eq split_beta)
  then show ?thesis by (simp add: distinct_map inj_on_def csvPath_inj)
qed

lemma stageFiles_lines:
  "list_all2 (\<lambda>s f. snd f = map fmt_int (sr_samples s)) stages (stageFiles dir run backend stages)"
  by (simp add: stageFiles_def list_all2_conv_all_nth nth_enumerate_eq writeSamplesCSV_def split_beta)

text \<open>An unknown mode or a bad rate ends the program only after the broker of the run is up: \<^verbatim>\<open>log.Fatal\<close>
  then skips the deferred clean-up, and the stream or topic stays behind.\<close>

lemma bad_mode_leaves_the_stream:
  assumes "benchSetup env ctx px uc rows w = Inr (engine, consumer)" "env_Str env ''CPU_PROFILE'' [] = []"
    and "env_Str env ''MODE'' ''fixed'' \<notin> {''fixed'', ''ladder''}"
  shows "bw_broker w \<and> benchMain env ctx px uc rows w wild uuid clock envs =
    Some (Inl (BStages (EUnknownMode (env_Str env ''MODE'' ''fixed''))))"
proof
  show "bw_broker w" using assms(1)
    by (simp add: benchSetup_def Let_def split: if_splits sum.splits prod.splits option.splits)
  show "benchMain env ctx px uc rows w wild uuid clock envs = Some (Inl (BStages (EUnknownMode (env_Str env ''MODE'' ''fixed''))))"
    using assms by (simp add: benchMain_def benchSettings_def benchStages_def Let_def)
qed

end
