(* ===== verification/Api.thy ===== *)
theory Api
  imports RuleStore
begin

text \<open>
  The rule service as HTTP sees it: the routes of \<^verbatim>\<open>service/bff/apis/router.go\<close> and
  \<^verbatim>\<open>router/rule.go\<close> in front of the handlers. The abstract service is a map from IDs to
  rows; every request does to the table and answers what the abstract service says, whatever the cache holds.
  How the web framework matches a path against a pattern, and what it binds a body to, are arguments.
\<close>

section \<open>Routes\<close>

datatype http_method = MGet | MPost | MPut | MPatch | MOther

datatype handler = HList | HCreate | HGet | HUpdate | HSetStatus

text \<open>\<^verbatim>\<open>ApiRegister\<close> groups under \<^verbatim>\<open>/v1\<close>,
  \<^verbatim>\<open>RuleRegister\<close> under \<^verbatim>\<open>/rules\<close>.\<close>

definition RuleRegister :: "string \<Rightarrow> (http_method \<times> string \<times> handler) list" where
  "RuleRegister app =
     (let g = app @ ''/rules'' in
      [(MGet, g, HList), (MPost, g, HCreate), (MGet, g @ ''/:id'', HGet), (MPut, g @ ''/:id'', HUpdate),
       (MPatch, g @ ''/:id/status'', HSetStatus)])"

definition ApiRegister :: "(http_method \<times> string \<times> handler) list" where
  "ApiRegister = RuleRegister ''/v1''"

text \<open>A request, with what its body binds to for each handler that reads one.\<close>

record request =
  rq_method :: http_method
  rq_path :: string
  rq_status :: string
  rq_create :: "CreateRuleStrategyReq option"
  rq_update :: "UpdateRuleStrategyReq option"
  rq_setStatus :: "int option"

text \<open>\<open>resolve pattern path\<close> is the \<^verbatim>\<open>:id\<close> parameter (empty for a pattern without one)
  when the path matches the pattern.\<close>

definition route :: "(string \<Rightarrow> string \<Rightarrow> string option) \<Rightarrow> request \<Rightarrow> (handler \<times> string) option" where
  "route resolve rq =
     (case find (\<lambda>(m, p, h). m = rq_method rq \<and> resolve p (rq_path rq) \<noteq> None) ApiRegister of
        None \<Rightarrow> None
      | Some (m, p, h) \<Rightarrow> Some (h, the (resolve p (rq_path rq))))"

fun handle :: "handler \<Rightarrow> string \<Rightarrow> db_ctx \<Rightarrow> request \<Rightarrow> 's strategy_uc \<Rightarrow> response \<times> 's strategy_uc" where
  "handle HList param ctx rq uc = (ctrl_List ctx (rq_status rq) uc, uc)"
| "handle HCreate param ctx rq uc = ctrl_Create ctx (rq_create rq) uc"
| "handle HGet param ctx rq uc = (ctrl_Get ctx param uc, uc)"
| "handle HUpdate param ctx rq uc = ctrl_Update ctx param (rq_update rq) uc"
| "handle HSetStatus param ctx rq uc = ctrl_SetStatus ctx param (rq_setStatus rq) uc"

definition StatusNotFound :: int where "StatusNotFound = 404"

definition serve :: "(string \<Rightarrow> string \<Rightarrow> string option) \<Rightarrow> db_ctx \<Rightarrow> request \<Rightarrow> 's strategy_uc \<Rightarrow> response \<times> 's strategy_uc" where
  "serve resolve ctx rq uc = (case route resolve rq of
     None \<Rightarrow> ((StatusNotFound, BodyError), uc)
   | Some (h, param) \<Rightarrow> handle h param ctx rq uc)"

lemmas statuses = StatusOK_def StatusBadRequest_def StatusInternalServerError_def StatusNotFound_def

section \<open>The abstract service\<close>

type_synonym rule_map = "uint64 \<rightharpoonup> rule_row"

definition rule_map :: "rule_row list \<Rightarrow> rule_map" where
  "rule_map t = (\<lambda>i. find (\<lambda>row. rw_ID row = i) t)"

definition new_row :: "uint64 \<Rightarrow> CreateRuleStrategyReq \<Rightarrow> rule_row" where
  "new_row i req = \<lparr>rw_ID = i, rw_Name = cr_Name req, rw_Description = cr_Description req,
     rw_RuleNode = NodeJson (cr_RuleNode req), rw_Status = RuleStrategyStatusActive\<rparr>"

definition amend :: "uint64 \<Rightarrow> updates \<Rightarrow> rule_map \<Rightarrow> rule_map" where
  "amend i u m = m(i := map_option (set_columns u) (m i))"

fun spec_handle :: "handler \<Rightarrow> string \<Rightarrow> db_ctx \<Rightarrow> request \<Rightarrow> rule_map \<Rightarrow> int \<times> rule_map" where
  "spec_handle HList param ctx rq m =
     (if rq_status rq \<noteq> [] \<and> atoi (rq_status rq) = None then 400 else if dx_ok ctx then 200 else 500, m)"
| "spec_handle HCreate param ctx rq m = (case rq_create rq of
     None \<Rightarrow> (400, m)
   | Some req \<Rightarrow> if ValidateRuleNode (cr_RuleNode req) = None \<and> dx_ok ctx
       then (200, m(dx_newID ctx \<mapsto> new_row (dx_newID ctx) req)) else (500, m))"
| "spec_handle HGet param ctx rq m = (case parseID param of
     None \<Rightarrow> (400, m)
   | Some i \<Rightarrow> (if dx_ok ctx \<and> m i \<noteq> None then 200 else 500, m))"
| "spec_handle HUpdate param ctx rq m = (case (parseID param, rq_update rq) of
     (Some i, Some req) \<Rightarrow>
       if Option.bind (ur_RuleNode req) ValidateRuleNode \<noteq> None then (500, m)
       else if ur_Name req = None \<and> ur_Description req = None \<and> ur_RuleNode req = None then (200, m)
       else if dx_ok ctx then (200, amend i (request_updates req) m) else (500, m)
   | _ \<Rightarrow> (400, m))"
| "spec_handle HSetStatus param ctx rq m = (case (parseID param, rq_setStatus rq) of
     (Some i, Some status) \<Rightarrow> if dx_ok ctx then (200, amend i [''status'' \<mapsto> ColStatus status] m) else (500, m)
   | _ \<Rightarrow> (400, m))"

definition spec_serve :: "(string \<Rightarrow> string \<Rightarrow> string option) \<Rightarrow> db_ctx \<Rightarrow> request \<Rightarrow> rule_map \<Rightarrow> int \<times> rule_map" where
  "spec_serve resolve ctx rq m = (case route resolve rq of
     None \<Rightarrow> (404, m) | Some (h, param) \<Rightarrow> spec_handle h param ctx rq m)"

section \<open>What the table holds\<close>

text \<open>A row that the API wrote holds a node that passed validation.\<close>

definition row_ok :: "rule_row \<Rightarrow> bool" where
  "row_ok row \<longleftrightarrow> (case rw_RuleNode row of NodeJson node \<Rightarrow> ValidateRuleNode node = None | NoNode s \<Rightarrow> False)"

definition table_ok :: "rule_row list \<Rightarrow> bool" where
  "table_ok t \<longleftrightarrow> distinct (map rw_ID t) \<and> (\<forall>row\<in>set t. row_ok row)"

text \<open>The service over its life, starting from such a table; a new ID is never one in use.\<close>

inductive api_reach :: "rule_row list strategy_uc \<Rightarrow> bool" where
  api_new: "table_ok t \<Longrightarrow> api_reach (NewRuleStrategyUsecaseWith RuleStrategyRepo t)"
| api_serve: "api_reach uc \<Longrightarrow> fair_order ctx \<Longrightarrow> rule_map (su_store uc) (dx_newID ctx) = None \<Longrightarrow> serve resolve ctx rq uc = (r, uc1) \<Longrightarrow> api_reach uc1"
| api_load: "api_reach uc \<Longrightarrow> fair_order ctx \<Longrightarrow> ListActiveCompiled ctx uc = (lr, uc1) \<Longrightarrow> api_reach uc1"

text \<open>The rule a row stands for.\<close>

definition rule_of :: "rule_row \<Rightarrow> rule_strategy" where
  "rule_of row = (scan row)\<lparr>rg_RuleNode := (case rw_RuleNode row of NodeJson node \<Rightarrow> node | NoNode s \<Rightarrow> zero_node)\<rparr>"

lemma unmarshal_row: "row_ok row \<Longrightarrow> unmarshalRuleNode (scan row) = Inr (rule_of row)"
  by (auto simp: row_ok_def unmarshalRuleNode_def rule_of_def scan_def split: node_json.splits)

lemma unmarshal_rows: "\<forall>row\<in>set rs. row_ok row \<Longrightarrow> unmarshal_all (map scan rs) = Inr (map rule_of rs)"
  by (induction rs) (simp_all add: unmarshal_row)

lemma set_columns_ID [simp]: "rw_ID (set_columns u row) = rw_ID row"
  by (simp add: set_columns_def)

lemma rule_map_update:
  "rule_map (map (\<lambda>row. if rw_ID row = i then set_columns u row else row) t) = amend i u (rule_map t)"
proof
  fix j show "rule_map (map (\<lambda>row. if rw_ID row = i then set_columns u row else row) t) j = amend i u (rule_map t) j"
    by (induction t) (auto simp: rule_map_def amend_def)
qed

lemma rule_map_new: "rule_map t (rw_ID row) = None \<Longrightarrow> rule_map (t @ [row]) = (rule_map t)(rw_ID row \<mapsto> row)"
proof
  assume new: "rule_map t (rw_ID row) = None"
  fix j show "rule_map (t @ [row]) j = ((rule_map t)(rw_ID row \<mapsto> row)) j"
    using new by (induction t) (auto simp: rule_map_def split: if_splits)
qed

lemma rule_map_fresh: "rule_map t i = None \<longleftrightarrow> i \<notin> rw_ID ` set t"
  by (auto simp: rule_map_def find_None_iff)

lemma rule_map_Some: "rule_map t i = Some row \<Longrightarrow> row \<in> set t \<and> rw_ID row = i"
  by (auto simp: rule_map_def find_Some_iff)

lemma table_ok_update:
  assumes "table_ok t" "\<And>row. row_ok row \<Longrightarrow> row_ok (set_columns u row)"
  shows "table_ok (map (\<lambda>row. if rw_ID row = i then set_columns u row else row) t)"
proof -
  have "map rw_ID (map (\<lambda>row. if rw_ID row = i then set_columns u row else row) t) = map rw_ID t" by simp
  then show ?thesis using assms by (auto simp: table_ok_def simp del: map_map)
qed

lemma update_row_ok:
  "Option.bind (ur_RuleNode req) ValidateRuleNode = None \<Longrightarrow> row_ok row \<Longrightarrow> row_ok (set_columns (request_updates req) row)"
  by (cases "ur_RuleNode req") (auto simp: row_ok_def set_columns_def request_updates_def)

lemma status_row_ok: "row_ok row \<Longrightarrow> row_ok (set_columns [''status'' \<mapsto> ColStatus status] row)"
  by (auto simp: row_ok_def set_columns_def)

section \<open>Every request\<close>

lemma repo_ops [simp]:
  "rp_Get RuleStrategyRepo = repo_Get" "rp_List RuleStrategyRepo = repo_List"
  "rp_Create RuleStrategyRepo = repo_Create" "rp_Update RuleStrategyRepo = repo_Update"
  by (simp_all add: RuleStrategyRepo_def)

lemma create_on_table:
  assumes "su_repo uc = RuleStrategyRepo"
  shows "strategy_Create ctx req uc = (case ValidateRuleNode (cr_RuleNode req) of
      Some e \<Rightarrow> (Inl (EValidate e), uc)
    | None \<Rightarrow> if dx_ok ctx then (Inr (rule_of (new_row (dx_newID ctx) req)),
          uc\<lparr>su_store := su_store uc @ [new_row (dx_newID ctx) req], su_cached := None\<rparr>) else (Inl EDatabase, uc))"
proof (cases "ValidateRuleNode (cr_RuleNode req)")
  case None
  obtain t c where uc: "uc = \<lparr>su_repo = RuleStrategyRepo, su_store = t, su_cached = c\<rparr>" using assms by (cases uc) simp
  show ?thesis unfolding strategy_Create_def None uc
    by (simp add: repo_Create_def Let_def marshalRuleNode_def row_of_def new_row_def invalidateCache_def rule_of_def scan_def)
next
  case (Some e)
  show ?thesis unfolding strategy_Create_def Some by simp
qed

lemma get_on_table:
  assumes "su_repo uc = RuleStrategyRepo" "table_ok (su_store uc)"
  shows "strategy_Get ctx i uc = (if \<not> dx_ok ctx then Inl EDatabase
    else case rule_map (su_store uc) i of None \<Rightarrow> Inl ERecordNotFound | Some row \<Rightarrow> Inr (rule_of row))"
proof -
  have f: "find (\<lambda>row. rw_ID row = i) (su_store uc) = rule_map (su_store uc) i" by (simp add: rule_map_def)
  have "unmarshalRuleNode (scan row) = Inr (rule_of row)" if "rule_map (su_store uc) i = Some row" for row
    using rule_map_Some [OF that] assms(2) by (simp add: table_ok_def unmarshal_row)
  then show ?thesis using assms(1)
    by (cases "rule_map (su_store uc) i") (simp_all add: strategy_Get_def repo_Get_def f)
qed

lemma list_on_table:
  assumes "su_repo uc = RuleStrategyRepo" "table_ok (su_store uc)" "fair_order ctx"
  shows "strategy_List ctx status uc = (if \<not> dx_ok ctx then Inl EDatabase
    else Inr (map rule_of (dx_order ctx (filter (wanted status) (su_store uc)))))"
proof -
  have "set (dx_order ctx xs) = set xs" for xs using assms(3) by (metis fair_order_def set_mset_mset)
  then have "\<forall>row\<in>set (dx_order ctx (filter (wanted status) (su_store uc))). row_ok row"
    using assms(2) by (simp add: table_ok_def)
  then show ?thesis using assms(1) by (simp add: strategy_List_def repo_List_def unmarshal_rows)
qed

lemma status_on_table:
  assumes "su_repo uc = RuleStrategyRepo"
  shows "strategy_SetStatus ctx i status uc = (if dx_ok ctx then (None, uc\<lparr>su_store := map (\<lambda>row. if rw_ID row = i
      then set_columns [''status'' \<mapsto> ColStatus status] row else row) (su_store uc), su_cached := None\<rparr>)
    else (Some EDatabase, uc))"
  using assms by (simp add: strategy_SetStatus_def repo_Update_def invalidateCache_def)

lemma update_on_table:
  assumes "su_repo uc = RuleStrategyRepo"
  shows "strategy_Update ctx i req uc = (case Option.bind (ur_RuleNode req) ValidateRuleNode of
      Some e \<Rightarrow> (Some (EValidate e), uc)
    | None \<Rightarrow> if ur_Name req = None \<and> ur_Description req = None \<and> ur_RuleNode req = None then (None, uc)
        else if dx_ok ctx then (None, uc\<lparr>su_store := map (\<lambda>row. if rw_ID row = i
            then set_columns (request_updates req) row else row) (su_store uc), su_cached := None\<rparr>)
        else (Some EDatabase, uc))"
proof (cases "Option.bind (ur_RuleNode req) ValidateRuleNode")
  case None
  obtain t c where uc: "uc = \<lparr>su_repo = RuleStrategyRepo, su_store = t, su_cached = c\<rparr>" using assms by (cases uc) simp
  show ?thesis unfolding strategy_Update_def None uc by (simp add: repo_Update_def invalidateCache_def)
next
  case (Some e)
  show ?thesis unfolding strategy_Update_def Some by simp
qed

lemma handle_refines:
  assumes repo: "su_repo uc = RuleStrategyRepo" and ok: "table_ok (su_store uc)" and fair: "fair_order ctx"
    and new: "rule_map (su_store uc) (dx_newID ctx) = None"
    and h: "handle h param ctx rq uc = ((status, body), uc1)"
  shows "(status, rule_map (su_store uc1)) = spec_handle h param ctx rq (rule_map (su_store uc)) \<and>
    su_repo uc1 = RuleStrategyRepo \<and> table_ok (su_store uc1) \<and>
    (\<forall>r. body = BodyRule r \<longrightarrow> (\<exists>row. rule_map (su_store uc1) (rg_ID r) = Some row \<and> r = rule_of row)) \<and>
    (\<forall>rs. body = BodyRules rs \<longrightarrow> mset rs = image_mset rule_of (mset (filter
        (wanted (if rq_status rq = [] then None else atoi (rq_status rq))) (su_store uc1))))"
proof (cases h)
  case HList
  have "mset (dx_order ctx xs) = mset xs" for xs using fair by (simp add: fair_order_def)
  then show ?thesis using h repo ok list_on_table [OF repo ok fair]
    by (auto simp: HList ctrl_List_def statuses split: if_splits)
next
  case HCreate
  have ok1: "table_ok (su_store uc @ [new_row (dx_newID ctx) req])" if "ValidateRuleNode (cr_RuleNode req) = None" for req
    using ok new that by (auto simp: table_ok_def rule_map_fresh row_ok_def new_row_def)
  have m: "rule_map (su_store uc @ [new_row (dx_newID ctx) req]) =
      (rule_map (su_store uc))(dx_newID ctx \<mapsto> new_row (dx_newID ctx) req)" for req
    using rule_map_new [of "su_store uc" "new_row (dx_newID ctx) req"] new by (simp add: new_row_def)
  have i: "rg_ID (rule_of (new_row i req)) = i" for i req by (simp add: rule_of_def scan_def new_row_def)
  show ?thesis using h repo ok ok1
    by (auto simp: HCreate ctrl_Create_def statuses create_on_table [OF repo] m i split: option.splits if_splits)
next
  case HGet
  have i: "rule_map (su_store uc) i = Some row \<Longrightarrow> rg_ID (rule_of row) = i" for i row
    using rule_map_Some [of "su_store uc" i row] by (simp add: rule_of_def scan_def)
  show ?thesis using h repo ok
    by (auto simp: HGet ctrl_Get_def statuses get_on_table [OF repo ok] i split: option.splits if_splits)
next
  case HUpdate
  show ?thesis using h repo ok table_ok_update [OF ok update_row_ok]
    by (auto simp: HUpdate ctrl_Update_def statuses update_on_table [OF repo] rule_map_update split: option.splits if_splits)
next
  case HSetStatus
  show ?thesis using h repo ok table_ok_update [OF ok status_row_ok]
    by (auto simp: HSetStatus ctrl_SetStatus_def statuses status_on_table [OF repo] rule_map_update split: option.splits if_splits)
qed

lemma serve_refines:
  assumes "su_repo uc = RuleStrategyRepo" "table_ok (su_store uc)" "fair_order ctx"
    and "rule_map (su_store uc) (dx_newID ctx) = None" "serve resolve ctx rq uc = ((status, body), uc1)"
  shows "(status, rule_map (su_store uc1)) = spec_serve resolve ctx rq (rule_map (su_store uc)) \<and>
    su_repo uc1 = RuleStrategyRepo \<and> table_ok (su_store uc1) \<and>
    (\<forall>r. body = BodyRule r \<longrightarrow> (\<exists>row. rule_map (su_store uc1) (rg_ID r) = Some row \<and> r = rule_of row)) \<and>
    (\<forall>rs. body = BodyRules rs \<longrightarrow> mset rs = image_mset rule_of (mset (filter
        (wanted (if rq_status rq = [] then None else atoi (rq_status rq))) (su_store uc1))))"
proof (cases "route resolve rq")
  case None
  then show ?thesis using assms by (auto simp: serve_def spec_serve_def statuses)
next
  case (Some hp)
  obtain h param where hp: "hp = (h, param)" by fastforce
  have "handle h param ctx rq uc = ((status, body), uc1)" using assms(5) by (simp add: serve_def Some hp)
  from handle_refines [OF assms(1-4) this] show ?thesis by (simp add: spec_serve_def Some hp)
qed

lemma serve_reach: "store_reach uc \<Longrightarrow> serve resolve ctx rq uc = (r, uc1) \<Longrightarrow> store_reach uc1"
proof (cases "route resolve rq")
  case (Some hp)
  assume "store_reach uc" "serve resolve ctx rq uc = (r, uc1)"
  then show ?thesis by (cases hp; cases "fst hp")
    (auto simp: serve_def Some intro: sr_create [of uc] sr_update [of uc] sr_status [of uc])
qed (simp add: serve_def)

lemma api_reach_ok: "api_reach uc \<Longrightarrow> store_reach uc \<and> table_ok (su_store uc)"
proof (induction rule: api_reach.induct)
  case (api_new t)
  then show ?case using sr_new by (simp add: NewRuleStrategyUsecaseWith_def)
next
  case (api_serve uc ctx resolve rq r uc1)
  obtain status body where r: "r = (status, body)" by fastforce
  have "store_reach uc1" using serve_reach api_serve by blast
  moreover have "table_ok (su_store uc1)"
    using serve_refines [OF store_reach_repo _ api_serve(2,3) api_serve(4) [unfolded r]] api_serve(5) by blast
  ultimately show ?case ..
next
  case (api_load uc ctx lr uc1)
  then have "su_store uc1 = su_store uc"
    using rule_db.load_current [OF store_reach_coherent] by blast
  then show ?case using sr_load api_load by auto
qed


section \<open>When a load fails\<close>

lemma compile_strategies_ok: "is_ok (compile_strategies objs) \<longleftrightarrow> (\<forall>obj\<in>set objs. is_ok (Compile (rg_RuleNode obj)))"
proof (induction objs)
  case (Cons obj objs)
  then show ?case by (cases "Compile (rg_RuleNode obj)"; cases "compile_strategies objs") simp_all
qed simp

lemma compile_rules_ok: "is_ok (compile_rules objs) = is_ok (compile_strategies objs)"
  by (cases "compile_strategies objs") (simp_all add: compile_rules_def)

text \<open>C28 Loading the rule set fails exactly when the database does not answer and nothing is cached, or when some
  active rule of the table does not compile: the rows that the API writes always decode, so one accepted rule
  that does not compile is the only thing that keeps an engine with a database from starting.\<close>

theorem loading_fails_exactly:
  assumes "api_reach uc" "fair_order ctx"
  shows "is_ok (fst (ListActiveCompiled ctx uc)) \<longleftrightarrow> (su_cached uc \<noteq> None \<or> dx_ok ctx) \<and>
    (\<forall>row\<in>set (su_store uc). rw_Status row = RuleStrategyStatusActive \<longrightarrow> is_ok (Compile (rg_RuleNode (rule_of row))))"
proof -
  note ok = conjunct2 [OF api_reach_ok [OF assms(1)]]
  note coh = store_reach_coherent [OF conjunct1 [OF api_reach_ok [OF assms(1)]]]
  have rows: "set ls = set (active_rows (su_store uc))" if "mset ls = mset (active_rows (su_store uc))" for ls
    using that by (metis set_mset_mset)
  have all: "is_ok (compile_rules (map rule_of ls)) \<longleftrightarrow>
      (\<forall>row\<in>set (su_store uc). rw_Status row = RuleStrategyStatusActive \<longrightarrow> is_ok (Compile (rg_RuleNode (rule_of row))))"
    if "mset ls = mset (active_rows (su_store uc))" for ls
    using rows [OF that] by (auto simp: compile_rules_ok compile_strategies_ok active_rows_def wanted_def)
  show ?thesis
  proof (cases "su_cached uc")
    case (Some rs)
    then obtain ls objs where L: "mset ls = mset (active_rows (su_store uc))" "unmarshal_all (map scan ls) = Inr objs"
        "compile_rules objs = Inr rs" using coh by (auto simp: rule_db.coherent_def current_def)
    have "objs = map rule_of ls"
      using L(2) unmarshal_rows [of ls] rows [OF L(1)] ok by (simp add: table_ok_def active_rows_def)
    then show ?thesis using all [OF L(1)] L(3) Some by (simp add: ListActiveCompiled_def)
  next
    case None
    have m: "mset (dx_order ctx (active_rows (su_store uc))) = mset (active_rows (su_store uc))"
      using assms(2) by (simp add: fair_order_def)
    have "ListActive ctx uc = (if dx_ok ctx then Inr (map rule_of (dx_order ctx (active_rows (su_store uc)))) else Inl EDatabase)"
      using list_on_table [OF store_reach_repo ok assms(2), of "Some RuleStrategyStatusActive"] api_reach_ok [OF assms(1)]
      by (simp add: ListActive_def strategy_List_def active_rows_def)
    then show ?thesis using all [OF m] None
      by (auto simp: ListActiveCompiled_def compileAndCache_def split: sum.splits)
  qed
qed

section \<open>Witnesses\<close>

text \<open>A framework that matches the patterns of this service.\<close>

definition demo_resolve :: "string \<Rightarrow> string \<Rightarrow> string option" where
  "demo_resolve pattern path =
     (if pattern = path then Some []
      else if pattern = ''/v1/rules/:id'' \<and> has_prefix path ''/v1/rules/'' then Some (trim_prefix path ''/v1/rules/'')
      else None)"

definition demo_post :: "rule_node \<Rightarrow> request" where
  "demo_post node = \<lparr>rq_method = MPost, rq_path = ''/v1/rules'', rq_status = [], rq_create = Some (demo_request node),
     rq_update = None, rq_setStatus = None\<rparr>"

lemma demo_api_reach: "api_reach demo_service"
  unfolding demo_service_def by (rule api_new) (simp add: table_ok_def)

lemma demo_route: "route demo_resolve (demo_post node) = Some (HCreate, [])"
  by (simp add: route_def demo_post_def ApiRegister_def RuleRegister_def demo_resolve_def Let_def)

lemma demo_served:
  assumes "ValidateRuleNode node = None"
  shows "serve demo_resolve (demo_ctx 7) (demo_post node) demo_service =
    ((StatusOK, BodyRule (demo_stored node)), demo_after_create node)"
  by (simp add: serve_def demo_route) (simp add: demo_post_def demo_create(2) [OF assms])

lemma demo_fresh: "rule_map (su_store demo_service) i = None"
  by (simp add: rule_map_def demo_service_def NewRuleStrategyUsecaseWith_def)


theorem loading_fails_exactly_witness:
  "is_ok (fst (ListActiveCompiled (demo_ctx 0) (demo_after_create odd_rule))) = False"
proof -
  have "api_reach (demo_after_create odd_rule)"
    by (rule api_serve [OF demo_api_reach demo_ctx_fair(1) demo_fresh demo_served [OF odd_rule(1)]])
  from loading_fails_exactly [OF this demo_ctx_fair(1)] odd_rule(2) show ?thesis
    by (simp add: demo_after_create_def demo_row_def rule_of_def)
qed

end
