(* ===== verification/ShardWitness.thy ===== *)
theory ShardWitness
  imports Shard
begin

text \<open>
  A sample shard with one rule and one pattern that waits for an absent event, run on concrete events: the
  properties of \<open>Shard\<close> applied to it, and a behaviour worth knowing.
\<close>

section \<open>A sample shard\<close>

text \<open>The pattern: a login that no trade follows within five minutes.\<close>

definition behaves :: "string \<Rightarrow> rule_node" where
  "behaves b = RuleNode ''CONDITION'' [] ''behavior'' ''='' (VStr b) None"

definition demo_pattern :: cep_pattern where
  "demo_pattern = \<lparr>pt_ID = ''idle'', pt_Name = ''idle login'', pt_States =
     [\<lparr>st_Name = ''login'', st_Condition = behaves ''Login'', st_MaxWait = None, st_IsNegative = False,
        st_ContextBinding = Map.empty\<rparr>,
      \<lparr>st_Name = ''no trade'', st_Condition = behaves ''Trade'', st_MaxWait = Some \<lparr>tw_Value = 5, tw_Unit = ''minutes''\<rparr>,
        st_IsNegative = True, st_ContextBinding = Map.empty\<rparr>]\<rparr>"

definition compiled_or_false :: "rule_node \<Rightarrow> compiled_rule" where
  "compiled_or_false node = (case Compile node of Inr f \<Rightarrow> f | Inl e \<Rightarrow> (\<lambda>ctx. Inr False))"

definition demo_cp :: compiled_pattern where
  "demo_cp = \<lparr>cp_pattern = demo_pattern,
     cp_compiledStates = [compiled_or_false (behaves ''Login''), compiled_or_false (behaves ''Trade'')]\<rparr>"

lemma behaves_compiles: "is_ok (Compile (behaves b))"
  by (simp add: compile_ok(1) behaves_def known_operators_def node_types) code_simp

lemma compiled_or_false: "is_ok (Compile node) \<Longrightarrow> Compile node = Inr (compiled_or_false node)"
  by (auto simp: compiled_or_false_def is_ok_iff)

lemma demo_registered: "AddPattern demo_pattern [] = Inr [demo_cp]"
proof -
  have "checkStates ''idle'' 2 0 (pt_States demo_pattern) = None" by code_simp
  then show ?thesis
    using compiled_or_false [OF behaves_compiles, of "''Login''"] compiled_or_false [OF behaves_compiles, of "''Trade''"]
    by (simp add: AddPattern_def demo_cp_def Let_def demo_pattern_def)
qed

lemma demo_hit:
  assumes "\<not> has_prefix b ''$''"
  shows "matched (cepMatchState e (compiled_or_false (behaves b)) vars) \<longleftrightarrow> ce_Behavior e = b"
proof -
  let ?ctx = "WithVariables (NewMapContext ((ce_Fields e)(''behavior'' \<mapsto> VStr (ce_Behavior e),
      ''member_id'' \<mapsto> VStr (ce_MemberID e)))) vars"
  have 1: "outcome (compiled_or_false (behaves b) (MapContext_ctx ?ctx)) = outcome (Evaluate (behaves b) (MapContext_ctx ?ctx))"
    by (rule map_ctx.compile_agrees(1) [OF compiled_or_false [OF behaves_compiles]])
  have "ascii_upper CHR ''='' = CHR ''=''" by code_simp
  then have "Evaluate (behaves b) (MapContext_ctx ?ctx) = Inr (ce_Behavior e = b)"
    using assms by (simp add: behaves_def node_types evalCondition_def resolveValue_def resolveRHS_def MapContext_ctx_def
        MapContext_Resolve_def WithVariables_def NewMapContext_def compareStrings_def Let_def)
  then show ?thesis using matched_outcome [OF 1] by (simp add: cepMatchState_def Let_def) (simp add: matched_def)
qed

text \<open>Alice logs in at 600 s; at 1000 s someone pings; an event at 100 s comes late.\<close>

definition at_second :: "int \<Rightarrow> string \<Rightarrow> string \<Rightarrow> string \<Rightarrow> behavior_event" where
  "at_second s i m b = \<lparr>ev_EventID = i, ev_MemberID = m, ev_Behavior = b, ev_Fields = Map.empty,
     ev_OccurredAt = s * Second\<rparr>"

definition demo_login :: behavior_event where
  "demo_login = at_second 600 ''e1'' ''alice'' ''Login''"

definition demo_ping :: "string \<Rightarrow> behavior_event" where
  "demo_ping m = at_second 1000 ''e2'' m ''Ping''"

definition demo_lo :: loop_orders where
  "demo_lo = \<lparr>lo_buckets = (\<lambda>_. sorted_list_of_set), lo_progresses = sorted_list_of_set\<rparr>"

definition demo_mo :: map_orders where
  "demo_mo = \<lparr>mo_groups = sorted_list_of_set, mo_strings = sorted_list_of_set\<rparr>"

lemma demo_lo [simp]: "lo_buckets demo_lo k = sorted_list_of_set" "lo_progresses demo_lo = sorted_list_of_set"
  by (simp_all add: demo_lo_def)

lemma demo_orders: "orders_ok demo_lo" "map_orders_ok demo_mo"
  by (simp_all add: orders_ok_def map_orders_ok_def demo_lo_def demo_mo_def enumerates_sorted)

definition demo_rule_set :: compiled_rule_set where
  "demo_rule_set = \<lparr>rs_Strategies = [\<lparr>cs_ID = 1, cs_Name = ''burst'', cs_Eval = compiled_or_false demo_rule,
     cs_AggregateKeys = CollectAggregateKeys demo_rule\<rparr>], rs_MaxWindow = 5 * Minute\<rparr>"

definition demo_new :: core where
  "demo_new = NewCore 0 demo_rule_set [WithLateSink]"

definition demo_engine :: core where
  "demo_engine = demo_new\<lparr>c_patterns := [demo_cp]\<rparr>"

definition demo_after :: "core \<Rightarrow> behavior_event \<Rightarrow> core" where
  "demo_after c e = snd (ProcessEvent demo_lo e c)"

definition demo_logged :: core where
  "demo_logged = demo_after demo_engine demo_login"

lemma demo_new_fields:
  "c_store demo_new = empty_store" "c_patterns demo_new = []" "c_watermark demo_new = 0" "c_negDeadlines demo_new = []"
  "c_allowedLateness demo_new = 5 * Second" "c_ruleSet demo_new = demo_rule_set" "c_lateSink demo_new" "\<not> c_replaying demo_new"
  by (simp_all add: demo_new_def NewCore_def Let_def defaultAllowedLateness_def)

lemma demo_engine_fields:
  "c_store demo_engine = empty_store" "c_patterns demo_engine = [demo_cp]" "c_watermark demo_engine = 0"
  "c_negDeadlines demo_engine = []" "c_allowedLateness demo_engine = 5 * Second" "c_ruleSet demo_engine = demo_rule_set"
  "c_lateSink demo_engine" "\<not> c_replaying demo_engine"
  by (simp_all add: demo_engine_def demo_new_fields)

lemma demo_engine_reach: "shard_reach demo_engine (\<lambda>_. [])"
  unfolding demo_engine_def
proof (rule reach_pattern)
  show "shard_reach demo_new (\<lambda>_. [])" unfolding demo_new_def by (rule reach_new)
  show "AddPattern demo_pattern (c_patterns demo_new) = Inr [demo_cp]" by (simp add: demo_new_fields demo_registered)
qed (simp_all add: demo_new_fields patternByID_def)

lemma demo_run: "ProcessEvent demo_lo e c = (fst (ProcessEvent demo_lo e c), demo_after c e)"
  by (simp add: demo_after_def)

definition demo_hist :: "string \<Rightarrow> cep_event list" where
  "demo_hist = next_hist demo_login demo_engine (\<lambda>_. [])"

lemma demo_logged_reach: "shard_reach demo_logged demo_hist"
  unfolding demo_logged_def demo_hist_def by (rule reach_event [OF demo_engine_reach demo_orders(1) demo_run])

text \<open>Alice's progress after the login: parked until 900 s.\<close>

definition demo_progress :: progress where
  "demo_progress = \<lparr>pg_ID = ''idle|alice|e1'', pg_PatternID = ''idle'', pg_MemberID = ''alice'', pg_CurrentStep = 1,
     pg_Variables = Map.empty, pg_StartedAt = 600 * Second, pg_ExpiresAt = zero_time, pg_ProcessedEvents = [''e1''],
     pg_NegativeDeadline = 900 * Second\<rparr>"

definition demo_entry :: negDeadlineEntry where
  "demo_entry = \<lparr>nd_Deadline = 900 * Second, nd_MemberID = ''alice'', nd_ProgressID = ''idle|alice|e1''\<rparr>"

definition demo_alice :: member_state where
  "demo_alice = (foldEvent (c_maxWindow demo_engine) demo_login (newMemberState ''alice''))\<lparr>
     ms_Progresses := [''idle|alice|e1'' \<mapsto> demo_progress]\<rparr>"

lemma foldEvent_Progresses [simp]: "ms_Progresses (foldEvent w e ms) = ms_Progresses ms"
  by (simp add: foldEvent_def Let_def updateAggregations_eq)

lemma heap_singleton: "heap_Push [] x = [x]" "heap_Pop [x] = (x, [])"
proof -
  have "heap_up [x] 0 = [x]" by (subst heap_up.simps) (simp add: parent_def)
  then show "heap_Push [] x = [x]" by (simp add: heap_Push_def slicePush_def Let_def)
  have "heap_down [x] 0 0 = [x]" by (subst heap_down.simps) simp
  then show "heap_Pop [x] = (x, [])" by (simp add: heap_Pop_def slicePop_def Let_def Swap_def)
qed

lemma due_singleton: "due_entries wm [x] = (if nd_Deadline x < wm then ([x], []) else ([], [x]))"
  by (simp add: due_entries_def heap_singleton numeral_2_eq_2)

lemma demo_due:
  "due_entries (595 * Second) [demo_entry] = ([], [demo_entry])" "due_entries (995 * Second) [demo_entry] = ([demo_entry], [])"
  by (simp_all add: due_singleton demo_entry_def Second_def)

lemma demo_pattern_facts:
  "patternByID [demo_cp] ''idle'' = Some demo_cp" "length (pt_States (cp_pattern demo_cp)) = 2"
  "maxDuration demo_cp = 300 * Second" "pt_ID (cp_pattern demo_cp) = ''idle''" "pt_Name (cp_pattern demo_cp) = ''idle login''"
proof -
  show "patternByID [demo_cp] ''idle'' = Some demo_cp" by (simp add: patternByID_def demo_cp_def demo_pattern_def)
  show "length (pt_States (cp_pattern demo_cp)) = 2" "pt_ID (cp_pattern demo_cp) = ''idle''"
    "pt_Name (cp_pattern demo_cp) = ''idle login''" by (simp_all add: demo_cp_def demo_pattern_def)
  have "Duration (Some \<lparr>tw_Value = 5, tw_Unit = ''minutes''\<rparr>) = 300 * Second" by code_simp
  then show "maxDuration demo_cp = 300 * Second"
    by (simp add: maxDuration_def demo_cp_def demo_pattern_def Second_def Let_def del: Duration.simps)
qed

lemma demo_start:
  "startOne e demo_cp (rs, progs, h) = (if ce_Behavior e = ''Login'' \<and>
      progs (deterministicProgressID ''idle'' (ce_MemberID e) (ce_EventID e)) = None
    then (rs, progs(deterministicProgressID ''idle'' (ce_MemberID e) (ce_EventID e) \<mapsto>
        (newProgress (deterministicProgressID ''idle'' (ce_MemberID e) (ce_EventID e)) demo_pattern e Map.empty)\<lparr>
          pg_NegativeDeadline := time_add (ce_OccurredAt e) (300 * Second)\<rparr>),
      heap_Push h \<lparr>nd_Deadline = time_add (ce_OccurredAt e) (300 * Second), nd_MemberID = ce_MemberID e,
        nd_ProgressID = deterministicProgressID ''idle'' (ce_MemberID e) (ce_EventID e)\<rparr>)
    else (rs, progs, h))"
proof -
  have d: "Duration (Some \<lparr>tw_Value = 5, tw_Unit = ''minutes''\<rparr>) = 300 * Second" by code_simp
  have "extractBindings e Map.empty = Map.empty" by (simp add: extractBindings_def)
  then show ?thesis
    using d demo_hit [of "''Login''" e Map.empty]
    by (auto simp: startOne_def demo_cp_def demo_pattern_def Let_def enterState_def pushNegativeDeadline_def newProgress_def
        simp del: Duration.simps)
qed

lemma sweep_empty: "ms_Progresses ms = Map.empty \<Longrightarrow> sweepExpiredProgresses pats ms wm = ms"
  by (cases ms) (simp add: sweepExpiredProgresses_def map_delete_if_def)

lemma same_progresses: "ms\<lparr>ms_Progresses := ms_Progresses ms\<rparr> = (ms :: member_state)"
  by simp

lemma demo_login_view:
  "process_view demo_lo demo_login demo_engine Map.empty =
    (\<lparr>pr_MatchedRules = evaluateRules (\<lambda>_. sorted_list_of_set)
        (foldEvent (c_maxWindow demo_engine) demo_login (newMemberState ''alice'')) (buildEvalFields demo_login)
        (600 * Second) demo_rule_set, pr_MatchedPatterns = []\<rparr>,
     [''alice'' \<mapsto> demo_alice], [demo_entry])"
proof -
  let ?F = "foldEvent (c_maxWindow demo_engine) demo_login (newMemberState ''alice'')"
  have F: "ms_Progresses (newMemberState m) = Map.empty" for m by (simp add: newMemberState_def)
  have late: "\<not> isLate demo_engine (600 * Second)" by (simp add: isLate_def demo_engine_fields unix_nano_def Second_def)
  have wm: "c_watermark (advanceWatermark (600 * Second) demo_engine) = 595 * Second"
    by (simp add: advanceWatermark_def demo_engine_fields Let_def time_add_def unix_nano_def Second_def)
  have ev: "ev_MemberID demo_login = ''alice''" "ev_OccurredAt demo_login = 600 * Second"
    "cepEvent demo_login = \<lparr>ce_EventID = ''e1'', ce_MemberID = ''alice'', ce_Behavior = ''Login'', ce_Fields = Map.empty,
       ce_OccurredAt = 600 * Second\<rparr>"
    by (simp_all add: demo_login_def at_second_def cepEvent_def)
  have sweep: "sweepExpiredProgresses [demo_cp] ?F wm = ?F" for wm
    by (rule sweep_empty) (simp add: F)
  have cep: "processCEP [demo_cp] sorted_list_of_set ?F (cepEvent demo_login) (595 * Second) [] = ([], demo_alice, [demo_entry])"
    by (simp add: processCEP_def sweep F ev demo_start heap_singleton demo_alice_def demo_progress_def demo_entry_def
        newProgress_def demo_pattern_def deterministicProgressID_def time_add_def Second_def)
  show ?thesis
    unfolding process_view_def Let_def ev(1,2) view_or_new_def
    by (simp add: late wm cep demo_engine_fields demo_due demo_lo_def)
qed

lemma demo_logged_state:
  "members_view (c_store demo_logged) = [''alice'' \<mapsto> demo_alice]" "c_negDeadlines demo_logged = [demo_entry]"
  "c_watermark demo_logged = 595 * Second" "c_patterns demo_logged = [demo_cp]" "c_allowedLateness demo_logged = 5 * Second"
  "c_maxWindow demo_logged = c_maxWindow demo_engine" "c_ruleSet demo_logged = demo_rule_set"
proof -
  note inv = reach_facts(1) [OF demo_engine_reach]
  note r = demo_run [of demo_login demo_engine, folded demo_logged_def]
  note F = ProcessEvent_frame [OF inv r]
  show "c_patterns demo_logged = [demo_cp]" "c_allowedLateness demo_logged = 5 * Second"
    "c_maxWindow demo_logged = c_maxWindow demo_engine" "c_ruleSet demo_logged = demo_rule_set"
    using F(1-4) by (simp_all add: demo_engine_fields)
  show "c_watermark demo_logged = 595 * Second"
    using watermark_step [OF inv r]
    by (simp add: demo_engine_fields demo_login_def at_second_def Second_def)
  show "members_view (c_store demo_logged) = [''alice'' \<mapsto> demo_alice]" "c_negDeadlines demo_logged = [demo_entry]"
    using ProcessEvent_view(2) [OF inv r] by (simp_all add: demo_engine_fields demo_login_view)
qed

lemma demo_ping_facts:
  "ev_MemberID (demo_ping m) = m" "ev_OccurredAt (demo_ping m) = 1000 * Second"
  "ce_Behavior (cepEvent (demo_ping m)) = ''Ping''"
  "\<not> isLate demo_logged (1000 * Second)" "c_watermark (advanceWatermark (1000 * Second) demo_logged) = 995 * Second"
  by (simp_all add: demo_ping_def at_second_def cepEvent_def isLate_def advanceWatermark_def demo_logged_state Let_def
      unix_nano_def time_add_def Second_def)

text \<open>The match the pattern waits for.\<close>

definition demo_match :: match_result where
  "demo_match = \<lparr>mr_PatternID = ''idle'', mr_PatternName = ''idle login'', mr_MemberID = ''alice'',
     mr_Variables = Map.empty, mr_MatchedAt = 900 * Second\<rparr>"

lemma demo_ping_bob:
  "pr_MatchedPatterns (fst (ProcessEvent demo_lo (demo_ping ''bob'') demo_logged)) = [demo_match]"
proof -
  note inv = reach_facts(1) [OF demo_logged_reach]
  note P = ProcessEvent_view(2) [OF inv demo_run [of "demo_ping ''bob''" demo_logged]]
  let ?F = "foldEvent (c_maxWindow demo_engine) (demo_ping ''bob'') (newMemberState ''bob'')"
  have F: "ms_Progresses (newMemberState m) = Map.empty" for m by (simp add: newMemberState_def)
  have "processCEP [demo_cp] sorted_list_of_set ?F (cepEvent (demo_ping ''bob'')) (995 * Second) [demo_entry] =
      ([], ?F, [demo_entry])"
    using same_progresses [of ?F] by (simp add: processCEP_def sweep_empty F demo_start demo_ping_facts)
  moreover have "fire_view [demo_cp] demo_entry ([''alice'' \<mapsto> demo_alice, ''bob'' \<mapsto> ?F]) =
      ([demo_match], [''alice'' \<mapsto> demo_alice\<lparr>ms_Progresses := Map.empty\<rparr>, ''bob'' \<mapsto> ?F])"
    by (simp add: fire_view_def demo_entry_def demo_alice_def demo_progress_def demo_match_def negativeMatch_def
        is_zero_time_def zero_time_def Second_def demo_pattern_facts fun_upd_twist)
  ultimately have "pr_MatchedPatterns (fst (process_view demo_lo (demo_ping ''bob'') demo_logged
      (members_view (c_store demo_logged)))) = [demo_match]"
    unfolding process_view_def Let_def demo_ping_facts(1,2) view_or_new_def
    by (simp add: demo_ping_facts demo_logged_state demo_due demo_entry_def [symmetric])
  then show ?thesis unfolding P by simp
qed

lemma demo_ping_alice:
  "pr_MatchedPatterns (fst (ProcessEvent demo_lo (demo_ping ''alice'') demo_logged)) = []"
proof -
  note inv = reach_facts(1) [OF demo_logged_reach]
  note P = ProcessEvent_view(2) [OF inv demo_run [of "demo_ping ''alice''" demo_logged]]
  let ?F = "foldEvent (c_maxWindow demo_engine) (demo_ping ''alice'') demo_alice"
  let ?G = "?F\<lparr>ms_Progresses := Map.empty\<rparr>"
  have "expired [demo_cp] (995 * Second) demo_progress"
    by (simp add: expired_def demo_progress_def demo_pattern_facts time_sub_def Second_def)
  then have sweep: "sweepExpiredProgresses [demo_cp] ?F (995 * Second) = ?G"
    by (simp add: sweepExpiredProgresses_def demo_alice_def map_delete_if_def fun_eq_iff)
  have "processCEP [demo_cp] sorted_list_of_set ?F (cepEvent (demo_ping ''alice'')) (995 * Second) [demo_entry] =
      ([], ?G, [demo_entry])"
    by (simp add: processCEP_def sweep demo_start demo_ping_facts)
  moreover have "fire_view [demo_cp] demo_entry [''alice'' \<mapsto> ?G] = ([], [''alice'' \<mapsto> ?G])"
    by (simp add: fire_view_def demo_entry_def)
  ultimately have "pr_MatchedPatterns (fst (process_view demo_lo (demo_ping ''alice'') demo_logged
      (members_view (c_store demo_logged)))) = []"
    unfolding process_view_def Let_def demo_ping_facts(1,2) view_or_new_def
    by (simp add: demo_ping_facts demo_logged_state demo_due demo_entry_def [symmetric])
  then show ?thesis unfolding P by simp
qed

section \<open>The member's own event comes first\<close>


section \<open>Witnesses\<close>

lemma demo_logged_epoch: "sm_epoch (c_store demo_logged) < sm_epoch (c_store demo_logged) + 1"
proof -
  have "sm_epoch (c_store demo_logged) = sm_epoch (c_store demo_engine)"
    by (rule epoch.ProcessEvent_rel [OF reach_facts(1) [OF demo_engine_reach]
        demo_run [of demo_login demo_engine, folded demo_logged_def]])
  then show ?thesis by (simp add: demo_engine_fields empty_store_def)
qed

definition demo_bob :: core where
  "demo_bob = demo_after demo_logged (demo_ping ''bob'')"

definition demo_late :: behavior_event where
  "demo_late = at_second 100 ''e0'' ''alice'' ''Ping''"

theorem shard_refines_plain_map_witness:
  "process_view demo_lo (demo_ping ''bob'') demo_logged (members_view (c_store demo_logged)) =
    (fst (ProcessEvent demo_lo (demo_ping ''bob'') demo_logged), members_view (c_store demo_bob), c_negDeadlines demo_bob)"
  unfolding demo_bob_def by (rule shard_refines_plain_map [OF demo_logged_reach demo_run])

theorem snapshot_is_transparent_witness:
  "fst (process_all (\<lambda>_. demo_lo) [demo_ping ''bob''] (snd (beginSnapshot demo_logged))) =
     fst (process_all (\<lambda>_. demo_lo) [demo_ping ''bob''] demo_logged) \<and>
   members_view (c_store (snd (process_all (\<lambda>_. demo_lo) [demo_ping ''bob''] (snd (beginSnapshot demo_logged))))) =
     members_view (c_store (snd (process_all (\<lambda>_. demo_lo) [demo_ping ''bob''] demo_logged)))"
  by (rule snapshot_is_transparent [OF demo_logged_reach demo_logged_epoch prod.collapse [symmetric]])

theorem every_match_is_justified_witness:
  "genuine [demo_cp] (next_hist (demo_ping ''bob'') demo_logged demo_hist ''bob'') (cepEvent (demo_ping ''bob'')) demo_match \<or>
   genuine_absence [demo_cp] (next_hist (demo_ping ''bob'') demo_logged demo_hist ''alice'') (c_watermark demo_bob) demo_match"
  using every_match_is_justified [OF demo_logged_reach demo_orders(1) demo_run, of demo_match "demo_ping ''bob''",
      OF _ refl, folded demo_bob_def]
  by (simp add: demo_ping_bob demo_logged_state demo_ping_facts) (simp add: demo_match_def)

theorem overdue_matches_fire_exactly_witness:
  "\<exists>ps ms h. processCEP [demo_cp] sorted_list_of_set
       (foldEvent (c_maxWindow demo_engine) (demo_ping ''bob'') (newMemberState ''bob''))
       (cepEvent (demo_ping ''bob'')) (c_watermark demo_bob) [demo_entry] = (ps, ms, h) \<and>
     (\<exists>L. distinct L \<and> set L = overdue [''alice'' \<mapsto> demo_alice, ''bob'' \<mapsto> ms] (c_watermark demo_bob) \<and>
        sorted (map (\<lambda>mi. the (parked_until [''alice'' \<mapsto> demo_alice, ''bob'' \<mapsto> ms] mi)) L) \<and>
        [demo_match] = ps @ concat (map (fired_match [demo_cp] [''alice'' \<mapsto> demo_alice, ''bob'' \<mapsto> ms]) L)) \<and>
     overdue (members_view (c_store demo_bob)) (c_watermark demo_bob) = {}"
proof -
  obtain ps ms h where cep: "processCEP [demo_cp] sorted_list_of_set
       (foldEvent (c_maxWindow demo_engine) (demo_ping ''bob'') (newMemberState ''bob''))
       (cepEvent (demo_ping ''bob'')) (c_watermark demo_bob) [demo_entry] = (ps, ms, h)" by (metis prod_cases3)
  have "\<not> isLate demo_logged (ev_OccurredAt (demo_ping ''bob''))" by (simp add: demo_ping_facts)
  from overdue_matches_fire_exactly [OF demo_logged_reach demo_run this, folded demo_bob_def, OF _ refl, of ps ms h] cep
  show ?thesis by (simp add: demo_ping_bob demo_logged_state demo_ping_facts view_or_new_def)
qed

theorem absence_is_reported_witness:
  "\<exists>n. n < length [demo_ping ''bob''] \<and> demo_match \<in>
      set (pr_MatchedPatterns (fst (process_all (\<lambda>_. demo_lo) [demo_ping ''bob''] demo_logged) ! n)) \<and>
    \<not> 900 * Second < c_watermark (snd (process_all (\<lambda>_. demo_lo) (take n [demo_ping ''bob'']) demo_logged)) \<and>
    900 * Second < c_watermark (snd (process_all (\<lambda>_. demo_lo) (take (Suc n) [demo_ping ''bob'']) demo_logged))"
proof -
  have wm: "c_watermark (snd (process_all (\<lambda>_. demo_lo) [demo_ping ''bob''] demo_logged)) = 995 * Second"
    using watermark_step [OF reach_facts(1) [OF demo_logged_reach] demo_run [of "demo_ping ''bob''" demo_logged]]
      demo_ping_facts(2) [of "''bob''"] demo_logged_state(3,5)
    by (simp add: case_prod_beta Second_def demo_after_def)
  have m: "negativeMatch (cp_pattern demo_cp) demo_progress = demo_match"
    by (simp add: negativeMatch_def demo_match_def demo_progress_def demo_pattern_facts)
  have d: "pg_NegativeDeadline demo_progress = 900 * Second" by (simp add: demo_progress_def)
  have p: "progress_at (members_view (c_store demo_logged)) (''alice'', ''idle|alice|e1'') = Some demo_progress"
    by (simp add: demo_logged_state progress_at_def demo_alice_def)
  have cp: "patternByID (c_patterns demo_logged) (pg_PatternID demo_progress) = Some demo_cp"
    by (simp add: demo_logged_state demo_pattern_facts demo_progress_def)
  have t: "900 * Second \<noteq> zero_time" "\<not> 900 * Second < (595 * Second :: int)" "900 * Second < (995 * Second :: int)"
    by (simp_all add: zero_time_def Second_def)
  show ?thesis
    by (rule absence_is_reported [OF demo_logged_reach p _ _ cp _ prod.collapse [symmetric], unfolded m d demo_logged_state])
      (use t in \<open>simp_all add: wm demo_ping_facts del: process_all.simps\<close>)
qed

theorem watermark_is_the_maximum_witness:
  "c_watermark (snd (process_all (\<lambda>_. demo_lo) [demo_ping ''bob'', demo_late] demo_logged)) = 995 * Second"
proof -
  have "c_watermark (snd (process_all (\<lambda>_. demo_lo) [demo_ping ''bob'', demo_late] demo_logged)) =
      Max (insert (c_watermark demo_logged) ((\<lambda>e. ev_OccurredAt e - c_allowedLateness demo_logged) `
        set [demo_ping ''bob'', demo_late]))"
    by (rule watermark_is_the_maximum [OF demo_logged_reach])
      (simp_all add: demo_logged_state demo_ping_def demo_late_def at_second_def Second_def)
  then show ?thesis by (simp add: demo_logged_state demo_ping_def demo_late_def at_second_def Second_def)
qed

theorem late_events_decide_nothing_witness:
  "fst (ProcessEvent demo_lo demo_late demo_logged) = no_result \<and>
   c_watermark (demo_after demo_logged demo_late) = c_watermark demo_logged \<and>
   c_negDeadlines (demo_after demo_logged demo_late) = c_negDeadlines demo_logged \<and>
   members_view (c_store (demo_after demo_logged demo_late)) = (members_view (c_store demo_logged))(''alice'' \<mapsto>
     foldEvent (c_maxWindow demo_logged) demo_late (view_or_new (members_view (c_store demo_logged)) ''alice'')) \<and>
   c_lateOut (demo_after demo_logged demo_late) =
     c_lateOut demo_logged @ (if c_lateSink demo_logged \<and> \<not> c_replaying demo_logged then [demo_late] else [])"
proof -
  have "isLate demo_logged (ev_OccurredAt demo_late)"
    by (simp add: isLate_def demo_logged_state demo_late_def at_second_def unix_nano_def Second_def)
  from late_events_decide_nothing [OF demo_logged_reach demo_run this] show ?thesis
    by (simp add: demo_late_def at_second_def)
qed


lemma triple: "x = (fst x, fst (snd x), snd (snd x))"
  by simp

theorem progress_order_is_irrelevant_witness:
  "mset (fst (processCEP [demo_cp] sorted_list_of_set demo_alice (cepEvent demo_login) 0 [])) =
     mset (fst (processCEP [demo_cp] (\<lambda>A. rev (sorted_list_of_set A)) demo_alice (cepEvent demo_login) 0 [])) \<and>
   fst (snd (processCEP [demo_cp] sorted_list_of_set demo_alice (cepEvent demo_login) 0 [])) =
     fst (snd (processCEP [demo_cp] (\<lambda>A. rev (sorted_list_of_set A)) demo_alice (cepEvent demo_login) 0 []))"
proof (rule progress_order_is_irrelevant [where pats = "[demo_cp]" and ms = demo_alice and e = "cepEvent demo_login" and
      wm = 0 and h = "[]", OF _ _ _ triple triple])
  show "enumerates (\<lambda>A. rev (sorted_list_of_set A :: string list))" by (simp add: enumerates_def)
  show "finite (dom (ms_Progresses demo_alice))" by (simp add: demo_alice_def)
qed (rule enumerates_sorted)

lemma demo_variables:
  assumes "members_view (c_store demo_logged) m = Some ms" "ms_Progresses ms i = Some p"
  shows "pg_Variables p = Map.empty"
  using assms by (auto simp: demo_logged_state demo_alice_def demo_progress_def split: if_splits)


text \<open>The snapshot of the sample shard, written after Bob's event.\<close>

definition demo_frozen :: frozen_snapshot where
  "demo_frozen = fst (beginSnapshot demo_logged)"

definition demo_running :: "process_result list \<times> core" where
  "demo_running = process_all (\<lambda>_. demo_lo) [demo_ping ''bob''] (snd (beginSnapshot demo_logged))"

lemma demo_encoded: "\<exists>data. encode demo_mo demo_frozen (c_store (snd demo_running)) = Inr data"
proof -
  note inv = reach_facts [OF demo_logged_reach]
  note B = begin_ok [OF inv(1) demo_logged_epoch prod.collapse [symmetric]]
  have "sm_frozenEpoch (c_store (snd (beginSnapshot demo_logged))) \<noteq> 0" using B(2) by (simp add: frozen_view_def)
  from group_members_spared [OF B(2) process_all_spares [OF B(5) prod.collapse [symmetric] this]] B(7)
  have G: "group_members (c_store (snd demo_running)) (fz_state demo_frozen) =
      group_members (c_store demo_logged) (sm_keyGroups (c_store demo_logged))"
    unfolding demo_running_def demo_frozen_def by (simp del: process_all.simps)
  have mo: "enumerates (mo_groups demo_mo)" "enumerates (mo_strings demo_mo)"
    using demo_orders(2) by (simp_all add: map_orders_ok_def)
  have "encode demo_mo demo_frozen (c_store (snd demo_running)) \<noteq> Inl ESnapshotEncode"
    unfolding encode_def G using gob_encode_fails [OF inv(1,2) mo] demo_variables by fastforce
  then show ?thesis by (auto simp: encode_def gob_encode_def split: if_splits)
qed

definition demo_file :: gob_bytes where
  "demo_file = (case encode demo_mo demo_frozen (c_store (snd demo_running)) of Inr data \<Rightarrow> data | Inl e \<Rightarrow> GobOther [])"

lemma demo_file: "encode demo_mo demo_frozen (c_store (snd demo_running)) = Inr demo_file"
  using demo_encoded by (auto simp: demo_file_def)

lemma demo_saved:
  "beginSnapshot demo_logged = (demo_frozen, snd (beginSnapshot demo_logged))"
  "process_all (\<lambda>_. demo_lo) [demo_ping ''bob''] (snd (beginSnapshot demo_logged)) = (fst demo_running, snd demo_running)"
  by (simp_all add: demo_frozen_def demo_running_def)

definition demo_restored :: core where
  "demo_restored = snd (Restore demo_mo demo_file demo_engine)"

theorem restore_recovers_the_freeze_witness:
  "fst (Restore demo_mo demo_file demo_engine) = Inr (c_lastSeq demo_logged) \<and>
   members_view (c_store demo_restored) = members_view (c_store demo_logged) \<and>
   c_watermark demo_restored = c_watermark demo_logged \<and> c_lastSeq demo_restored = c_lastSeq demo_logged \<and>
   heap_inv (c_negDeadlines demo_restored) \<and>
   all_covered (members_view (c_store demo_restored)) (c_negDeadlines demo_restored)"
  unfolding demo_restored_def
  by (rule restore_recovers_the_freeze [OF demo_logged_reach demo_logged_epoch demo_saved demo_file demo_engine_reach _
        demo_orders(2) prod.collapse [symmetric]]) (simp add: demo_logged_state demo_engine_fields)



end
