(* ===== verification/StartupWitness.thy ===== *)
theory StartupWitness
  imports Startup ShardWitness
begin

text \<open>A shard started from the sample tables.\<close>

definition demo_px :: pattern_ctx where
  "demo_px = \<lparr>px_ok = True, px_order = (\<lambda>xs. xs)\<rparr>"

definition demo_pattern_row :: pattern_record where
  "demo_pattern_row = \<lparr>pw_ID = pt_ID demo_pattern, pw_Name = pt_Name demo_pattern,
     pw_StatesJSON = StatesJson (pt_States demo_pattern), pw_Status = CEPPatternStatusActive\<rparr>"

definition started :: core where
  "started = projr (startEngine (demo_ctx 0) demo_px 0 (demo_after_create demo_rule) [demo_pattern_row])"

lemma started:
  "startEngine (demo_ctx 0) demo_px 0 (demo_after_create demo_rule) [demo_pattern_row] = Inr started"
  "c_watermark started = 0" "c_store started = empty_store"
proof -
  obtain eval where load: "ListActiveCompiled (demo_ctx 0) (demo_after_create demo_rule) =
      (Inr (demo_set demo_rule eval), (demo_after_create demo_rule)\<lparr>su_cached := Some (demo_set demo_rule eval)\<rparr>)"
    using demo_load by metis
  have "ListActivePatterns demo_px [demo_pattern_row] = Inr [demo_pattern]"
    by (simp add: ListActivePatterns_def demo_px_def demo_pattern_row_def)
  then have s: "startEngine (demo_ctx 0) demo_px 0 (demo_after_create demo_rule) [demo_pattern_row] =
      Inr ((NewCore 0 (demo_set demo_rule eval) [])\<lparr>c_patterns := [demo_cp]\<rparr>)"
    using demo_registered by (simp add: startEngine_def load) (simp add: NewCore_def Let_def)
  then show "startEngine (demo_ctx 0) demo_px 0 (demo_after_create demo_rule) [demo_pattern_row] = Inr started"
    "c_watermark started = 0" "c_store started = empty_store"
    unfolding started_def by (simp_all add: NewCore_def Let_def)
qed

lemma demo_px: "\<forall>xs. mset (px_order demo_px xs) = mset xs" "distinct (map pw_ID [demo_pattern_row])"
  by (simp_all add: demo_px_def)

theorem started_shard_is_reachable_witness:
  "shard_reach started (\<lambda>_. [])"
  using started_shard_is_reachable [OF started(1) demo_px] by blast


end
