(* ===== verification/ApiMain.thy ===== *)
theory ApiMain
  imports Api StartupWitness Settings
begin

text \<open>
  The process \<^verbatim>\<open>cmd/apis\<close> and what its lives do to the rule table; from the requests of editors to the
  verdicts of a shard that starts later. Requests are answered one after another: a handler sends the table at most
  one statement, so requests answered side by side do to it what they do in the order of their statements.
\<close>

section \<open>main (cmd/apis/main.go, router.go)\<close>

text \<open>One life: the configuration, the database, whether the address can be listened on, the requests answered before
  the process is gone, and whether a signal ended it.\<close>

record api_life =
  al_read :: read_config
  al_config :: "Config option"
  al_dbOpens :: bool
  al_dbUnderlying :: bool
  al_listens :: bool
  al_requests :: "(db_ctx \<times> request) list"
  al_signalled :: bool

datatype api_exit = ApiFatal config_error | ApiPanic db_panic | ApiStopped | ApiUp

fun serve_all :: "(string \<Rightarrow> string \<Rightarrow> string option) \<Rightarrow> (db_ctx \<times> request) list \<Rightarrow> 's strategy_uc \<Rightarrow>
    response list \<times> 's strategy_uc" where
  "serve_all resolve [] uc = ([], uc)"
| "serve_all resolve ((ctx, rq) # rqs) uc =
     (let (r, uc1) = serve resolve ctx rq uc; (rs, uc2) = serve_all resolve rqs uc1 in (r # rs, uc2))"

text \<open>The controller is built over the table, with an empty cache.\<close>

definition InitializeRuleController :: "rule_row list \<Rightarrow> rule_row list strategy_uc" where
  "InitializeRuleController t = NewRuleStrategyUsecaseWith RuleStrategyRepo t"

text \<open>A failure to listen is logged by the goroutine that listens; \<^verbatim>\<open>ApiRegister\<close> waits for a signal all
  the same.\<close>

definition InitRoute :: "(string \<Rightarrow> string \<Rightarrow> string option) \<Rightarrow> api_life \<Rightarrow> rule_row list \<Rightarrow>
    api_exit \<times> response list \<times> rule_row list" where
  "InitRoute resolve al t =
     (let (rs, uc) = serve_all resolve (if al_listens al then al_requests al else []) (InitializeRuleController t)
      in (if al_signalled al then ApiStopped else ApiUp, rs, su_store uc))"

definition apiMain :: "(string \<Rightarrow> string \<Rightarrow> string option) \<Rightarrow> api_life \<Rightarrow> rule_row list \<Rightarrow>
    api_exit \<times> response list \<times> rule_row list" where
  "apiMain resolve al t = (case config_Load (al_read al) (al_config al) of
     Inl e \<Rightarrow> (ApiFatal e, [], t)
   | Inr cfg \<Rightarrow>
       (case db_Init (al_dbOpens al) (al_dbUnderlying al) (cg_DB cfg) \<lparr>dk_once = False, dk_instance = None\<rparr> of
          (Some p, pk) \<Rightarrow> (ApiPanic p, [], t)
        | (None, pk) \<Rightarrow> InitRoute resolve al t))"

text \<open>The table after any number of lives.\<close>

fun api_lives :: "(string \<Rightarrow> string \<Rightarrow> string option) \<Rightarrow> api_life list \<Rightarrow> rule_row list \<Rightarrow> rule_row list" where
  "api_lives resolve [] t = t"
| "api_lives resolve (al # als) t = api_lives resolve als (snd (snd (apiMain resolve al t)))"

section \<open>Requests over lives\<close>

text \<open>The requests of a life that reach the handlers, and what the abstract service makes of a list of them.\<close>

definition answered :: "api_life \<Rightarrow> (db_ctx \<times> request) list" where
  "answered al = (if al_read al \<noteq> ConfigUnreadable \<and> al_config al \<noteq> None \<and> al_dbOpens al \<and> al_dbUnderlying al \<and> al_listens al
     then al_requests al else [])"

fun spec_requests :: "(string \<Rightarrow> string \<Rightarrow> string option) \<Rightarrow> (db_ctx \<times> request) list \<Rightarrow> rule_map \<Rightarrow> int list \<times> rule_map" where
  "spec_requests resolve [] m = ([], m)"
| "spec_requests resolve ((ctx, rq) # rqs) m =
     (let (status, m1) = spec_serve resolve ctx rq m; (ss, m2) = spec_requests resolve rqs m1 in (status # ss, m2))"

text \<open>The database lists rows in some order, and gives new rows IDs that are not in use.\<close>

fun requests_fair :: "(string \<Rightarrow> string \<Rightarrow> string option) \<Rightarrow> (db_ctx \<times> request) list \<Rightarrow> rule_map \<Rightarrow> bool" where
  "requests_fair resolve [] m \<longleftrightarrow> True"
| "requests_fair resolve ((ctx, rq) # rqs) m \<longleftrightarrow>
     fair_order ctx \<and> m (dx_newID ctx) = None \<and> requests_fair resolve rqs (snd (spec_serve resolve ctx rq m))"

lemma serve_all_refines:
  assumes "su_repo uc = RuleStrategyRepo" "table_ok (su_store uc)" "requests_fair resolve rqs (rule_map (su_store uc))"
    and "serve_all resolve rqs uc = (rs, uc1)"
  shows "(map fst rs, rule_map (su_store uc1)) = spec_requests resolve rqs (rule_map (su_store uc)) \<and> table_ok (su_store uc1)"
  using assms
proof (induction rqs arbitrary: uc rs)
  case (Cons x rqs)
  obtain ctx rq where x: "x = (ctx, rq)" by fastforce
  obtain status body uc0 where s: "serve resolve ctx rq uc = ((status, body), uc0)" by (metis prod_cases3 prod.collapse)
  obtain rs0 where r: "serve_all resolve rqs uc0 = (rs0, uc1)" "rs = (status, body) # rs0"
    using Cons.prems(4) by (auto simp: x s split: prod.splits)
  note S = serve_refines [OF Cons.prems(1,2) _ _ s]
  have f: "fair_order ctx" "rule_map (su_store uc) (dx_newID ctx) = None" using Cons.prems(3) by (simp_all add: x)
  have sp: "spec_serve resolve ctx rq (rule_map (su_store uc)) = (status, rule_map (su_store uc0))"
    using S [OF f] by simp
  have "requests_fair resolve rqs (rule_map (su_store uc0))" using Cons.prems(3) by (simp add: x sp)
  from Cons.IH [OF _ _ this r(1)] S [OF f] show ?case by (auto simp: x sp r(2) split: prod.splits)
qed simp

lemma apiMain_refines:
  assumes "table_ok t" "requests_fair resolve (answered al) (rule_map t)" "apiMain resolve al t = (x, rs, t1)"
  shows "(map fst rs, rule_map t1) = spec_requests resolve (answered al) (rule_map t) \<and> table_ok t1"
proof -
  have n: "su_repo (InitializeRuleController t) = RuleStrategyRepo" "su_store (InitializeRuleController t) = t"
    by (simp_all add: InitializeRuleController_def NewRuleStrategyUsecaseWith_def)
  obtain rs1 uc1 where s: "serve_all resolve (answered al) (InitializeRuleController t) = (rs1, uc1)" by fastforce
  have "rs = rs1 \<and> t1 = su_store uc1"
    using assms(3) s n(2) by (auto simp: apiMain_def config_Load_def db_Init_def InitRoute_def answered_def Let_def
        split: if_splits option.splits prod.splits)
  then show ?thesis using serve_all_refines [OF n(1) _ _ s] assms(1,2) by (simp add: n(2))
qed

lemma requests_fair_append:
  "requests_fair resolve (xs @ ys) m \<longleftrightarrow> requests_fair resolve xs m \<and> requests_fair resolve ys (snd (spec_requests resolve xs m))"
  by (induction xs arbitrary: m) (auto split: prod.splits)

lemma spec_requests_append:
  "snd (spec_requests resolve (xs @ ys) m) = snd (spec_requests resolve ys (snd (spec_requests resolve xs m)))"
  by (induction xs arbitrary: m) (auto simp: Let_def split_beta)

lemma api_lives_refine:
  assumes "table_ok t" "requests_fair resolve (concat (map answered als)) (rule_map t)"
  shows "rule_map (api_lives resolve als t) = snd (spec_requests resolve (concat (map answered als)) (rule_map t)) \<and>
    table_ok (api_lives resolve als t)"
  using assms
proof (induction als arbitrary: t)
  case (Cons al als)
  obtain x rs t1 where a: "apiMain resolve al t = (x, rs, t1)" by (metis prod_cases3)
  have f: "requests_fair resolve (answered al) (rule_map t)" using Cons.prems(2) by (simp add: requests_fair_append)
  have "rule_map t1 = snd (spec_requests resolve (answered al) (rule_map t))" "table_ok t1"
    using apiMain_refines [OF Cons.prems(1) f a] by (auto dest: arg_cong [where f = snd])
  then show ?case using Cons.IH [of t1] Cons.prems(2) by (simp add: a requests_fair_append spec_requests_append)
qed simp

text \<open>A server that cannot listen stays up, silent.\<close>

lemma deaf_server_stays_up:
  assumes "config_Load (al_read al) (al_config al) = Inr cfg" "al_dbOpens al" "al_dbUnderlying al" "\<not> al_listens al"
    and "\<not> al_signalled al"
  shows "apiMain resolve al t = (ApiUp, [], t)"
  using assms by (simp add: apiMain_def db_Init_def InitRoute_def InitializeRuleController_def NewRuleStrategyUsecaseWith_def Let_def)

section \<open>From the editor to the verdict\<close>

text \<open>The rules of a map that hold of an event, with the IDs and names of their rows.\<close>

definition verdicts :: "(rule_node \<Rightarrow> bool) \<Rightarrow> rule_map \<Rightarrow> matched_rule set" where
  "verdicts holds m = {\<lparr>mu_ID = i, mu_Name = rw_Name row\<rparr> | i row.
     m i = Some row \<and> rw_Status row = RuleStrategyStatusActive \<and> holds (rg_RuleNode (rule_of row))}"

lemma table_row: "table_ok t \<Longrightarrow> row \<in> set t \<longleftrightarrow> rule_map t (rw_ID row) = Some row"
proof
  assume "table_ok t" "row \<in> set t"
  then show "rule_map t (rw_ID row) = Some row"
    unfolding table_ok_def rule_map_def by (induction t) auto
qed (use rule_map_Some in blast)

lemma verdict_rows:
  assumes "\<And>i row. m i = Some row \<longleftrightarrow> row \<in> A \<and> rw_ID row = i"
  shows "{\<lparr>mu_ID = i, mu_Name = rw_Name row\<rparr> | i row. m i = Some row \<and> rw_Status row = st \<and> P row} =
    (\<lambda>row. \<lparr>mu_ID = rw_ID row, mu_Name = rw_Name row\<rparr>) ` {row \<in> A. rw_Status row = st \<and> P row}"
  using assms by auto


section \<open>Witness\<close>

definition demo_api_life :: api_life where
  "demo_api_life = \<lparr>al_read = ConfigFileNotFound,
     al_config = Some \<lparr>cg_App = \<lparr>ap_Addr = '':8080''\<rparr>, cg_DB = \<lparr>db_Host = ''db'', db_User = ''u'', db_Password = ''p'',
       db_DBName = ''rules'', db_Port = 5432, db_SSLMode = ''disable'', db_TimeZone = ''UTC'', db_MaxOpenConns = 0,
       db_MaxIdleConns = 0, db_ConnMaxLifetimeSec = 0\<rparr>, cg_Log = \<lparr>lc_Level = ''info''\<rparr>\<rparr>,
     al_dbOpens = True, al_dbUnderlying = True, al_listens = True, al_requests = [(demo_ctx 7, demo_post demo_rule)],
     al_signalled = True\<rparr>"

lemma demo_api_answers: "answered demo_api_life = [(demo_ctx 7, demo_post demo_rule)]"
  by (simp add: answered_def demo_api_life_def)

lemma demo_api_spec: "spec_serve demo_resolve (demo_ctx 7) (demo_post demo_rule) (rule_map []) = (200, rule_map [demo_row demo_rule])"
  using serve_refines [OF _ _ demo_ctx_fair(1) demo_fresh demo_served [OF demo_valid]]
  by (simp add: demo_service_def NewRuleStrategyUsecaseWith_def table_ok_def demo_after_create_def StatusOK_def)

lemma demo_api_lives: "api_lives demo_resolve [demo_api_life] [] = [demo_row demo_rule]"
proof -
  have "InitializeRuleController [] = demo_service" by (simp add: InitializeRuleController_def demo_service_def)
  then show ?thesis
    by (simp add: apiMain_def demo_api_life_def config_Load_def db_Init_def Let_def InitRoute_def demo_served [OF demo_valid])
      (simp add: demo_after_create_def)
qed


end
