(* ===== verification/Recovery.thy ===== *)
theory Recovery
  imports Consumer
begin

text \<open>
  What survives a crash, for any backend. A shard's state is a function of the events it has read: the order of
  its map loops, the batches, the snapshots and the restarts do not show. The theory states this once over the
  steps both consumers are made of; the consumers and the process of \<^verbatim>\<open>cmd/rule-engine-core\<close>
  instantiate it.
\<close>

section \<open>The order of map loops does not matter to the state\<close>

lemma shard_finite_progresses:
  "finite_view V \<Longrightarrow> finite (dom (ms_Progresses (foldEvent w e (view_or_new V m))))"
  by (auto simp: view_or_new_def newMemberState_def finite_view_def split: option.split)

lemma agrees_any_order:
  assumes inv: "shard_inv c hist" "shard_inv d hist'" and ag: "agrees c d" and lo: "orders_ok lo" "orders_ok lo'"
    and r: "ProcessEvent lo e c = (res, c')" and r': "ProcessEvent lo' e d = (res', d')"
  shows "mset (pr_MatchedPatterns res) = mset (pr_MatchedPatterns res') \<and> agrees c' d'"
proof -
  let ?V = "members_view (c_store c)" and ?t = "ev_OccurredAt e"
  note ci = shard_invD(1) [OF inv(1)] and di = shard_invD(1) [OF inv(2)]
  have eq: "members_view (c_store d) = ?V" "c_watermark d = c_watermark c" "c_patterns d = c_patterns c"
    "c_ruleSet d = c_ruleSet c" "c_maxWindow d = c_maxWindow c" "c_allowedLateness d = c_allowedLateness c"
    using ag by (simp_all add: agrees_def)
  have late: "isLate d ?t = isLate c ?t" by (simp add: isLate_def eq)
  have wm: "c_watermark (advanceWatermark ?t d) = c_watermark (advanceWatermark ?t c)"
    by (simp add: advanceWatermark_def eq Let_def)
  have fr: "agrees c' d'" if "members_view (c_store c') = members_view (c_store d')"
    using that wm late eq unfolding agrees_def ProcessEvent_frame [OF ci r] ProcessEvent_frame [OF di r'] by simp
  show ?thesis
  proof (cases "isLate c ?t")
    case True
    then have "isLate d ?t" by (simp add: late)
    note L = late_step [OF ci r True] and M = late_step [OF di r' this]
    have "members_view (c_store c') = members_view (c_store d')" unfolding L(4) M(4) eq ..
    then show ?thesis using fr L(1) M(1) by simp
  next
    case False
    then have F': "\<not> isLate d ?t" by (simp add: late)
    have w: "c_watermark d' = c_watermark c'"
      using wm late eq unfolding ProcessEvent_frame [OF ci r] ProcessEvent_frame [OF di r'] by simp
    obtain ps ms1 W h where A: "W = ?V(ev_MemberID e \<mapsto> ms1)"
      "processCEP (c_patterns c) (lo_progresses lo) (foldEvent (c_maxWindow c) e (view_or_new ?V (ev_MemberID e)))
        (cepEvent e) (c_watermark c') (c_negDeadlines c) = (ps, ms1, h)"
      "\<exists>L. distinct L \<and> set L = overdue W (c_watermark c') \<and>
         pr_MatchedPatterns res = ps @ concat (map (fired_match (c_patterns c) W) L) \<and>
         sorted (map (\<lambda>mi. the (parked_until W mi)) L)"
      "members_view (c_store c') = drop_progresses (overdue W (c_watermark c')) W"
      by (rule on_time_step [OF ci r False])
    obtain ps' ms1' W' h' where B: "W' = ?V(ev_MemberID e \<mapsto> ms1')"
      "processCEP (c_patterns c) (lo_progresses lo') (foldEvent (c_maxWindow c) e (view_or_new ?V (ev_MemberID e)))
        (cepEvent e) (c_watermark c') (c_negDeadlines d) = (ps', ms1', h')"
      "\<exists>L. distinct L \<and> set L = overdue W' (c_watermark c') \<and>
         pr_MatchedPatterns res' = ps' @ concat (map (fired_match (c_patterns c) W') L) \<and>
         sorted (map (\<lambda>mi. the (parked_until W' mi)) L)"
      "members_view (c_store d') = drop_progresses (overdue W' (c_watermark c')) W'"
      by (rule on_time_step [OF di r' F', unfolded eq w])
    have "enumerates (lo_progresses lo)" "enumerates (lo_progresses lo')" using lo by (simp_all add: orders_ok_def)
    note O = processCEP_order [OF this shard_finite_progresses [OF shard_invD(2) [OF inv(1)]] A(2) B(2)]
    then have W: "W' = W" by (simp add: A(1) B(1))
    obtain L where L: "distinct L" "set L = overdue W (c_watermark c')"
      "pr_MatchedPatterns res = ps @ concat (map (fired_match (c_patterns c) W) L)" using A(3) by blast
    obtain L' where L': "distinct L'" "set L' = overdue W (c_watermark c')"
      "pr_MatchedPatterns res' = ps' @ concat (map (fired_match (c_patterns c) W) L')" using B(3) unfolding W by blast
    have "mset L = mset L'" using L(1,2) L'(1,2) by (simp add: set_eq_iff_mset_eq_distinct [symmetric])
    then have "mset (concat (map (fired_match (c_patterns c) W) L)) = mset (concat (map (fired_match (c_patterns c) W) L'))"
      by (rule mset_concat_map)
    then show ?thesis using fr A(4) B(4) W O L(3) L'(3) by simp
  qed
qed

section \<open>Reading a source\<close>

text \<open>Events with their positions in the source, in the order of the source.\<close>

type_synonym sourced_event = "behavior_event \<times> uint64"

definition read_event :: "loop_orders \<Rightarrow> sourced_event \<Rightarrow> core \<Rightarrow> core" where
  "read_event lo e c = (snd (ProcessEvent lo (fst e) c))\<lparr>c_lastSeq := snd e\<rparr>"

definition read_events :: "loop_orders \<Rightarrow> sourced_event list \<Rightarrow> core \<Rightarrow> core" where
  "read_events lo = fold (read_event lo)"

lemma read_simps [simp]:
  "read_events lo [] c = c" "read_events lo (e # es) c = read_events lo es (read_event lo e c)"
  "read_events lo (es @ es') c = read_events lo es' (read_events lo es c)"
  by (simp_all add: read_events_def)

lemma agrees_refl [simp]: "agrees c c"
  by (simp add: agrees_def)

lemma agrees_trans: "agrees c d \<Longrightarrow> agrees d e \<Longrightarrow> agrees c e"
  by (simp add: agrees_def)

lemma agrees_sym: "agrees c d \<Longrightarrow> agrees d c"
  by (simp add: agrees_def)

lemma read_event_reach:
  assumes "shard_reach c hist" "orders_ok lo"
  shows "\<exists>hist'. shard_reach (read_event lo e c) hist'"
  using reach_lastSeq [OF reach_event [OF assms prod.collapse [symmetric]]] unfolding read_event_def by blast

lemma read_reach:
  assumes "shard_reach c hist" "orders_ok lo"
  shows "\<exists>hist'. shard_reach (read_events lo es c) hist'"
  using assms(1)
proof (induction es arbitrary: c hist)
  case (Cons e es)
  then show ?case using read_event_reach [OF Cons.prems assms(2), of e] by auto
qed auto

lemma read_lastSeq: "c_lastSeq (read_events lo es c) = (if es = [] then c_lastSeq c else snd (last es))"
  by (induction es rule: rev_induct) (simp_all add: read_event_def)

lemma read_event_agrees:
  assumes "shard_reach c hist" "shard_reach d hist'" "agrees c d" "orders_ok lo" "orders_ok lo'"
  shows "agrees (read_event lo e c) (read_event lo' e d)"
  using agrees_any_order [OF reach_inv [OF assms(1)] reach_inv [OF assms(2)] assms(3-5) prod.collapse [symmetric]
      prod.collapse [symmetric]]
  by (simp add: read_event_def)

lemma read_agrees:
  assumes "shard_reach c hist" "shard_reach d hist'" "agrees c d" "orders_ok lo" "orders_ok lo'"
  shows "agrees (read_events lo es c) (read_events lo' es d)"
  using assms(1-3)
proof (induction es arbitrary: c d hist hist')
  case (Cons e es)
  obtain h h' where "shard_reach (read_event lo e c) h" "shard_reach (read_event lo' e d) h'"
    using read_event_reach Cons.prems assms(4,5) by metis
  then show ?case using Cons.IH read_event_agrees [OF Cons.prems assms(4,5)] by simp
qed simp

section \<open>Checkpoints\<close>

text \<open>A snapshot that a shard with engine \<open>d\<close> could have written while it read \<open>es\<close>: a freeze of it after some of
  them.\<close>

definition checkpoint :: "loop_orders \<Rightarrow> core \<Rightarrow> sourced_event list \<Rightarrow> snapshot \<Rightarrow> bool" where
  "checkpoint lo d es s \<longleftrightarrow> (\<exists>ys c hist. prefix ys es \<and> s = freeze_of c \<and> shard_reach c hist \<and>
     sm_epoch (c_store c) < sm_epoch (c_store c) + 1 \<and> agrees c (read_events lo ys d) \<and> c_lastSeq c = c_lastSeq (read_events lo ys d))"

text \<open>What is in the file: what was there, or an encoded snapshot.\<close>

definition encoded :: "files \<Rightarrow> string \<Rightarrow> files \<Rightarrow> bool" where
  "encoded fs0 path fs \<longleftrightarrow> fs path = fs0 path \<or> (\<exists>mo s. fs path = Some (GobSnapshot s) \<and> gob_encode mo s = Inr (GobSnapshot s))"

text \<open>A consumer that started on \<open>d\<close> with the files \<open>fs0\<close> has read \<open>es\<close>; its epoch is at most \<open>n\<close>.\<close>

definition tracked :: "loop_orders \<Rightarrow> files \<Rightarrow> core \<Rightarrow> string \<Rightarrow> nat \<Rightarrow> consumer \<Rightarrow> sourced_event list \<Rightarrow> bool" where
  "tracked lo fs0 d path n co es \<longleftrightarrow> (\<exists>hist gs. consumer_reach fs0 co hist gs \<and> (\<forall>s\<in>set gs. checkpoint lo d es s)) \<and>
     as_path (co_snap co) = path \<and> encoded fs0 path (co_files co) \<and>
     agrees (co_core co) (read_events lo es d) \<and> c_lastSeq (co_core co) = c_lastSeq (read_events lo es d) \<and>
     unat (sm_epoch (c_store (co_core co))) \<le> n"

lemma trackedI:
  "consumer_reach fs0 co hist gs \<Longrightarrow> \<forall>s\<in>set gs. checkpoint lo d es s \<Longrightarrow> as_path (co_snap co) = path \<Longrightarrow>
    encoded fs0 path (co_files co) \<Longrightarrow> agrees (co_core co) (read_events lo es d) \<Longrightarrow>
    c_lastSeq (co_core co) = c_lastSeq (read_events lo es d) \<Longrightarrow> unat (sm_epoch (c_store (co_core co))) \<le> n \<Longrightarrow>
    tracked lo fs0 d path n co es"
  unfolding tracked_def by blast

lemma trackedD:
  assumes "tracked lo fs0 d path n co es"
  shows "\<exists>hist gs. consumer_reach fs0 co hist gs \<and> (\<forall>s\<in>set gs. checkpoint lo d es s)"
    "as_path (co_snap co) = path" "encoded fs0 path (co_files co)" "agrees (co_core co) (read_events lo es d)"
    "c_lastSeq (co_core co) = c_lastSeq (read_events lo es d)" "unat (sm_epoch (c_store (co_core co))) \<le> n"
  using assms by (simp_all add: tracked_def)

lemma checkpoint_more: "checkpoint lo d es s \<Longrightarrow> checkpoint lo d (es @ es') s"
  unfolding checkpoint_def using prefix_prefix by blast

lemma write_encoded:
  assumes "encoded fs0 path fs" "gob_encode mo s = Inr data" "writeSnapshotFile w path data fs = (e, fs')"
  shows "encoded fs0 path fs'"
proof -
  have "data = GobSnapshot s" using assms(2) by (simp add: gob_encode_def split: if_splits)
  then show ?thesis using assms write_error_keeps(1) [OF assms(3)] by (auto simp: encoded_def split: if_splits)
qed

lemma background_encoded:
  assumes "encoded fs0 (as_path (co_snap co)) (co_files co)"
  shows "encoded fs0 (as_path (co_snap co)) (co_files (background mo w co))"
proof (cases "\<exists>f data. as_done (co_snap co) = Some (Running f) \<and> encode mo f (c_store (co_core co)) = Inr data")
  case True
  then obtain f data where f: "as_done (co_snap co) = Some (Running f)" "encode mo f (c_store (co_core co)) = Inr data" by blast
  obtain e fs where w: "writeSnapshotFile w (as_path (co_snap co)) data (co_files co) = (e, fs)" by fastforce
  show ?thesis using write_encoded [OF assms f(2) [unfolded encode_def] w] by (simp add: background_def f w)
next
  case False
  then have "co_files (background mo w co) = co_files co"
    by (auto simp: background_def Let_def split: option.splits job.splits sum.splits)
  then show ?thesis using assms by simp
qed

lemma await_files:
  "co_files (await_snapshot t mo w co) = co_files (background mo w co)"
  "as_path (co_snap (await_snapshot t mo w co)) = as_path (co_snap co)"
  "as_path (co_snap (background mo w co)) = as_path (co_snap co)"
proof -
  show p: "as_path (co_snap (background mo w co)) = as_path (co_snap co)"
    by (auto simp: background_def Let_def split: option.splits job.splits sum.splits prod.splits)
  show "co_files (await_snapshot t mo w co) = co_files (background mo w co)"
    "as_path (co_snap (await_snapshot t mo w co)) = as_path (co_snap co)"
    unfolding await_snapshot_def Let_def finish_def
    by (cases "as_done (co_snap (background mo w co))"; simp add: p split: job.split)+
qed

lemma snapshotToFile_encoded:
  assumes "encoded fs0 path fs" "snapshotToFile mo w path c fs = (e, c', fs')"
  shows "encoded fs0 path fs'"
proof -
  obtain f c1 where b: "beginSnapshot c = (f, c1)" by fastforce
  show ?thesis
  proof (cases "encode mo f (c_store c1)")
    case (Inl e1)
    then show ?thesis using assms by (simp add: snapshotToFile_def Snapshot_def b)
  next
    case (Inr data)
    obtain e2 fs2 where w: "writeSnapshotFile w path data fs = (e2, fs2)" by fastforce
    show ?thesis using assms write_encoded [OF assms(1) Inr [unfolded encode_def] w]
      by (simp add: snapshotToFile_def Snapshot_def b Inr w)
  qed
qed

lemma drain_encoded:
  assumes "encoded fs0 (as_path (co_snap co)) (co_files co)" "drain t mo w w' co = (e, co')"
  shows "encoded fs0 (as_path (co_snap co)) (co_files co')" "as_path (co_snap co') = as_path (co_snap co)"
proof -
  define co1 where "co1 = (if as_done (co_snap co) \<noteq> None then await_snapshot t mo w co else co)"
  have C: "encoded fs0 (as_path (co_snap co)) (co_files co1)" "as_path (co_snap co1) = as_path (co_snap co)"
    using background_encoded [OF assms(1)] assms(1) by (simp_all add: co1_def await_files)
  obtain e2 c1 fs where s: "snapshotToFile mo w' (as_path (co_snap co1)) (co_core co1) (co_files co1) = (e2, c1, fs)"
    by (metis prod_cases3)
  have r: "(e, co') = (if as_path (co_snap co) = [] then (None, co) else (e2, co1\<lparr>co_core := c1, co_files := fs\<rparr>))"
    using assms(2) s unfolding drain_def co1_def [symmetric] Let_def by (auto split: if_splits)
  show "encoded fs0 (as_path (co_snap co)) (co_files co')" "as_path (co_snap co') = as_path (co_snap co)"
    using r assms(1) snapshotToFile_encoded [OF C(1)] s C(2) by (auto split: if_splits)
qed

section \<open>The steps of a consumer\<close>

lemma tracked_start:
  assumes "shard_reach d hist" "sm_frozenEpoch (c_store d) = 0" "unat (sm_epoch (c_store d)) \<le> n"
    and "agrees d (read_events lo ys e)" "c_lastSeq d = c_lastSeq (read_events lo ys e)"
  shows "tracked lo fs e path n \<lparr>co_core = d, co_snap = newAsyncSnapshotter path iv now, co_files = fs, co_log = []\<rparr> ys"
  by (rule trackedI [OF cr_start [OF assms(1,2)]]) (use assms in \<open>simp_all add: newAsyncSnapshotter_def encoded_def\<close>)

lemma tracked_event:
  assumes T: "tracked lo fs0 d path n co es" and d: "shard_reach d hist0" and lo: "orders_ok lo" "orders_ok lo'"
    and p: "ProcessEvent lo' ev (co_core co) = (res, c')"
    and co': "co' = co\<lparr>co_core := (if rep then EndReplay else (\<lambda>c. c)) (c'\<lparr>c_lastSeq := q\<rparr>)\<rparr>"
  shows "tracked lo fs0 d path n co' (es @ [(ev, q)])"
proof -
  obtain hist gs where C: "consumer_reach fs0 co hist gs" "\<forall>s\<in>set gs. checkpoint lo d es s"
    using T by (auto simp: tracked_def)
  have I: "shard_reach (co_core co) hist" using consumer_reach_inv [OF C(1)] by (simp add: consumer_inv_def)
  obtain hist2 where D: "shard_reach (read_events lo es d) hist2" using read_reach [OF d lo(1)] by blast
  note A = agrees_any_order [OF reach_inv [OF I] reach_inv [OF D] _ lo(2,1) p prod.collapse [symmetric]]
  have ag: "agrees (co_core co') (read_events lo (es @ [(ev, q)]) d)"
    using A T by (simp add: co' tracked_def read_event_def)
  have "sm_epoch (c_store (co_core co')) = sm_epoch (c_store (co_core co))"
    using epoch.ProcessEvent_rel [OF reach_facts(1) [OF I] p] by (simp add: co')
  moreover have "consumer_reach fs0 co' (next_hist ev (co_core co) hist) gs"
    using cr_lastSeq [OF cr_event [OF C(1) lo(2) p], of q] cr_EndReplay [OF cr_lastSeq [OF cr_event [OF C(1) lo(2) p], of q]]
    by (simp add: co')
  moreover have "\<forall>s\<in>set gs. checkpoint lo d (es @ [(ev, q)]) s" using C(2) checkpoint_more by blast
  moreover have "c_lastSeq (co_core co') = c_lastSeq (read_events lo (es @ [(ev, q)]) d)" by (simp add: co' read_event_def)
  ultimately show ?thesis using trackedD(2,3,6) [OF T] ag by (intro trackedI) (simp_all add: co')
qed

lemma tracked_reach:
  assumes "tracked lo fs0 d path n co es"
  obtains hist where "shard_reach (co_core co) hist"
proof -
  obtain hist gs where "consumer_reach fs0 co hist gs" using assms by (auto simp: tracked_def)
  then show thesis using that consumer_reach_inv unfolding consumer_inv_def by blast
qed

lemma tracked_checkpoint:
  assumes T: "tracked lo fs0 d path n co es" and wrap: "sm_epoch (c_store (co_core co)) < sm_epoch (c_store (co_core co)) + 1"
  shows "checkpoint lo d es (freeze_of (co_core co))"
proof -
  obtain hist where "shard_reach (co_core co) hist" using tracked_reach [OF T] .
  then show ?thesis using T wrap unfolding checkpoint_def tracked_def by blast
qed

lemma epoch_wrap: "unat (e :: uint64) \<le> n \<Longrightarrow> Suc n < 2 ^ 64 \<Longrightarrow> e < e + 1 \<and> unat (e + 1) = unat e + 1"
proof -
  assume "unat e \<le> n" "Suc n < 2 ^ 64"
  then have "unat e + 1 < 2 ^ 64" by simp
  then have "unat (e + 1) = unat e + 1" by (subst unat_add_lem [THEN iffD1]) simp_all
  then show ?thesis by (simp add: word_less_nat_alt)
qed

lemma tracked_tick:
  assumes T: "tracked lo fs0 d path n co es" and n: "Suc n < 2 ^ 64"
  shows "tracked lo fs0 d path (Suc n) (tick clk co) es"
proof -
  obtain hist gs where C: "consumer_reach fs0 co hist gs" "\<forall>s\<in>set gs. checkpoint lo d es s"
    using T by (auto simp: tracked_def)
  note I = reach_facts(1) [OF conjunct1 [OF consumer_reach_inv [OF C(1), unfolded consumer_inv_def]]]
  have w: "sm_epoch (c_store (co_core co)) < sm_epoch (c_store (co_core co)) + 1"
    "unat (sm_epoch (c_store (co_core co)) + 1) = unat (sm_epoch (c_store (co_core co))) + 1"
    using epoch_wrap [OF _ n] T by (simp_all add: tracked_def)
  note A = tick_agrees [OF I w(1), of clk]
  have "unat (sm_epoch (c_store (co_core (tick clk co)))) \<le> Suc n"
    using A w(2) T by (simp add: word_le_nat_alt tracked_def)
  moreover have "as_path (co_snap (tick clk co)) = as_path (co_snap co)" "co_files (tick clk co) = co_files co"
    by (auto simp: tick_def Let_def startSnapshot_def finish_def split: prod.split option.split job.split)
  moreover have "\<forall>s\<in>set (gs @ [freeze_of (co_core co)]). checkpoint lo d es s"
    using C(2) tracked_checkpoint [OF T w(1)] by simp
  moreover note cr_tick [OF C(1) w(1), of clk]
  moreover have "agrees (co_core (tick clk co)) (read_events lo es d)" using A T agrees_trans by (auto simp: tracked_def)
  ultimately show ?thesis using T A unfolding tracked_def by (metis (no_types, lifting))
qed

lemma tracked_background:
  assumes T: "tracked lo fs0 d path n co es"
  shows "tracked lo fs0 d path n (background mo w co) es"
proof -
  obtain hist gs where C: "consumer_reach fs0 co hist gs" "\<forall>s\<in>set gs. checkpoint lo d es s"
    using T by (auto simp: tracked_def)
  note B = background_inv [OF consumer_reach_inv [OF C(1)], of mo w]
  have "encoded fs0 path (co_files (background mo w co))"
    using background_encoded [of fs0 co mo w] T by (simp add: tracked_def)
  then show ?thesis using T B(2,3) cr_background [OF C(1), of mo w] C(2) unfolding tracked_def by (metis (no_types, lifting))
qed

text \<open>What a consumer leaves behind: the file it found, or a checkpoint that can be decoded.\<close>

definition saved :: "loop_orders \<Rightarrow> core \<Rightarrow> string \<Rightarrow> files \<Rightarrow> sourced_event list \<Rightarrow> files \<Rightarrow> bool" where
  "saved lo d path fs0 es fs \<longleftrightarrow> fs path = fs0 path \<or>
     (\<exists>mo s. fs path = Some (GobSnapshot s) \<and> gob_encode mo s = Inr (GobSnapshot s) \<and> checkpoint lo d es s)"

lemma savedI:
  assumes "encoded fs0 path fs" "whole_file fs0 gs path fs" "\<forall>s\<in>set gs. checkpoint lo d es s"
  shows "saved lo d path fs0 es fs"
  using assms unfolding saved_def encoded_def whole_file_def by (metis gob_bytes.inject(1) option.inject)

lemma tracked_saved: "tracked lo fs0 d path n co es \<Longrightarrow> saved lo d path fs0 es (co_files co)"
proof -
  assume T: "tracked lo fs0 d path n co es"
  obtain hist gs where C: "consumer_reach fs0 co hist gs" "\<forall>s\<in>set gs. checkpoint lo d es s" using trackedD(1) [OF T] by blast
  show ?thesis using savedI [OF trackedD(3) [OF T] _ C(2)] consumer_reach_inv [OF C(1)] trackedD(2) [OF T]
    by (simp add: consumer_inv_def)
qed

lemma drain_saved:
  assumes T: "tracked lo fs0 d path n co es" and n: "Suc n < 2 ^ 64" and dr: "drain t mo w w' co = (e, co')"
  shows "saved lo d path fs0 es (co_files co')"
proof -
  obtain hist gs where C: "consumer_reach fs0 co hist gs" "\<forall>s\<in>set gs. checkpoint lo d es s" using trackedD(1) [OF T] by blast
  have w: "sm_epoch (c_store (co_core co)) < sm_epoch (c_store (co_core co)) + 1"
    using epoch_wrap [OF trackedD(6) [OF T] n] by blast
  have P: "as_path (co_snap co) = path" by (rule trackedD(2) [OF T])
  note E = drain_encoded [OF _ dr, of fs0, unfolded P, OF trackedD(3) [OF T]]
  have "\<forall>s\<in>set (gs @ [freeze_of (co_core co)]). checkpoint lo d es s" using C(2) tracked_checkpoint [OF T w] by simp
  moreover have "whole_file fs0 (gs @ [freeze_of (co_core co)]) path (co_files co')"
    using consumer_reach_inv [OF cr_drain [OF C(1) w dr]] E(2) by (simp add: consumer_inv_def)
  ultimately show ?thesis using savedI [OF E(1)] by blast
qed

section \<open>Starting from a checkpoint\<close>

lemma read_frame:
  assumes "shard_reach c hist" "orders_ok lo"
  shows "c_patterns (read_events lo es c) = c_patterns c \<and> c_ruleSet (read_events lo es c) = c_ruleSet c \<and>
    c_maxWindow (read_events lo es c) = c_maxWindow c \<and> c_allowedLateness (read_events lo es c) = c_allowedLateness c"
  using assms(1)
proof (induction es arbitrary: c hist)
  case (Cons e es)
  note F = ProcessEvent_frame(1-4) [OF reach_facts(1) [OF Cons.prems] prod.collapse [symmetric], of lo "fst e"]
  obtain hist' where "shard_reach (read_event lo e c) hist'" using read_event_reach [OF Cons.prems assms(2)] by blast
  from Cons.IH [OF this] F show ?case by (simp add: read_event_def)
qed simp

lemma Restore_epochs:
  "Restore mo data c = (Inr seq, d) \<Longrightarrow> sm_epoch (c_store d) = sm_epoch (c_store c) \<and>
    sm_frozenEpoch (c_store d) = sm_frozenEpoch (c_store c)"
  by (auto simp: Restore_def rebuildNegativeDeadlines_def split: gob_bytes.splits sum.splits)

lemma checkpoint_restores:
  assumes e: "shard_reach e h0" and lo: "orders_ok lo" and ck: "checkpoint lo e es s"
    and enc: "gob_encode mo0 s = Inr (GobSnapshot s)" and mo: "map_orders_ok mo" and r: "Restore mo (GobSnapshot s) e = (r, d)"
  obtains ys hist where "prefix ys es" "r = Inr (c_lastSeq (read_events lo ys e))" "shard_reach d hist"
    "agrees d (read_events lo ys e)" "c_lastSeq d = c_lastSeq (read_events lo ys e)"
proof -
  obtain ys c hist where C: "prefix ys es" "s = freeze_of c" "shard_reach c hist"
      "sm_epoch (c_store c) < sm_epoch (c_store c) + 1" "agrees c (read_events lo ys e)" "c_lastSeq c = c_lastSeq (read_events lo ys e)"
    using ck by (auto simp: checkpoint_def)
  note F = read_frame [OF e lo, of ys]
  have fr: "c_patterns e = c_patterns c" "c_ruleSet e = c_ruleSet c" "c_maxWindow e = c_maxWindow c"
    "c_allowedLateness e = c_allowedLateness c" using F C(5) by (simp_all add: agrees_def)
  note R = restored_freeze [OF reach_inv [OF C(3)] reach_inv [OF e] fr(1) mo r [unfolded C(2)]]
  obtain f c1 where b: "beginSnapshot c = (f, c1)" by fastforce
  have "encode mo0 f (c_store c1) = Inr (GobSnapshot s)"
    unfolding encode_def using begin_freeze(2) [OF reach_facts(1) [OF C(3)] C(4) b] enc C(2) by simp
  then have "shard_reach d hist"
    by (intro reach_Restore [OF C(3,4) b _ _ _ e fr(1) mo r, where los = "\<lambda>_. lo" and es = "[]"]) (use lo in simp_all)
  moreover have "agrees d (read_events lo ys e)" using agrees_trans [OF agrees_sym [OF R(2) [OF fr(2-4)]] C(5)] .
  ultimately show thesis using that [OF C(1)] R(1,3) C(6) by simp
qed

section \<open>The source\<close>

text \<open>The messages of a shard with their positions, as the broker keeps them.\<close>

type_synonym source = "(message_body \<times> uint64) list"

definition log_events :: "source \<Rightarrow> sourced_event list" where
  "log_events src = concat (map (\<lambda>(b, q). case decodeEvent b of Inl e \<Rightarrow> [] | Inr ev \<Rightarrow> [(ev, q)]) src)"

text \<open>Positions increase, stay below the largest one, and no event sits at position 0.\<close>

definition source_ok :: "source \<Rightarrow> bool" where
  "source_ok src \<longleftrightarrow> sorted_wrt (<) (map snd src) \<and>
     (\<forall>bq\<in>set src. snd bq < snd bq + 1 \<and> (is_ok (decodeEvent (fst bq)) \<longrightarrow> 0 < snd bq))"

definition before :: "uint64 \<Rightarrow> source \<Rightarrow> source" where
  "before start = filter (\<lambda>bq. snd bq < start)"

definition from_pos :: "uint64 \<Rightarrow> source \<Rightarrow> source" where
  "from_pos start = filter (\<lambda>bq. start \<le> snd bq)"

lemma log_events_simps [simp]:
  "log_events [] = []" "log_events (src @ src') = log_events src @ log_events src'"
  "log_events ((b, q) # src) = (case decodeEvent b of Inl e \<Rightarrow> [] | Inr ev \<Rightarrow> [(ev, q)]) @ log_events src"
  by (simp_all add: log_events_def)

lemma log_events_filter: "log_events (filter (\<lambda>bq. P (snd bq)) src) = filter (\<lambda>e. P (snd e)) (log_events src)"
  by (induction src) (auto split: sum.split)

lemma log_events_pos: "(ev, q) \<in> set (log_events src) \<Longrightarrow> \<exists>b. (b, q) \<in> set src \<and> decodeEvent b = Inr ev"
  by (fastforce simp: log_events_def split: sum.splits)

lemma log_events_sorted: "sorted_wrt (<) (map snd src) \<Longrightarrow> sorted_wrt (<) (map snd (log_events src))"
proof (induction src)
  case (Cons bq src)
  have "\<forall>x\<in>snd ` set (log_events src). snd bq < x" using Cons.prems log_events_pos by fastforce
  then show ?case using Cons by (cases bq) (auto split: sum.split)
qed simp

lemma before_from: "sorted_wrt (<) (map snd src) \<Longrightarrow> before start src @ from_pos start src = src"
proof (induction src)
  case (Cons bq src)
  have "before start src = []" if "start \<le> snd bq"
    using that Cons.prems by (force simp: before_def filter_empty_conv)
  then show ?case using Cons by (auto simp: before_def from_pos_def not_less)
qed (simp add: before_def from_pos_def)

lemma prefix_before:
  fixes es :: "sourced_event list"
  assumes so: "sorted_wrt (<) (map snd es)" and pr: "prefix ys es" and ne: "ys \<noteq> []"
  shows "filter (\<lambda>e. snd e \<le> snd (last ys)) es = ys"
proof -
  obtain zs where zs: "es = ys @ zs" using pr by (auto simp: prefix_def)
  obtain ws w where ws: "ys = ws @ [w]" using ne by (metis rev_exhaust)
  have "\<forall>e\<in>set zs. \<not> snd e \<le> snd w" "\<forall>e\<in>set ys. snd e \<le> snd w"
    using so unfolding zs ws by (auto simp: sorted_wrt_append intro: less_imp_le)
  then have "filter (\<lambda>e. snd e \<le> snd w) zs = []" "filter (\<lambda>e. snd e \<le> snd w) ys = ys"
    by (auto simp: filter_empty_conv filter_id_conv)
  then show ?thesis by (simp add: zs) (simp add: ws)
qed

text \<open>The position after a checkpoint separates what the checkpoint has seen from what it has not.\<close>

lemma resume_position:
  assumes ok: "source_ok src" and pr: "prefix ys (log_events src)" and e: "c_lastSeq e = 0"
    and start: "start = c_lastSeq (read_events lo ys e) + 1"
  shows "log_events (before start src) = ys"
proof (cases "ys = []")
  case True
  have "(ev, q) \<notin> set (log_events (before 1 src))" for ev q
    using log_events_pos [of ev q "before 1 src"] ok by (fastforce simp: source_ok_def before_def word_less_1)
  then have "log_events (before 1 src) = []" by (metis list.set_intros(1) neq_Nil_conv surj_pair)
  then show ?thesis using True start e by simp
next
  case False
  let ?q = "snd (last ys)"
  have "last ys \<in> set (log_events src)" using False pr by (metis last_in_set prefixE set_append UnCI)
  then obtain b where "(b, ?q) \<in> set src" using log_events_pos [of "fst (last ys)" ?q] by auto
  then have "?q < ?q + 1" using ok by (force simp: source_ok_def)
  then have "(x < ?q + 1) = (x \<le> ?q)" for x by unat_arith
  then have "log_events (before start src) = filter (\<lambda>e. snd e \<le> ?q) (log_events src)"
    using start False by (simp add: read_lastSeq before_def log_events_filter [of "\<lambda>q. q \<le> ?q"])
  then show ?thesis using prefix_before [OF log_events_sorted pr False] ok by (simp add: source_ok_def)
qed

section \<open>Lives of a process\<close>

text \<open>An engine as it is built at every start, before it has read anything.\<close>

definition unread :: "core \<Rightarrow> bool" where
  "unread e \<longleftrightarrow> (\<exists>hist. shard_reach e hist) \<and> c_lastSeq e = 0 \<and> sm_frozenEpoch (c_store e) = 0 \<and>
     unat (sm_epoch (c_store e)) \<le> 1"

text \<open>A shard that stands where the engine \<open>e\<close> would stand after \<open>ys\<close>, with no snapshot under way.\<close>

definition stands :: "loop_orders \<Rightarrow> core \<Rightarrow> sourced_event list \<Rightarrow> core \<Rightarrow> bool" where
  "stands lo e ys d \<longleftrightarrow> (\<exists>hist. shard_reach d hist) \<and> sm_frozenEpoch (c_store d) = 0 \<and>
     unat (sm_epoch (c_store d)) \<le> 1 \<and> agrees d (read_events lo ys e) \<and> c_lastSeq d = c_lastSeq (read_events lo ys e)"

text \<open>The first step of \<^verbatim>\<open>Run\<close>: without a file the shard is the engine, with one it is restored
  and starts behind the position of the file.\<close>

definition resumed :: "string \<Rightarrow> core \<Rightarrow> files \<Rightarrow> uint64 \<Rightarrow> core \<Rightarrow> bool" where
  "resumed path e fs start d \<longleftrightarrow> (path = [] \<or> fs path = None) \<and> start \<le> 1 \<and> d = e \<or>
     path \<noteq> [] \<and> (\<exists>mo data seq. map_orders_ok mo \<and> fs path = Some data \<and> Restore mo data e = (Inr seq, d) \<and> start = seq + 1)"

text \<open>The files a process may find after any number of lives on one source.\<close>

inductive lives :: "string \<Rightarrow> (files \<Rightarrow> uint64 \<Rightarrow> source \<Rightarrow> files \<Rightarrow> bool) \<Rightarrow> source \<Rightarrow> files \<Rightarrow> bool"
  for path ends src where
  lives_new: "fs path = None \<Longrightarrow> lives path ends src fs"
| lives_end: "lives path ends src fs \<Longrightarrow> ends fs start ms fs' \<Longrightarrow> prefix ms (from_pos start src) \<Longrightarrow>
    lives path ends src fs'"

definition kept :: "loop_orders \<Rightarrow> core \<Rightarrow> string \<Rightarrow> source \<Rightarrow> files \<Rightarrow> bool" where
  "kept lo e path src fs \<longleftrightarrow> path = [] \<or> fs path = None \<or>
     (\<exists>mo s. fs path = Some (GobSnapshot s) \<and> gob_encode mo s = Inr (GobSnapshot s) \<and> checkpoint lo e (log_events src) s)"

lemma before_1: "source_ok src \<Longrightarrow> start \<le> 1 \<Longrightarrow> log_events (before start src) = []"
proof -
  assume ok: "source_ok src" and st: "start \<le> 1"
  have "(ev, q) \<notin> set (log_events (before start src))" for ev q
  proof
    assume "(ev, q) \<in> set (log_events (before start src))"
    then obtain b where b: "(b, q) \<in> set src" "q < start" "decodeEvent b = Inr ev"
      using log_events_pos by (fastforce simp: before_def)
    then have "0 < q" using ok by (force simp: source_ok_def)
    then show False using b(2) st by unat_arith
  qed
  then show "log_events (before start src) = []" by (metis list.set_intros(1) neq_Nil_conv surj_pair)
qed

lemma resumed_stands:
  assumes e: "unread e" and ok: "source_ok src" and k: "kept lo e path src fs" and lo: "orders_ok lo"
    and r: "resumed path e fs start d"
  shows "stands lo e (log_events (before start src)) d"
proof -
  obtain h0 where E: "shard_reach e h0" "c_lastSeq e = 0" "sm_frozenEpoch (c_store e) = 0" "unat (sm_epoch (c_store e)) \<le> 1"
    using e by (auto simp: unread_def)
  show ?thesis
  proof (cases "(path = [] \<or> fs path = None) \<and> start \<le> 1 \<and> d = e")
    case True
    then show ?thesis using E before_1 [OF ok] by (auto simp: stands_def)
  next
    case False
    then obtain mo data seq where R: "path \<noteq> []" "map_orders_ok mo" "fs path = Some data"
        "Restore mo data e = (Inr seq, d)" "start = seq + 1" using r by (auto simp: resumed_def)
    obtain mo0 s where S: "data = GobSnapshot s" "gob_encode mo0 s = Inr (GobSnapshot s)" "checkpoint lo e (log_events src) s"
      using k R(1,3) by (auto simp: kept_def)
    obtain ys hist where C: "prefix ys (log_events src)" "Inr seq = (Inr (c_lastSeq (read_events lo ys e)) :: snapshot_error + uint64)"
        "shard_reach d hist" "agrees d (read_events lo ys e)" "c_lastSeq d = c_lastSeq (read_events lo ys e)"
      by (rule checkpoint_restores [OF E(1) lo S(3,2) R(2) R(4) [unfolded S(1)]])
    have "log_events (before start src) = ys"
      using resume_position [OF ok C(1) E(2)] R(5) C(2) by simp
    then show ?thesis using C Restore_epochs [OF R(4)] E by (auto simp: stands_def)
  qed
qed

lemma kept_saved:
  assumes ok: "source_ok src" and k: "kept lo e path src fs" and pr: "prefix ms (from_pos start src)"
    and s: "saved lo e path fs (log_events (before start src) @ log_events ms) fs'"
  shows "kept lo e path src fs'"
proof -
  have "prefix (before start src @ ms) src"
    using pr before_from [of src start] ok by (auto simp: source_ok_def prefix_def) (metis append_assoc)
  then obtain zs where "src = (before start src @ ms) @ zs" by (auto simp: prefix_def)
  then have "log_events src = (log_events (before start src) @ log_events ms) @ log_events zs"
    by (metis log_events_simps(2))
  then have "checkpoint lo e (log_events src) s"
    if "checkpoint lo e (log_events (before start src) @ log_events ms) s" for s
    using checkpoint_more [OF that] by simp
  then show ?thesis using s k unfolding saved_def kept_def by fastforce
qed

text \<open>
  What a backend owes to its source: it resumes from the file, and from wherever that is it tracks the messages
  it reads; whatever ends it, it leaves a checkpoint or the file it found. \<open>runs\<close> is a running process,
  \<open>ends\<close> one that is gone.
\<close>

locale restartable =
  fixes path :: "'cfg \<Rightarrow> string"
    and runs :: "'cfg \<Rightarrow> core \<Rightarrow> files \<Rightarrow> uint64 \<Rightarrow> source \<Rightarrow> core \<Rightarrow> bool"
    and ends :: "'cfg \<Rightarrow> core \<Rightarrow> files \<Rightarrow> uint64 \<Rightarrow> source \<Rightarrow> files \<Rightarrow> bool"
  assumes running: "unread e \<Longrightarrow> runs cfg e fs start ms c \<Longrightarrow> \<exists>d. resumed (path cfg) e fs start d \<and>
      (\<forall>lo ys. orders_ok lo \<longrightarrow> stands lo e ys d \<longrightarrow>
         agrees c (read_events lo (ys @ log_events ms) e) \<and> c_lastSeq c = c_lastSeq (read_events lo (ys @ log_events ms) e))"
    and ending: "unread e \<Longrightarrow> ends cfg e fs start ms fs' \<Longrightarrow> \<exists>d. resumed (path cfg) e fs start d \<and>
      (\<forall>lo ys. orders_ok lo \<longrightarrow> stands lo e ys d \<longrightarrow> saved lo e (path cfg) fs (ys @ log_events ms) fs')"
begin

lemma lives_kept:
  assumes "unread e" "lives (path cfg) (ends cfg e) src fs" "source_ok src" "orders_ok lo"
  shows "kept lo e (path cfg) src fs"
  using assms(2)
proof (induction rule: lives.induct)
  case (lives_end fs start ms fs')
  obtain d where d: "resumed (path cfg) e fs start d"
      "\<forall>lo ys. orders_ok lo \<longrightarrow> stands lo e ys d \<longrightarrow> saved lo e (path cfg) fs (ys @ log_events ms) fs'"
    using ending [OF assms(1) lives_end.hyps(2)] by blast
  have "stands lo e (log_events (before start src)) d"
    by (rule resumed_stands [OF assms(1,3) lives_end.IH assms(4) d(1)])
  then show ?case using kept_saved [OF assms(3) lives_end.IH lives_end.hyps(3)] d(2) assms(4) by blast
qed (simp add: kept_def)

lemma state_is_the_source:
  assumes "unread e" "lives (path cfg) (ends cfg e) src fs" "source_ok src" "orders_ok lo"
    and "runs cfg e fs start ms c" "prefix ms (from_pos start src)"
  shows "agrees c (read_events lo (log_events (before start src @ ms)) e) \<and>
    c_lastSeq c = c_lastSeq (read_events lo (log_events (before start src @ ms)) e)"
proof -
  obtain d where d: "resumed (path cfg) e fs start d"
      "\<forall>lo ys. orders_ok lo \<longrightarrow> stands lo e ys d \<longrightarrow>
         agrees c (read_events lo (ys @ log_events ms) e) \<and> c_lastSeq c = c_lastSeq (read_events lo (ys @ log_events ms) e)"
    using running [OF assms(1,5)] by blast
  have "stands lo e (log_events (before start src)) d"
    by (rule resumed_stands [OF assms(1,3) lives_kept [OF assms(1-4)] assms(4) d(1)])
  then show ?thesis using d(2) assms(4) by simp
qed

end

text \<open>What a life leaves can always be restored.\<close>

lemma kept_restores:
  assumes e: "unread e" and k: "kept lo e path src fs" and lo: "orders_ok lo" and mo: "map_orders_ok mo"
    and p: "path \<noteq> []" "fs path = Some data"
  shows "\<exists>q d. Restore mo data e = (Inr q, d)"
proof -
  obtain h0 where E: "shard_reach e h0" using e by (auto simp: unread_def)
  obtain mo0 s where S: "data = GobSnapshot s" "gob_encode mo0 s = Inr (GobSnapshot s)" "checkpoint lo e (log_events src) s"
    using k p by (auto simp: kept_def)
  obtain r d where r: "Restore mo data e = (r, d)" by fastforce
  obtain ys where "r = Inr (c_lastSeq (read_events lo ys e))"
    by (rule checkpoint_restores [OF E lo S(3,2) mo r [unfolded S(1)]])
  then show ?thesis using r by blast
qed

end
