(* ===== verification/Process.thy ===== *)
theory Process
  imports Settings Recovery
begin

text \<open>
  The process \<^verbatim>\<open>cmd/rule-engine-core\<close> as a whole: \<^verbatim>\<open>main\<close> from the tables and the environment through
  \<^verbatim>\<open>Run\<close> of the consumer to its exit, and what it leaves for the next one. Both consumers are interpreted as
  restartable, so that over any number of crashes the state of a shard is that of its source.
\<close>

section \<open>main (main.go)\<close>

text \<open>What does not change between two lives: the environment and what the tables answer.\<close>

record deployment =
  dp_env :: environment
  dp_ctx :: db_ctx
  dp_px :: pattern_ctx
  dp_rules :: "rule_row list"
  dp_patterns :: "pattern_record list"

text \<open>What one life meets: the configuration file and what it decodes to, the database, the broker connection, the clock, the decoder's map orders, and the
  broker of either backend with all that happens to its loop. A process whose inputs end is killed there.\<close>

record world =
  w_read :: read_config
  w_config :: "Config option"
  w_dbOpens :: bool
  w_dbUnderlying :: bool
  w_connected :: bool
  w_now :: time
  w_orders :: map_orders
  w_natsBroker :: nats_broker
  w_natsInputs :: "nats_input list"
  w_endOffset :: "consumer_error + int"
  w_kafkaInputs :: "kafka_input list"

datatype fatal = FConfig config_error | FDatabase db_panic | FStart startup_error | FConnect | FRun consumer_error

text \<open>A running consumer with the position it resumed from.\<close>

datatype process = OnNATS uint64 nats | OnKafka int kafka

datatype exit = Fatal fatal | Stopped | Up process

definition openDB :: "world \<Rightarrow> fatal option" where
  "openDB w = (case config_Load (w_read w) (w_config w) of
     Inl e \<Rightarrow> Some (FConfig e)
   | Inr cfg \<Rightarrow> map_option FDatabase (fst (db_Init (w_dbOpens w) (w_dbUnderlying w) (cg_DB cfg)
       \<lparr>dk_once = False, dk_instance = None\<rparr>)))"

definition coreStart :: "deployment \<Rightarrow> world \<Rightarrow> files \<Rightarrow> fatal + process" where
  "coreStart dp w fs = (case openDB w of
     Some f \<Rightarrow> Inl f
   | None \<Rightarrow>
       (case setupBackend (dp_env dp) (dp_ctx dp) (dp_px dp) (NewRuleStrategyUsecaseWith RuleStrategyRepo (dp_rules dp))
           (dp_patterns dp) of
          Inl e \<Rightarrow> Inl (FStart e)
        | Inr (NATS (cfg, engine)) \<Rightarrow>
            if \<not> w_connected w then Inl FConnect
            else (case natsStart (w_orders w) cfg (w_natsBroker w) (w_now w) fs engine of
               Inl e \<Rightarrow> Inl (FRun e)
             | Inr (startSeq, n) \<Rightarrow> Inr (OnNATS startSeq n))
        | Inr (Kafka (cfg, engine)) \<Rightarrow>
            if \<not> w_connected w then Inl FConnect
            else (case kafkaStart (w_orders w) cfg (w_endOffset w) (w_now w) fs engine of
               Inl e \<Rightarrow> Inl (FRun e)
             | Inr (startOffset, k) \<Rightarrow> Inr (OnKafka startOffset k))))"

definition coreMain :: "deployment \<Rightarrow> world \<Rightarrow> files \<Rightarrow> exit \<times> files" where
  "coreMain dp w fs = (case coreStart dp w fs of
     Inl f \<Rightarrow> (Fatal f, fs)
   | Inr (OnNATS startSeq n) \<Rightarrow>
       (case natsRun (w_natsInputs w) n of
          Inl (Some e, n1) \<Rightarrow> (Fatal (FRun e), co_files (na_co n1))
        | Inl (None, n1) \<Rightarrow> (Stopped, co_files (na_co n1))
        | Inr n1 \<Rightarrow> (Up (OnNATS startSeq n1), co_files (na_co n1)))
   | Inr (OnKafka startOffset k) \<Rightarrow>
       (case kafkaRun (w_kafkaInputs w) k of
          Inl k1 \<Rightarrow> (Stopped, co_files (ka_co k1))
        | Inr k1 \<Rightarrow> (Up (OnKafka startOffset k1), co_files (ka_co k1))))"

section \<open>Runs are tracked\<close>

lemma saved_more: "saved lo d path fs0 es fs \<Longrightarrow> saved lo d path fs0 (es @ es') fs"
  unfolding saved_def using checkpoint_more by blast

lemma tracked_mono: "tracked lo fs0 d path n co es \<Longrightarrow> n \<le> m \<Longrightarrow> tracked lo fs0 d path m co es"
  unfolding tracked_def by auto

definition nats_source :: "nats_message list \<Rightarrow> source" where
  "nats_source = map (\<lambda>m. (nm_Data m, stream_seq m))"

definition kafka_source :: "kafka_record list \<Rightarrow> source" where
  "kafka_source = map (\<lambda>r. (kr_Value r, word_of_int (kr_Offset r)))"

text \<open>What is assumed of the inputs: map loops visit every key once, the metadata of a message parses.\<close>

fun nats_fair :: "nats_input \<Rightarrow> bool" where
  "nats_fair (NMessage lo m clk) \<longleftrightarrow> orders_ok lo \<and> nm_Sequence m \<noteq> None"
| "nats_fair _ \<longleftrightarrow> True"

fun kafka_fair :: "kafka_input \<Rightarrow> bool" where
  "kafka_fair (KPoll los rs clk) \<longleftrightarrow> (\<forall>n. orders_ok (los n))"
| "kafka_fair _ \<longleftrightarrow> True"

lemma natsMessage_co:
  assumes "natsMessage lo m n = Inr (t, n1)" "decodeEvent (nm_Data m) = Inr ev" "nm_Sequence m = Some q"
  shows "t \<and> na_co n1 = (na_co n)\<lparr>co_core := (if na_replaying n \<and> na_target n \<le> q then EndReplay else (\<lambda>c. c))
      ((snd (ProcessEvent lo ev (co_core (na_co n))))\<lparr>c_lastSeq := q\<rparr>)\<rparr>"
  using assms by (auto simp: natsMessage_def Let_def set_nats_core_def split: if_splits)

lemma natsStep_tracked:
  assumes e: "shard_reach e h0" and lo: "orders_ok lo" and T: "tracked lo fs0 e path k (na_co n) es" and k: "Suc k < 2 ^ 64"
    and fair: "nats_fair i" and step: "natsStep i n = Inr n1"
  shows "tracked lo fs0 e path (Suc k) (na_co n1) (es @ log_events (nats_source (received i)))"
proof (cases i)
  case (NMessage lo' m clk)
  obtain q where q: "nm_Sequence m = Some q" "orders_ok lo'" using fair by (auto simp: NMessage)
  obtain t n0 where msg: "natsMessage lo' m n = Inr (t, n0)" and n1: "n1 = (if t then n0\<lparr>na_co := tick clk (na_co n0)\<rparr> else n0)"
    using step by (auto simp: natsStep_def NMessage split: sum.splits)
  show ?thesis
  proof (cases "decodeEvent (nm_Data m)")
    case (Inl e1)
    then have "na_co n1 = na_co n" using natsMessage_bad [OF Inl] msg n1 by auto
    then show ?thesis using tracked_mono [OF T] Inl by (simp add: NMessage nats_source_def)
  next
    case (Inr ev)
    note M = natsMessage_co [OF msg Inr q(1)]
    note E = tracked_event [OF T e lo q(2) prod.collapse [symmetric] M [THEN conjunct2]]
    have "es @ log_events (nats_source (received i)) = es @ [(ev, q)]"
      by (simp add: NMessage nats_source_def Inr stream_seq_def q(1))
    then show ?thesis using tracked_tick [OF E k, of clk] M by (simp add: n1)
  qed
next
  case (NBackground mo w)
  then show ?thesis using step tracked_mono [OF tracked_background [OF T]]
    by (auto simp: natsStep_def nats_source_def)
qed (use step in \<open>auto simp: natsStep_def\<close>)

lemma natsStep_saved:
  assumes T: "tracked lo fs0 e path k (na_co n) es" and k: "Suc k < 2 ^ 64" and step: "natsStep i n = Inl (x, n1)"
  shows "saved lo e path fs0 es (co_files (na_co n1))"
proof (cases i)
  case (NMessage lo' m clk)
  then have "co_files (na_co n1) = co_files (na_co n)"
    using step by (auto simp: natsStep_def natsMessage_def Let_def split: sum.splits option.splits if_splits)
  then show ?thesis using tracked_saved [OF T] by simp
next
  case (NClosed t mo w w')
  obtain err co' where d: "drain t mo w w' (na_co n) = (err, co')" by fastforce
  show ?thesis using step drain_saved [OF T k d] by (auto simp: natsStep_def NClosed d)
qed (use step tracked_saved [OF T] in \<open>auto simp: natsStep_def\<close>)

lemma natsRun_tracked:
  assumes e: "shard_reach e h0" and lo: "orders_ok lo" and T: "tracked lo fs0 e path k (na_co n) es"
    and k: "k + length ins + 1 < 2 ^ 64" and fair: "\<forall>i\<in>set ins. nats_fair i"
  shows "case natsRun ins n of
      Inl (x, n1) \<Rightarrow> saved lo e path fs0 (es @ log_events (nats_source (concat (map received ins)))) (co_files (na_co n1))
    | Inr n1 \<Rightarrow> \<exists>k'. tracked lo fs0 e path k' (na_co n1) (es @ log_events (nats_source (concat (map received ins))))"
  using T k fair
proof (induction ins arbitrary: n k es)
  case Nil
  then show ?case by (auto simp: nats_source_def)
next
  case (Cons i ins)
  let ?es = "es @ log_events (nats_source (received i))"
  have s: "es @ log_events (nats_source (concat (map received (i # ins)))) =
      ?es @ log_events (nats_source (concat (map received ins)))" by (simp add: nats_source_def)
  have k1: "Suc k < 2 ^ 64" using Cons.prems(2) by simp
  show ?case
  proof (cases "natsStep i n")
    case (Inl r)
    obtain x n1 where r: "r = (x, n1)" by fastforce
    have "saved lo e path fs0 es (co_files (na_co n1))" by (rule natsStep_saved [OF Cons.prems(1) k1 Inl [unfolded r]])
    then show ?thesis unfolding s using saved_more by (simp add: Inl r)
  next
    case (Inr n1)
    have "tracked lo fs0 e path (Suc k) (na_co n1) ?es"
      using natsStep_tracked [OF e lo Cons.prems(1) k1 _ Inr] Cons.prems(3) by simp
    from Cons.IH [OF this] Cons.prems(2,3) show ?thesis unfolding s by (simp add: Inr)
  qed
qed

lemma kafkaRecord_co:
  assumes "decodeEvent (kr_Value r) = Inr ev"
  shows "ka_co (kafkaRecord lo r k) = (ka_co k)\<lparr>co_core := (if ka_replaying k \<and> ka_target k \<le> kr_Offset r then EndReplay else (\<lambda>c. c))
      ((snd (ProcessEvent lo ev (co_core (ka_co k))))\<lparr>c_lastSeq := word_of_int (kr_Offset r)\<rparr>)\<rparr>"
  using assms by (simp add: kafkaRecord_def Let_def set_core_def)

lemma kafkaRecords_tracked:
  assumes e: "shard_reach e h0" and lo: "orders_ok lo" and T: "tracked lo fs0 e path n (ka_co k) es" and los: "\<forall>i. orders_ok (los i)"
  shows "tracked lo fs0 e path n (ka_co (kafkaRecords los rs k)) (es @ log_events (kafka_source rs))"
  using T los
proof (induction rs arbitrary: los k es)
  case Nil
  then show ?case by (simp add: kafka_source_def)
next
  case (Cons r rs)
  let ?es = "es @ log_events (kafka_source [r])"
  have "tracked lo fs0 e path n (ka_co (kafkaRecord (los 0) r k)) ?es"
  proof (cases "decodeEvent (kr_Value r)")
    case (Inl e1)
    then show ?thesis using Cons.prems(1) by (simp add: kafkaRecord_bad kafka_source_def)
  next
    case (Inr ev)
    then show ?thesis
      using tracked_event [OF Cons.prems(1) e lo _ prod.collapse [symmetric] kafkaRecord_co [OF Inr]] Cons.prems(2)
      by (simp add: kafka_source_def)
  qed
  from Cons.IH [OF this, of "\<lambda>i. los (Suc i)"] Cons.prems(2) show ?case by (simp add: kafka_source_def)
qed

lemma kafkaRun_tracked:
  assumes e: "shard_reach e h0" and lo: "orders_ok lo" and T: "tracked lo fs0 e path n (ka_co k) es"
    and n: "n + length ins + 1 < 2 ^ 64" and fair: "\<forall>i\<in>set ins. kafka_fair i"
  shows "case kafkaRun ins k of
      Inl k1 \<Rightarrow> saved lo e path fs0 (es @ log_events (kafka_source (concat (map polled ins)))) (co_files (ka_co k1))
    | Inr k1 \<Rightarrow> \<exists>n'. tracked lo fs0 e path n' (ka_co k1) (es @ log_events (kafka_source (concat (map polled ins))))"
  using T n fair
proof (induction ins arbitrary: n k es)
  case Nil
  then show ?case by (auto simp: kafka_source_def)
next
  case (Cons i ins)
  let ?es = "es @ log_events (kafka_source (polled i))"
  have s: "es @ log_events (kafka_source (concat (map polled (i # ins)))) =
      ?es @ log_events (kafka_source (concat (map polled ins)))" by (simp add: kafka_source_def)
  have n1: "Suc n < 2 ^ 64" using Cons.prems(2) by simp
  show ?case
  proof (cases "kafkaStep i k")
    case (Inl k1)
    obtain t mo w w' where i: "i = KCancel t mo w w'" using Inl by (cases i) (auto simp: kafkaStep_def Let_def)
    obtain err co' where d: "drain t mo w w' (ka_co k) = (err, co')" by fastforce
    have "saved lo e path fs0 es (co_files (ka_co k1))"
      using drain_saved [OF Cons.prems(1) n1 d] Inl by (auto simp: kafkaStep_def i d)
    then show ?thesis unfolding s using saved_more by (simp add: Inl)
  next
    case (Inr k1)
    have "tracked lo fs0 e path (Suc n) (ka_co k1) ?es"
    proof (cases i)
      case (KPoll los rs clk)
      then show ?thesis
        using tracked_tick [OF kafkaRecords_tracked [OF e lo Cons.prems(1), of los rs] n1, of clk] Cons.prems(3) Inr
        by (auto simp: kafkaStep_def Let_def)
    next
      case (KBackground mo w)
      then show ?thesis using tracked_mono [OF tracked_background [OF Cons.prems(1)]] Inr
        by (auto simp: kafkaStep_def kafka_source_def)
    qed (use Inr in \<open>simp add: kafkaStep_def\<close>)
    from Cons.IH [OF this] Cons.prems(2,3) show ?thesis unfolding s by (simp add: Inr)
  qed
qed


section \<open>Both consumers are restartable\<close>

definition nats_life :: "nats_config \<Rightarrow> core \<Rightarrow> files \<Rightarrow> uint64 \<Rightarrow> source \<Rightarrow>
    (consumer_error option \<times> nats) + nats \<Rightarrow> bool" where
  "nats_life cfg e fs start ms r \<longleftrightarrow> (\<exists>mo b now n ins. map_orders_ok mo \<and> natsStart mo cfg b now fs e = Inr (start, n) \<and>
     natsRun ins n = r \<and> (\<forall>i\<in>set ins. nats_fair i) \<and> length ins + 2 < 2 ^ 64 \<and>
     ms = nats_source (concat (map received ins)))"

definition kafka_life :: "kafka_config \<Rightarrow> core \<Rightarrow> files \<Rightarrow> uint64 \<Rightarrow> source \<Rightarrow> kafka + kafka \<Rightarrow> bool" where
  "kafka_life cfg e fs start ms r \<longleftrightarrow> (\<exists>mo endOff now startOffset k ins. map_orders_ok mo \<and>
     kafkaStart mo cfg endOff now fs e = Inr (startOffset, k) \<and> start = word_of_int startOffset \<and>
     kafkaRun ins k = r \<and> (\<forall>i\<in>set ins. kafka_fair i) \<and> length ins + 2 < 2 ^ 64 \<and>
     ms = kafka_source (concat (map polled ins)))"

lemma nats_lifeI:
  "map_orders_ok mo \<Longrightarrow> natsStart mo cfg b now fs e = Inr (start, n) \<Longrightarrow> \<forall>i\<in>set ins. nats_fair i \<Longrightarrow>
    length ins + 2 < 2 ^ 64 \<Longrightarrow> nats_life cfg e fs start (nats_source (concat (map received ins))) (natsRun ins n)"
  unfolding nats_life_def by blast

lemma kafka_lifeI:
  "map_orders_ok mo \<Longrightarrow> kafkaStart mo cfg endOff now fs e = Inr (off, k) \<Longrightarrow> \<forall>i\<in>set ins. kafka_fair i \<Longrightarrow>
    length ins + 2 < 2 ^ 64 \<Longrightarrow>
    kafka_life cfg e fs (word_of_int off) (kafka_source (concat (map polled ins))) (kafkaRun ins k)"
  unfolding kafka_life_def by blast

lemma stands_BeginReplay: "stands lo e ys d \<Longrightarrow> stands lo e ys (if b then BeginReplay d else d)"
  using reach_BeginReplay by (auto simp: stands_def) (auto simp: BeginReplay_def)

lemma stands_tracked:
  assumes "stands lo e ys d"
  shows "tracked lo fs e path 1 \<lparr>co_core = d, co_snap = newAsyncSnapshotter path iv now, co_files = fs, co_log = []\<rparr> ys"
  using assms tracked_start by (auto simp: stands_def)

lemma word_of_i64: "(word_of_int (i64 x) :: uint64) = word_of_int x"
  unfolding i64_def by transfer (simp add: take_bit_signed_take_bit)

lemma nats_life_tracked:
  assumes e: "unread e" and life: "nats_life cfg e fs start ms r"
  shows "\<exists>d. resumed (nc_SnapshotPath cfg) e fs start d \<and> (\<forall>lo ys. orders_ok lo \<longrightarrow> stands lo e ys d \<longrightarrow>
    (case r of
       Inl (x, n1) \<Rightarrow> saved lo e (nc_SnapshotPath cfg) fs (ys @ log_events ms) (co_files (na_co n1))
     | Inr n1 \<Rightarrow> \<exists>k. tracked lo fs e (nc_SnapshotPath cfg) k (na_co n1) (ys @ log_events ms)))"
proof -
  obtain mo b now n ins where L: "map_orders_ok mo" "natsStart mo cfg b now fs e = Inr (start, n)" "natsRun ins n = r"
      "\<forall>i\<in>set ins. nats_fair i" "length ins + 2 < 2 ^ 64" "ms = nats_source (concat (map received ins))"
    using life by (auto simp: nats_life_def)
  obtain d where d: "natsRestore mo cfg fs e = Inr (start, d)" "co_core (na_co n) = (if na_replaying n then BeginReplay d else d)"
    using natsStart_Inr [OF L(2)] by metis
  have n: "na_co n = \<lparr>co_core = co_core (na_co n),
      co_snap = newAsyncSnapshotter (nc_SnapshotPath cfg) (nc_SnapshotInterval cfg) now, co_files = fs, co_log = []\<rparr>"
    using L(2) d(1) by (auto simp: natsStart_def Let_def split: if_splits option.splits)
  have "resumed (nc_SnapshotPath cfg) e fs start d"
    using d(1) L(1) by (auto simp: natsRestore_def resumed_def split: if_splits option.splits prod.splits sum.splits)
  moreover have "case r of
       Inl (x, n1) \<Rightarrow> saved lo e (nc_SnapshotPath cfg) fs (ys @ log_events ms) (co_files (na_co n1))
     | Inr n1 \<Rightarrow> \<exists>k. tracked lo fs e (nc_SnapshotPath cfg) k (na_co n1) (ys @ log_events ms)"
    if lo: "orders_ok lo" and st: "stands lo e ys d" for lo ys
  proof -
    obtain h0 where h0: "shard_reach e h0" using e by (auto simp: unread_def)
    have T: "tracked lo fs e (nc_SnapshotPath cfg) 1 (na_co n) ys"
      by (subst n, unfold d(2)) (rule stands_tracked [OF stands_BeginReplay [OF st]])
    have k: "1 + length ins + 1 < 2 ^ 64" using L(5) by simp
    show ?thesis using natsRun_tracked [OF h0 lo T k L(4)] unfolding L(3) L(6) .
  qed
  ultimately show ?thesis by blast
qed

lemma kafka_life_tracked:
  assumes e: "unread e" and life: "kafka_life cfg e fs start ms r"
  shows "\<exists>d. resumed (kc_SnapshotPath cfg) e fs start d \<and> (\<forall>lo ys. orders_ok lo \<longrightarrow> stands lo e ys d \<longrightarrow>
    (case r of
       Inl k1 \<Rightarrow> saved lo e (kc_SnapshotPath cfg) fs (ys @ log_events ms) (co_files (ka_co k1))
     | Inr k1 \<Rightarrow> \<exists>n. tracked lo fs e (kc_SnapshotPath cfg) n (ka_co k1) (ys @ log_events ms)))"
proof -
  obtain mo endOff now startOffset k ins where L: "map_orders_ok mo" "kafkaStart mo cfg endOff now fs e = Inr (startOffset, k)"
      "kafkaRun ins k = r" "\<forall>i\<in>set ins. kafka_fair i" "length ins + 2 < 2 ^ 64"
      "ms = kafka_source (concat (map polled ins))" "start = word_of_int startOffset"
    using life by (auto simp: kafka_life_def)
  obtain d where d: "kafkaRestore mo cfg fs e = Inr (startOffset, d)"
    "co_core (ka_co k) = (if ka_replaying k then BeginReplay d else d)"
    using kafkaStart_Inr [OF L(2)] by metis
  have k: "ka_co k = \<lparr>co_core = co_core (ka_co k),
      co_snap = newAsyncSnapshotter (kc_SnapshotPath cfg) (kc_SnapshotInterval cfg) now, co_files = fs, co_log = []\<rparr>"
    using L(2) d(1) by (auto simp: kafkaStart_def Let_def split: sum.splits)
  have "resumed (kc_SnapshotPath cfg) e fs start d"
    using d(1) L(1,7) by (auto simp: kafkaRestore_def resumed_def word_of_i64 split: if_splits option.splits prod.splits sum.splits)
  moreover have "case r of
       Inl k1 \<Rightarrow> saved lo e (kc_SnapshotPath cfg) fs (ys @ log_events ms) (co_files (ka_co k1))
     | Inr k1 \<Rightarrow> \<exists>n. tracked lo fs e (kc_SnapshotPath cfg) n (ka_co k1) (ys @ log_events ms)"
    if lo: "orders_ok lo" and st: "stands lo e ys d" for lo ys
  proof -
    obtain h0 where h0: "shard_reach e h0" using e by (auto simp: unread_def)
    have T: "tracked lo fs e (kc_SnapshotPath cfg) 1 (ka_co k) ys"
      by (subst k, unfold d(2)) (rule stands_tracked [OF stands_BeginReplay [OF st]])
    have k: "1 + length ins + 1 < 2 ^ 64" using L(5) by simp
    show ?thesis using kafkaRun_tracked [OF h0 lo T k L(4)] unfolding L(3) L(6) .
  qed
  ultimately show ?thesis by blast
qed

lemma law_running:
  assumes "\<forall>lo ys. orders_ok lo \<longrightarrow> stands lo e ys d \<longrightarrow> (\<exists>k. tracked lo fs e path k co (ys @ log_events ms))"
  shows "\<forall>lo ys. orders_ok lo \<longrightarrow> stands lo e ys d \<longrightarrow>
      agrees (co_core co) (read_events lo (ys @ log_events ms) e) \<and>
      c_lastSeq (co_core co) = c_lastSeq (read_events lo (ys @ log_events ms) e)"
proof (intro allI impI)
  fix lo ys assume "orders_ok lo" "stands lo e ys d"
  then obtain k where "tracked lo fs e path k co (ys @ log_events ms)" using assms by blast
  from trackedD(4,5) [OF this] show "agrees (co_core co) (read_events lo (ys @ log_events ms) e) \<and>
      c_lastSeq (co_core co) = c_lastSeq (read_events lo (ys @ log_events ms) e)" by (rule conjI)
qed

lemma law_ending:
  assumes "\<forall>lo ys. orders_ok lo \<longrightarrow> stands lo e ys d \<longrightarrow> (\<exists>k. tracked lo fs e path k co (ys @ log_events ms))"
  shows "\<forall>lo ys. orders_ok lo \<longrightarrow> stands lo e ys d \<longrightarrow> saved lo e path fs (ys @ log_events ms) (co_files co)"
proof (intro allI impI)
  fix lo ys assume "orders_ok lo" "stands lo e ys d"
  then obtain k where "tracked lo fs e path k co (ys @ log_events ms)" using assms by blast
  then show "saved lo e path fs (ys @ log_events ms) (co_files co)" by (rule tracked_saved)
qed

text \<open>The two interpretations. A life that is over has been killed or has returned.\<close>

interpretation nats_process: restartable nc_SnapshotPath
  "\<lambda>cfg e fs start ms c. \<exists>n. nats_life cfg e fs start ms (Inr n) \<and> c = co_core (na_co n)"
  "\<lambda>cfg e fs start ms fs'. \<exists>r. nats_life cfg e fs start ms r \<and>
     fs' = co_files (na_co (case r of Inl (x, n) \<Rightarrow> n | Inr n \<Rightarrow> n))"
proof unfold_locales
  fix e cfg fs start ms c
  assume e: "unread e" and "\<exists>n. nats_life cfg e fs start ms (Inr n) \<and> c = co_core (na_co n)"
  then obtain n where n: "nats_life cfg e fs start ms (Inr n)" "c = co_core (na_co n)" by blast
  from nats_life_tracked [OF e n(1)] show "\<exists>d. resumed (nc_SnapshotPath cfg) e fs start d \<and>
      (\<forall>lo ys. orders_ok lo \<longrightarrow> stands lo e ys d \<longrightarrow>
      agrees c (read_events lo (ys @ log_events ms) e) \<and> c_lastSeq c = c_lastSeq (read_events lo (ys @ log_events ms) e))"
    unfolding n(2) sum.case using law_running by blast
next
  fix e cfg fs start ms fs'
  assume e: "unread e" and "\<exists>r. nats_life cfg e fs start ms r \<and> fs' = co_files (na_co (case r of Inl (x, n) \<Rightarrow> n | Inr n \<Rightarrow> n))"
  then obtain r where r: "nats_life cfg e fs start ms r" "fs' = co_files (na_co (case r of Inl (x, n) \<Rightarrow> n | Inr n \<Rightarrow> n))" by blast
  from nats_life_tracked [OF e r(1)] show "\<exists>d. resumed (nc_SnapshotPath cfg) e fs start d \<and>
      (\<forall>lo ys. orders_ok lo \<longrightarrow> stands lo e ys d \<longrightarrow> saved lo e (nc_SnapshotPath cfg) fs (ys @ log_events ms) fs')"
    unfolding r(2) using law_ending by (cases r) (simp_all only: sum.case case_prod_beta, blast+)
qed

interpretation kafka_process: restartable kc_SnapshotPath
  "\<lambda>cfg e fs start ms c. \<exists>k. kafka_life cfg e fs start ms (Inr k) \<and> c = co_core (ka_co k)"
  "\<lambda>cfg e fs start ms fs'. \<exists>r. kafka_life cfg e fs start ms r \<and> fs' = co_files (ka_co (case r of Inl k \<Rightarrow> k | Inr k \<Rightarrow> k))"
proof unfold_locales
  fix e cfg fs start ms c
  assume e: "unread e" and "\<exists>k. kafka_life cfg e fs start ms (Inr k) \<and> c = co_core (ka_co k)"
  then obtain k where k: "kafka_life cfg e fs start ms (Inr k)" "c = co_core (ka_co k)" by blast
  from kafka_life_tracked [OF e k(1)] show "\<exists>d. resumed (kc_SnapshotPath cfg) e fs start d \<and>
      (\<forall>lo ys. orders_ok lo \<longrightarrow> stands lo e ys d \<longrightarrow>
      agrees c (read_events lo (ys @ log_events ms) e) \<and> c_lastSeq c = c_lastSeq (read_events lo (ys @ log_events ms) e))"
    unfolding k(2) sum.case using law_running by blast
next
  fix e cfg fs start ms fs'
  assume e: "unread e" and "\<exists>r. kafka_life cfg e fs start ms r \<and> fs' = co_files (ka_co (case r of Inl k \<Rightarrow> k | Inr k \<Rightarrow> k))"
  then obtain r where r: "kafka_life cfg e fs start ms r" "fs' = co_files (ka_co (case r of Inl k \<Rightarrow> k | Inr k \<Rightarrow> k))" by blast
  from kafka_life_tracked [OF e r(1)] show "\<exists>d. resumed (kc_SnapshotPath cfg) e fs start d \<and>
      (\<forall>lo ys. orders_ok lo \<longrightarrow> stands lo e ys d \<longrightarrow> saved lo e (kc_SnapshotPath cfg) fs (ys @ log_events ms) fs')"
    unfolding r(2) using law_ending by (cases r) (simp_all only: sum.case, blast+)
qed


section \<open>The process is restartable\<close>

definition shard_of_env :: "deployment \<Rightarrow> int" where
  "shard_of_env dp = env_Int (dp_env dp) ''SHARD_ID'' 0"

definition snapshot_file :: "deployment \<Rightarrow> string" where
  "snapshot_file dp = snapshotPathOf (env_Str (dp_env dp) ''SNAPSHOT_DIR'' []) (shard_of_env dp)"

definition engine_of :: "deployment \<Rightarrow> startup_error + core" where
  "engine_of dp = startEngine (dp_ctx dp) (dp_px dp) (shard_of_env dp)
     (NewRuleStrategyUsecaseWith RuleStrategyRepo (dp_rules dp)) (dp_patterns dp)"

definition deployment_ok :: "deployment \<Rightarrow> bool" where
  "deployment_ok dp \<longleftrightarrow> (\<forall>xs. mset (px_order (dp_px dp) xs) = mset xs) \<and> distinct (map pw_ID (dp_patterns dp))"

definition world_ok :: "world \<Rightarrow> bool" where
  "world_ok w \<longleftrightarrow> map_orders_ok (w_orders w) \<and>
     (\<forall>i\<in>set (w_natsInputs w). nats_fair i) \<and> length (w_natsInputs w) + 2 < 2 ^ 64 \<and>
     (\<forall>i\<in>set (w_kafkaInputs w). kafka_fair i) \<and> length (w_kafkaInputs w) + 2 < 2 ^ 64"

fun start_of :: "process \<Rightarrow> uint64" where
  "start_of (OnNATS startSeq n) = startSeq"
| "start_of (OnKafka startOffset k) = word_of_int startOffset"

fun core_of :: "process \<Rightarrow> core" where
  "core_of (OnNATS startSeq n) = co_core (na_co n)"
| "core_of (OnKafka startOffset k) = co_core (ka_co k)"

text \<open>The messages a life reads.\<close>

fun read_by :: "process \<Rightarrow> world \<Rightarrow> source" where
  "read_by (OnNATS startSeq n) w = nats_source (concat (map received (w_natsInputs w)))"
| "read_by (OnKafka startOffset k) w = kafka_source (concat (map polled (w_kafkaInputs w)))"

lemma engine_unread: "engine_of dp = Inr e \<Longrightarrow> deployment_ok dp \<Longrightarrow> unread e"
proof -
  assume E: "engine_of dp = Inr e" and ok: "deployment_ok dp"
  obtain ruleSet patterns where S: "addPatterns patterns (NewCore (shard_of_env dp) ruleSet []) = Inr e"
    using E by (auto simp: engine_of_def startEngine_def split: sum.splits)
  have frame: "c_lastSeq c' = c_lastSeq c \<and> c_store c' = c_store c" if "addPatterns ps c = Inr c'" for ps c c'
    using that by (induction ps arbitrary: c) (auto split: sum.splits)
  have "c_lastSeq e = 0 \<and> c_store e = empty_store" using frame [OF S] by (simp add: NewCore_def Let_def)
  moreover have "\<forall>xs. mset (px_order (dp_px dp) xs) = mset xs" "distinct (map pw_ID (dp_patterns dp))"
    using ok by (simp_all add: deployment_ok_def)
  then have "shard_reach e (\<lambda>_. [])" using startEngine_Inr [OF E [unfolded engine_of_def]] by metis
  ultimately show "unread e" by (auto simp: unread_def empty_store_def)
qed

lemma coreStart_Inr:
  assumes "coreStart dp w fs = Inr p"
  obtains e where "engine_of dp = Inr e"
    "(\<exists>n startSeq cfg. p = OnNATS startSeq n \<and> nc_SnapshotPath cfg = snapshot_file dp \<and>
       natsStart (w_orders w) cfg (w_natsBroker w) (w_now w) fs e = Inr (startSeq, n)) \<or>
     (\<exists>k startOffset cfg. p = OnKafka startOffset k \<and> kc_SnapshotPath cfg = snapshot_file dp \<and>
       kafkaStart (w_orders w) cfg (w_endOffset w) (w_now w) fs e = Inr (startOffset, k))"
proof -
  obtain b where b: "setupBackend (dp_env dp) (dp_ctx dp) (dp_px dp)
      (NewRuleStrategyUsecaseWith RuleStrategyRepo (dp_rules dp)) (dp_patterns dp) = Inr b"
    using assms by (auto simp: coreStart_def split: option.splits if_splits sum.splits)
  obtain e where e: "engine_of dp = Inr e"
    using b by (auto simp: setupBackend_def engine_of_def shard_of_env_def Let_def split: sum.splits)
  let ?nc = "setupNATSConsumer (shard_of_env dp) (snapshot_file dp)"
    and ?kc = "setupKafkaConsumer (dp_env dp) (shard_of_env dp) (snapshot_file dp)"
  have path: "nc_SnapshotPath ?nc = snapshot_file dp" "kc_SnapshotPath ?kc = snapshot_file dp"
    by (simp_all add: setupNATSConsumer_def setupKafkaConsumer_def)
  have "b = NATS (?nc, e) \<or> b = Kafka (?kc, e)"
    using b e by (auto simp: setupBackend_def engine_of_def shard_of_env_def snapshot_file_def Let_def split: if_splits)
  then show thesis
  proof
    assume "b = NATS (?nc, e)"
    then obtain startSeq n where "p = OnNATS startSeq n"
        "natsStart (w_orders w) ?nc (w_natsBroker w) (w_now w) fs e = Inr (startSeq, n)"
      using assms b by (auto simp: coreStart_def split: option.splits if_splits sum.splits)
    then show thesis using path(1) by (intro that [OF e]) blast
  next
    assume "b = Kafka (?kc, e)"
    then obtain startOffset k where "p = OnKafka startOffset k"
        "kafkaStart (w_orders w) ?kc (w_endOffset w) (w_now w) fs e = Inr (startOffset, k)"
      using assms b by (auto simp: coreStart_def split: option.splits if_splits sum.splits)
    then show thesis using path(2) by (intro that [OF e]) blast
  qed
qed

lemma coreMain_life:
  assumes st: "coreStart dp w fs = Inr p" and mn: "coreMain dp w fs = (x, fs')" and w: "world_ok w" and en: "engine_of dp = Inr e"
  shows "(\<exists>cfg r. nc_SnapshotPath cfg = snapshot_file dp \<and> nats_life cfg e fs (start_of p) (read_by p w) r \<and>
      fs' = co_files (na_co (case r of Inl (y, n) \<Rightarrow> n | Inr n \<Rightarrow> n)) \<and>
      (\<forall>p'. x = Up p' \<longrightarrow> (\<exists>n. r = Inr n \<and> core_of p' = co_core (na_co n)))) \<or>
    (\<exists>cfg r. kc_SnapshotPath cfg = snapshot_file dp \<and> kafka_life cfg e fs (start_of p) (read_by p w) r \<and>
      fs' = co_files (ka_co (case r of Inl k \<Rightarrow> k | Inr k \<Rightarrow> k)) \<and>
      (\<forall>p'. x = Up p' \<longrightarrow> (\<exists>k. r = Inr k \<and> core_of p' = co_core (ka_co k))))"
proof -
  have W: "map_orders_ok (w_orders w)" "\<forall>i\<in>set (w_natsInputs w). nats_fair i" "length (w_natsInputs w) + 2 < 2 ^ 64"
    "\<forall>i\<in>set (w_kafkaInputs w). kafka_fair i" "length (w_kafkaInputs w) + 2 < 2 ^ 64"
    using w by (simp_all add: world_ok_def)
  obtain e' where "engine_of dp = Inr e'"
    and C: "(\<exists>n startSeq cfg. p = OnNATS startSeq n \<and> nc_SnapshotPath cfg = snapshot_file dp \<and>
       natsStart (w_orders w) cfg (w_natsBroker w) (w_now w) fs e' = Inr (startSeq, n)) \<or>
     (\<exists>k startOffset cfg. p = OnKafka startOffset k \<and> kc_SnapshotPath cfg = snapshot_file dp \<and>
       kafkaStart (w_orders w) cfg (w_endOffset w) (w_now w) fs e' = Inr (startOffset, k))"
    by (rule coreStart_Inr [OF st])
  then have [simp]: "e' = e" using en by simp
  from C show ?thesis
  proof (elim disjE exE conjE)
    fix n startSeq cfg
    assume p: "p = OnNATS startSeq n" and cfg: "nc_SnapshotPath cfg = snapshot_file dp"
      and s: "natsStart (w_orders w) cfg (w_natsBroker w) (w_now w) fs e' = Inr (startSeq, n)"
    have "nats_life cfg e fs (start_of p) (read_by p w) (natsRun (w_natsInputs w) n)"
      using nats_lifeI [OF W(1) s W(2,3)] by (simp add: p)
    moreover have "fs' = co_files (na_co (case natsRun (w_natsInputs w) n of Inl (y, n) \<Rightarrow> n | Inr n \<Rightarrow> n)) \<and>
        (\<forall>p'. x = Up p' \<longrightarrow> (\<exists>n1. natsRun (w_natsInputs w) n = Inr n1 \<and> core_of p' = co_core (na_co n1)))"
      using mn by (cases "natsRun (w_natsInputs w) n") (auto simp: coreMain_def st p split: option.splits)
    ultimately show ?thesis using cfg by blast
  next
    fix k startOffset cfg
    assume p: "p = OnKafka startOffset k" and cfg: "kc_SnapshotPath cfg = snapshot_file dp"
      and s: "kafkaStart (w_orders w) cfg (w_endOffset w) (w_now w) fs e' = Inr (startOffset, k)"
    have "kafka_life cfg e fs (start_of p) (read_by p w) (kafkaRun (w_kafkaInputs w) k)"
      using kafka_lifeI [OF W(1) s W(4,5)] by (simp add: p)
    moreover have "fs' = co_files (ka_co (case kafkaRun (w_kafkaInputs w) k of Inl k \<Rightarrow> k | Inr k \<Rightarrow> k)) \<and>
        (\<forall>p'. x = Up p' \<longrightarrow> (\<exists>k1. kafkaRun (w_kafkaInputs w) k = Inr k1 \<and> core_of p' = co_core (ka_co k1)))"
      using mn by (cases "kafkaRun (w_kafkaInputs w) k") (auto simp: coreMain_def st p)
    ultimately show ?thesis using cfg by blast
  qed
qed

definition process_runs :: "deployment \<Rightarrow> core \<Rightarrow> files \<Rightarrow> uint64 \<Rightarrow> source \<Rightarrow> core \<Rightarrow> bool" where
  "process_runs dp e fs start ms c \<longleftrightarrow> engine_of dp = Inr e \<and> (\<exists>w p p' fs'. world_ok w \<and> coreStart dp w fs = Inr p \<and>
     coreMain dp w fs = (Up p', fs') \<and> start = start_of p \<and> ms = read_by p w \<and> c = core_of p')"

definition process_ends :: "deployment \<Rightarrow> core \<Rightarrow> files \<Rightarrow> uint64 \<Rightarrow> source \<Rightarrow> files \<Rightarrow> bool" where
  "process_ends dp e fs start ms fs' \<longleftrightarrow> engine_of dp = Inr e \<and> (\<exists>w p x. world_ok w \<and> coreStart dp w fs = Inr p \<and>
     coreMain dp w fs = (x, fs') \<and> start = start_of p \<and> ms = read_by p w)"

interpretation core_process: restartable snapshot_file process_runs process_ends
proof unfold_locales
  fix e dp fs start ms c
  assume e: "unread e" and r: "process_runs dp e fs start ms c"
  obtain w p p' fs' where R: "engine_of dp = Inr e" "world_ok w" "coreStart dp w fs = Inr p"
      "coreMain dp w fs = (Up p', fs')" "start = start_of p" "ms = read_by p w" "c = core_of p'"
    using r by (auto simp: process_runs_def)
  show "\<exists>d. resumed (snapshot_file dp) e fs start d \<and> (\<forall>lo ys. orders_ok lo \<longrightarrow> stands lo e ys d \<longrightarrow>
      agrees c (read_events lo (ys @ log_events ms) e) \<and> c_lastSeq c = c_lastSeq (read_events lo (ys @ log_events ms) e))"
    using coreMain_life [OF R(3,4,2,1)]
  proof (elim disjE exE conjE)
    fix cfg r assume L: "nc_SnapshotPath cfg = snapshot_file dp" "nats_life cfg e fs (start_of p) (read_by p w) r"
      and "\<forall>p''. Up p' = Up p'' \<longrightarrow> (\<exists>n. r = Inr n \<and> core_of p'' = co_core (na_co n))"
    then have "\<exists>n. nats_life cfg e fs start ms (Inr n) \<and> c = co_core (na_co n)" using R(5-7) by auto
    from nats_process.running [OF e this] show ?thesis unfolding L(1) .
  next
    fix cfg r assume L: "kc_SnapshotPath cfg = snapshot_file dp" "kafka_life cfg e fs (start_of p) (read_by p w) r"
      and "\<forall>p''. Up p' = Up p'' \<longrightarrow> (\<exists>n. r = Inr n \<and> core_of p'' = co_core (ka_co n))"
    then have "\<exists>k. kafka_life cfg e fs start ms (Inr k) \<and> c = co_core (ka_co k)" using R(5-7) by auto
    from kafka_process.running [OF e this] show ?thesis unfolding L(1) .
  qed
next
  fix e dp fs start ms fs'
  assume e: "unread e" and r: "process_ends dp e fs start ms fs'"
  obtain w p x where R: "engine_of dp = Inr e" "world_ok w" "coreStart dp w fs = Inr p"
      "coreMain dp w fs = (x, fs')" "start = start_of p" "ms = read_by p w"
    using r by (auto simp: process_ends_def)
  show "\<exists>d. resumed (snapshot_file dp) e fs start d \<and> (\<forall>lo ys. orders_ok lo \<longrightarrow> stands lo e ys d \<longrightarrow>
      saved lo e (snapshot_file dp) fs (ys @ log_events ms) fs')"
    using coreMain_life [OF R(3,4,2,1)]
  proof (elim disjE exE conjE)
    fix cfg r assume L: "nc_SnapshotPath cfg = snapshot_file dp" "nats_life cfg e fs (start_of p) (read_by p w) r"
      and "fs' = co_files (na_co (case r of Inl (y, n) \<Rightarrow> n | Inr n \<Rightarrow> n))"
    then have "\<exists>r. nats_life cfg e fs start ms r \<and> fs' = co_files (na_co (case r of Inl (y, n) \<Rightarrow> n | Inr n \<Rightarrow> n))"
      using R(5,6) by auto
    from nats_process.ending [OF e this] show ?thesis unfolding L(1) .
  next
    fix cfg r assume L: "kc_SnapshotPath cfg = snapshot_file dp" "kafka_life cfg e fs (start_of p) (read_by p w) r"
      and "fs' = co_files (ka_co (case r of Inl k \<Rightarrow> k | Inr k \<Rightarrow> k))"
    then have "\<exists>r. kafka_life cfg e fs start ms r \<and> fs' = co_files (ka_co (case r of Inl k \<Rightarrow> k | Inr k \<Rightarrow> k))"
      using R(5,6) by auto
    from kafka_process.ending [OF e this] show ?thesis unfolding L(1) .
  qed
qed

section \<open>Any number of crashes\<close>

text \<open>The files that lives of one deployment on one source may leave: killed at any point, stopped, returned with an
  error, or never up. Each life is sent, from the position it asks for, messages of the source in order.\<close>

inductive core_lives :: "deployment \<Rightarrow> source \<Rightarrow> files \<Rightarrow> bool" for dp src where
  lives_first: "fs (snapshot_file dp) = None \<Longrightarrow> core_lives dp src fs"
| lives_next: "core_lives dp src fs \<Longrightarrow> world_ok w \<Longrightarrow> coreMain dp w fs = (x, fs') \<Longrightarrow>
    (\<And>p. coreStart dp w fs = Inr p \<Longrightarrow> prefix (read_by p w) (from_pos (start_of p) src)) \<Longrightarrow> core_lives dp src fs'"

lemma core_lives_lives:
  assumes "core_lives dp src fs" "engine_of dp = Inr e"
  shows "lives (snapshot_file dp) (process_ends dp e) src fs"
  using assms(1)
proof (induction rule: core_lives.induct)
  case (lives_first fs)
  then show ?case by (rule lives_new)
next
  case (lives_next fs w x fs')
  show ?case
  proof (cases "coreStart dp w fs")
    case (Inl f)
    then have "fs' = fs" using lives_next.hyps(3) by (simp add: coreMain_def)
    then show ?thesis using lives_next.IH by simp
  next
    case (Inr p)
    have "process_ends dp e fs (start_of p) (read_by p w) fs'"
      using assms(2) lives_next.hyps(2,3) Inr by (auto simp: process_ends_def)
    then show ?thesis by (rule lives_end [OF lives_next.IH _ lives_next.hyps(4) [OF Inr]])
  qed
qed


lemma ex_enumeration: "\<exists>it. enumerates it"
proof -
  have "\<exists>it. \<forall>A. finite A \<longrightarrow> distinct (it A) \<and> set (it A) = A"
    by (rule choice) (use finite_distinct_list in blast)
  then show ?thesis unfolding enumerates_def .
qed

lemma ex_orders: "\<exists>lo. orders_ok lo"
proof -
  obtain it :: "int enumeration" where "enumerates it" using ex_enumeration by blast
  moreover obtain jt :: "string enumeration" where "enumerates jt" using ex_enumeration by blast
  ultimately have "orders_ok \<lparr>lo_buckets = \<lambda>_. it, lo_progresses = jt\<rparr>" by (simp add: orders_ok_def)
  then show ?thesis by blast
qed

lemma openDB_ok: "openDB w = None \<longleftrightarrow> is_ok (config_Load (w_read w) (w_config w)) \<and> w_dbOpens w \<and> w_dbUnderlying w"
  by (cases "config_Load (w_read w) (w_config w)") (simp_all add: openDB_def db_Init_def Let_def)

lemma is_ok_wrapped: "is_ok (case x of Inl e \<Rightarrow> Inl (f e) | Inr (s, n) \<Rightarrow> Inr (g s n)) = is_ok x"
  by (cases x) auto


end
