(* ===== verification/ConsumerWitness.thy ===== *)
theory ConsumerWitness
  imports ShardWitness KafkaConsumer NatsConsumer
begin

text \<open>
  A sample consumer over the sample shard: the properties of the loops at concrete inputs, and the scenario
  in which a clean shutdown makes the Kafka backend skip a record.
\<close>

section \<open>A consumer with a snapshot under way\<close>

definition demo_five :: core where
  "demo_five = demo_logged\<lparr>c_lastSeq := 5\<rparr>"

definition demo_co :: consumer where
  "demo_co = \<lparr>co_core = demo_five, co_snap = newAsyncSnapshotter ''s'' 10 0, co_files = Map.empty, co_log = []\<rparr>"

definition demo_clk :: "time \<times> time \<times> time" where
  "demo_clk = (0, 20, 20)"

lemma demo_co_fields [simp]: "co_core demo_co = demo_five" "as_done (co_snap demo_co) = None" "as_path (co_snap demo_co) = ''s''"
  "co_files demo_co = Map.empty"
  by (simp_all add: demo_co_def newAsyncSnapshotter_def)

lemma demo_five_fields: "c_patterns demo_five = [demo_cp]" "c_ruleSet demo_five = c_ruleSet demo_engine"
  "c_maxWindow demo_five = c_maxWindow demo_engine" "c_allowedLateness demo_five = c_allowedLateness demo_engine"
  "c_lastSeq demo_five = 5" "c_store demo_five = c_store demo_logged"
  by (simp_all add: demo_five_def demo_logged_state demo_engine_fields)

lemma demo_engine_lastSeq: "c_lastSeq demo_engine = 0"
  by (simp add: demo_engine_def demo_new_def NewCore_def Let_def)

lemma demo_unfrozen: "sm_frozenEpoch (c_store demo_engine) = 0" "sm_frozenEpoch (c_store demo_five) = 0"
proof -
  show e: "sm_frozenEpoch (c_store demo_engine) = 0" by (simp add: demo_engine_fields empty_store_def)
  have "sm_frozenEpoch (c_store demo_logged) = sm_frozenEpoch (c_store demo_engine)"
    by (rule frozen.ProcessEvent_rel [OF reach_facts(1) [OF demo_engine_reach]
        demo_run [of demo_login demo_engine, folded demo_logged_def]])
  then show "sm_frozenEpoch (c_store demo_five) = 0" by (simp add: demo_five_fields e)
qed

lemma demo_five_reach: "shard_reach demo_five demo_hist"
  unfolding demo_five_def by (rule reach_lastSeq [OF demo_logged_reach])

lemma demo_five_epoch: "sm_epoch (c_store demo_five) < sm_epoch (c_store demo_five) + 1"
  using demo_logged_epoch by (simp add: demo_five_fields)

lemma demo_co_reach: "consumer_reach Map.empty demo_co demo_hist []"
  unfolding demo_co_def by (rule cr_start [OF demo_five_reach demo_unfrozen(2)])

lemma demo_co_epoch: "sm_epoch (c_store (co_core demo_co)) < sm_epoch (c_store (co_core demo_co)) + 1"
  using demo_five_epoch by simp

lemma demo_tick: "as_done (co_snap (tick demo_clk demo_co)) = Some (Running (fst (beginSnapshot demo_five)))"
proof -
  have "\<not> time_sub 20 0 < 10" by (simp add: time_sub_def)
  then show ?thesis
    by (simp add: tick_def demo_clk_def startSnapshot_def Let_def demo_co_def newAsyncSnapshotter_def split: prod.split)
qed

lemmas demo_started = started_job [OF demo_co_reach demo_co_epoch demo_co_fields(2) demo_tick]

text \<open>The freeze of the sample shard can be encoded.\<close>

lemma gob_freeze:
  assumes "shard_reach c hist" "\<And>m ms i p. members_view (c_store c) m = Some ms \<Longrightarrow> ms_Progresses ms i = Some p \<Longrightarrow>
    pg_Variables p = Map.empty"
  shows "gob_encode demo_mo (freeze_of c) = Inr (GobSnapshot (freeze_of c))"
proof -
  note inv = reach_facts [OF assms(1)]
  have mo: "enumerates (mo_groups demo_mo)" "enumerates (mo_strings demo_mo)"
    using demo_orders(2) by (simp_all add: map_orders_ok_def)
  have "gob_encode demo_mo (freeze_of c) \<noteq> Inl ESnapshotEncode"
    unfolding freeze_of_def using gob_encode_fails [OF inv(1,2) mo] assms(2) by fastforce
  then show ?thesis by (auto simp: gob_encode_def split: if_splits)
qed

lemma demo_gob: "gob_encode demo_mo (freeze_of demo_five) = Inr (GobSnapshot (freeze_of demo_five))"
  by (rule gob_freeze [OF demo_five_reach]) (auto simp: demo_five_fields intro: demo_variables)

lemma demo_background:
  assumes "job_ok [freeze_of demo_five] co" "as_done (co_snap co) = Some (Running f)"
  shows "as_done (co_snap (background demo_mo WriteOk co)) = Some (Finished None)"
proof -
  have "encode demo_mo f (c_store (co_core co)) = Inr (GobSnapshot (freeze_of demo_five))"
    using assms demo_gob by (simp add: encode_def job_ok_def)
  then show ?thesis using assms(2) by (simp add: background_def writeSnapshotFile_def Let_def)
qed

lemma final_snapshot_ok:
  assumes "shard_reach c hist" "sm_epoch (c_store c) < sm_epoch (c_store c) + 1"
    and "gob_encode demo_mo (freeze_of c) = Inr (GobSnapshot (freeze_of c))"
  shows "fst (snapshotToFile demo_mo WriteOk path c fs) = None"
    "snd (snd (snapshotToFile demo_mo WriteOk path c fs)) path = Some (GobSnapshot (freeze_of c))"
proof -
  obtain f c1 where b: "beginSnapshot c = (f, c1)" by fastforce
  note F = begin_freeze [OF reach_facts(1) [OF assms(1)] assms(2) b]
  have "encode demo_mo f (c_store c1) = Inr (GobSnapshot (freeze_of c))" using assms(3) F(2) by (simp add: encode_def)
  then show "fst (snapshotToFile demo_mo WriteOk path c fs) = None"
    "snd (snd (snapshotToFile demo_mo WriteOk path c fs)) path = Some (GobSnapshot (freeze_of c))"
    by (simp_all add: snapshotToFile_def Snapshot_def b writeSnapshotFile_def)
qed

theorem snapshot_file_is_whole_witness:
  "(co_files (tick demo_clk demo_co) (as_path (co_snap (tick demo_clk demo_co))) = None \<or>
     (\<exists>s\<in>set ([] @ [freeze_of (co_core demo_co)]).
        co_files (tick demo_clk demo_co) (as_path (co_snap (tick demo_clk demo_co))) = Some (GobSnapshot s))) \<and>
   sm_frozenEpoch (c_store (co_core demo_co)) = 0"
proof -
  have idle: "as_done (co_snap demo_co) = None" by (simp add: demo_co_def newAsyncSnapshotter_def)
  from snapshot_file_is_whole [OF cr_tick [OF demo_co_reach demo_co_epoch]] snapshot_file_is_whole [OF demo_co_reach] idle
  show ?thesis by blast
qed

theorem drain_checkpoints_the_shard_witness:
  "co_files (snd (drain 40 demo_mo WriteOk WriteOk demo_co)) ''s'' = Some (GobSnapshot
    \<lparr>sn_KeyGroups = group_members (c_store demo_five) (sm_keyGroups (c_store demo_five)),
     sn_WatermarkNanos = c_watermark demo_five, sn_LastSeq = c_lastSeq demo_five\<rparr>)"
proof -
  have "drain 40 demo_mo WriteOk WriteOk demo_co = (None, snd (drain 40 demo_mo WriteOk WriteOk demo_co))"
    using final_snapshot_ok(1) [OF demo_five_reach demo_five_epoch demo_gob, of "''s''" Map.empty]
    by (cases "snapshotToFile demo_mo WriteOk ''s'' demo_five Map.empty") (simp add: drain_def)
  from drain_checkpoints_the_shard [OF demo_co_reach demo_co_epoch this] show ?thesis by simp
qed

section \<open>Kafka\<close>

definition demo_kafka_cfg :: kafka_config where
  "demo_kafka_cfg = \<lparr>kc_Topic = ''rule-events'', kc_Partition = 0, kc_MaxPollRecords = 1000, kc_SnapshotPath = ''s'', kc_SnapshotInterval = 10, kc_OnProcessed = True\<rparr>"

definition demo_bare_cfg :: kafka_config where
  "demo_bare_cfg = \<lparr>kc_Topic = ''rule-events'', kc_Partition = 0, kc_MaxPollRecords = 1000, kc_SnapshotPath = [], kc_SnapshotInterval = 10, kc_OnProcessed = True\<rparr>"

definition demo_record :: "int \<Rightarrow> behavior_event \<Rightarrow> kafka_record" where
  "demo_record off ev = \<lparr>kr_Offset = off, kr_Value = JsonEvent ev\<rparr>"

lemma demo_decodes: "decodeEvent (JsonEvent (at_second s (a # i) (b # m) x)) = Inr (at_second s (a # i) (b # m) x)"
  by (simp add: decodeEvent_def at_second_def)

definition demo_poll :: "kafka_record list \<Rightarrow> kafka_input" where
  "demo_poll rs = KPoll (\<lambda>_. demo_lo) rs (0, 0, 0)"

text \<open>The log ends at offset 1 when the shard starts, and that record is malformed: the first live one, at offset
  2, is taken for the end of the replay, so the hook sees only the one at offset 3.\<close>

definition demo_records :: "kafka_record list" where
  "demo_records = [demo_record 0 demo_login, \<lparr>kr_Offset = 1, kr_Value = NotJson\<rparr>, demo_record 2 (demo_ping ''bob''),
     demo_record 3 demo_late]"

definition demo_kafka_start :: kafka where
  "demo_kafka_start = snd (projr (kafkaStart demo_mo demo_bare_cfg (Inr 2) 0 Map.empty demo_engine))"

lemma demo_kafka_start:
  "kafkaStart demo_mo demo_bare_cfg (Inr 2) 0 Map.empty demo_engine = Inr (0, demo_kafka_start)"
  by (simp add: demo_kafka_start_def kafkaStart_def kafkaRestore_def demo_bare_cfg_def Let_def)


definition demo_kafka :: kafka where
  "demo_kafka = \<lparr>ka_co = demo_co, ka_hook = True, ka_replaying = False, ka_target = -1, ka_observed = []\<rparr>"

definition demo_kafka_on :: kafka where
  "demo_kafka_on = kafkaRecords (\<lambda>_. demo_lo) [demo_record 6 (demo_ping ''bob'')] (demo_kafka\<lparr>ka_co := tick demo_clk demo_co\<rparr>)"

definition demo_saved_files :: files where
  "demo_saved_files = co_files (background demo_mo WriteOk (ka_co demo_kafka_on))"

lemma demo_kafka_job: "job_ok [freeze_of demo_five] (ka_co demo_kafka_on)"
    "as_done (co_snap (ka_co demo_kafka_on)) = Some (Running (fst (beginSnapshot demo_five)))"
    "as_path (co_snap (ka_co demo_kafka_on)) = ''s''"
  using kafkaRecords_job [of _ "demo_kafka\<lparr>ka_co := tick demo_clk demo_co\<rparr>" demo_hist] demo_started demo_tick
  by (simp_all add: demo_kafka_on_def del: kafkaRecords.simps)

lemma demo_saved_files: "demo_saved_files ''s'' = Some (GobSnapshot (freeze_of demo_five))"
  unfolding demo_saved_files_def
  using finished_job [OF demo_kafka_job(1,2) demo_background [OF demo_kafka_job(1,2)]] by (simp add: demo_kafka_job(3))

lemma restore_succeeds:
  assumes "shard_reach c hist" "c_patterns c = [demo_cp]"
  shows "fst (Restore demo_mo (GobSnapshot (freeze_of c)) demo_engine) = Inr (c_lastSeq c)"
  by (rule restored_freeze(1) [OF reach_inv [OF assms(1)] reach_inv [OF demo_engine_reach] _ demo_orders(2) prod.collapse [symmetric]])
    (simp add: assms(2) demo_engine_fields)

lemma kafka_start_restored:
  assumes "shard_reach c hist" "c_patterns c = [demo_cp]" "fs ''s'' = Some (GobSnapshot (freeze_of c))"
  shows "\<exists>j. kafkaStart demo_mo demo_kafka_cfg (Inr off) now fs demo_engine = Inr (i64 (sint (c_lastSeq c) + 1), j) \<and>
    ka_replaying j = (0 \<le> i64 (off - 1) \<and> i64 (sint (c_lastSeq c) + 1) \<le> i64 (off - 1))"
  using restore_succeeds [OF assms(1,2)] assms(3)
  by (cases "Restore demo_mo (GobSnapshot (freeze_of c)) demo_engine")
    (simp add: kafkaStart_def kafkaRestore_def demo_kafka_cfg_def Let_def)


text \<open>C37 A clean shutdown before the first record loses one: the empty shard's checkpoint carries position 0, the
  position of the record at offset 0, so the next start resumes at offset 1, with no replay, although the
  log meanwhile holds a record at offset 0 that no shard has read.\<close>

theorem clean_shutdown_skips_first_record:
  "\<exists>k k1 j. kafkaStart demo_mo demo_kafka_cfg (Inr 0) 0 Map.empty demo_engine = Inr (0, k) \<and>
    kafkaStep (KCancel 1 demo_mo WriteOk WriteOk) k = Inl k1 \<and>
    kafkaStart demo_mo demo_kafka_cfg (Inr 1) 2 (co_files (ka_co k1)) demo_engine = Inr (1, j) \<and> \<not> ka_replaying j"
proof -
  let ?co = "\<lparr>co_core = demo_engine, co_snap = newAsyncSnapshotter ''s'' 10 0, co_files = Map.empty, co_log = []\<rparr>"
  let ?k = "\<lparr>ka_co = ?co, ka_hook = True, ka_replaying = False, ka_target = -1, ka_observed = []\<rparr>"
  have k: "kafkaStart demo_mo demo_kafka_cfg (Inr 0) 0 Map.empty demo_engine = Inr (0, ?k)"
    by (simp add: kafkaStart_def kafkaRestore_def demo_kafka_cfg_def Let_def)
  have e: "sm_epoch (c_store demo_engine) < sm_epoch (c_store demo_engine) + 1"
    by (simp add: demo_engine_fields empty_store_def)
  have g: "gob_encode demo_mo (freeze_of demo_engine) = Inr (GobSnapshot (freeze_of demo_engine))"
    by (rule gob_freeze [OF demo_engine_reach]) (simp add: demo_engine_fields)
  obtain k1 where k1: "kafkaStep (KCancel 1 demo_mo WriteOk WriteOk) ?k = Inl k1"
      "co_files (ka_co k1) ''s'' = Some (GobSnapshot (freeze_of demo_engine))"
    using final_snapshot_ok(2) [OF demo_engine_reach e g, of "''s''" Map.empty]
    by (cases "snapshotToFile demo_mo WriteOk ''s'' demo_engine Map.empty")
      (simp add: kafkaStep_def drain_def newAsyncSnapshotter_def)
  show ?thesis
    using k k1 kafka_start_restored [where fs = "co_files (ka_co k1)", OF demo_engine_reach demo_engine_fields(2) k1(2), of 1 2]
    by (auto simp: demo_engine_lastSeq)
qed

section \<open>NATS\<close>

definition demo_nats_cfg :: nats_config where
  "demo_nats_cfg = \<lparr>nc_StreamName = ''rule-events'', nc_Subjects = [''rule.events.>''],
     nc_FilterSubject = ''rule.events.0.>'', nc_MaxAckPending = 1000, nc_SnapshotPath = ''s'', nc_SnapshotInterval = 10, nc_OnProcessed = True\<rparr>"

definition demo_nats_bare_cfg :: nats_config where
  "demo_nats_bare_cfg = \<lparr>nc_StreamName = ''rule-events'', nc_Subjects = [''rule.events.>''],
     nc_FilterSubject = ''rule.events.0.>'', nc_MaxAckPending = 1000, nc_SnapshotPath = [], nc_SnapshotInterval = 10, nc_OnProcessed = True\<rparr>"

definition demo_message :: "uint64 \<Rightarrow> behavior_event \<Rightarrow> nats_message" where
  "demo_message seq ev = \<lparr>nm_Data = JsonEvent ev, nm_Sequence = Some seq, nm_AckOk = True\<rparr>"

definition demo_receive :: "time \<Rightarrow> nats_message \<Rightarrow> nats_input" where
  "demo_receive t m = NMessage demo_lo m (t, t, t)"

definition demo_broker :: "uint64 \<Rightarrow> nats_broker" where
  "demo_broker seq = \<lparr>nb_ensured = True, nb_lastSeq = Some seq, nb_consumer = True, nb_iterator = True\<rparr>"

lemma natsRun_settled:
  assumes "\<forall>m\<in>set ms. nats_settled m"
  shows "\<exists>n'. natsRun (map (demo_receive t) ms) n = Inr n'"
  using assms
proof (induction ms arbitrary: n)
  case (Cons m ms)
  have "\<exists>n1. natsStep (demo_receive t m) n = Inr n1"
  proof (cases "decodeEvent (nm_Data m)")
    case (Inl e)
    then show ?thesis by (simp add: demo_receive_def natsStep_def natsMessage_bad)
  next
    case (Inr ev)
    obtain res c' where "ProcessEvent demo_lo ev (co_core (na_co n)) = (res, c')" by fastforce
    from natsMessage_good [OF Inr this] Cons.prems obtain n1 where "natsMessage demo_lo m n = Inr (True, n1)"
      by (metis list.set_intros(1))
    then show ?thesis by (simp add: demo_receive_def natsStep_def)
  qed
  then show ?case using Cons by auto
qed simp

text \<open>Sequence 7 is the last of the stream at the start, but belongs to another shard: the first live message,
  at sequence 9, is taken for the end of the replay, and the hook sees only the one at 11.\<close>

definition demo_messages :: "nats_message list" where
  "demo_messages = [demo_message 4 demo_login, demo_message 9 (demo_ping ''bob''), demo_message 11 demo_late]"

definition demo_nats_start :: nats where
  "demo_nats_start = snd (projr (natsStart demo_mo demo_nats_bare_cfg (demo_broker 7) 0 Map.empty demo_engine))"

lemma demo_nats_start:
  "natsStart demo_mo demo_nats_bare_cfg (demo_broker 7) 0 Map.empty demo_engine = Inr (1, demo_nats_start)"
  by (simp add: demo_nats_start_def natsStart_def natsRestore_def demo_nats_bare_cfg_def demo_broker_def Let_def)

lemma demo_messages_settled: "\<forall>m\<in>set demo_messages. nats_settled m"
  by (simp add: demo_messages_def demo_message_def nats_settled_def)


definition demo_nats :: nats where
  "demo_nats = \<lparr>na_co = demo_co, na_hook = True, na_replaying = False, na_target = 0, na_observed = [],
     na_terminated = [], na_acked = []\<rparr>"

definition demo_next :: "time \<Rightarrow> nats_input list" where
  "demo_next t = map (demo_receive t) [demo_message 6 (demo_ping ''bob'')]"

definition demo_nats_on :: nats where
  "demo_nats_on = projr (natsRun (demo_next 30) (demo_nats\<lparr>na_co := tick demo_clk demo_co\<rparr>))"

lemma demo_settled: "\<forall>m\<in>set [demo_message 6 (demo_ping ''bob'')]. nats_settled m"
  by (simp add: demo_message_def nats_settled_def)

lemma demo_next_run: "natsRun (demo_next t) n = Inr (projr (natsRun (demo_next t) n))"
  using natsRun_settled [OF demo_settled, of t n] unfolding demo_next_def by (metis sum.sel(2))

lemma demo_next_same: "list_all2 same_message (demo_next t) (demo_next t')"
  by (simp add: demo_next_def demo_receive_def)

lemma demo_nats_job: "job_ok [freeze_of demo_five] (na_co demo_nats_on)"
    "as_done (co_snap (na_co demo_nats_on)) = Some (Running (fst (beginSnapshot demo_five)))"
    "as_path (co_snap (na_co demo_nats_on)) = ''s''"
proof -
  have n: "na_co (demo_nats\<lparr>na_co := tick demo_clk demo_co\<rparr>) = tick demo_clk demo_co" by simp
  note J = natsRun_job [of "[freeze_of demo_five]" "demo_nats\<lparr>na_co := tick demo_clk demo_co\<rparr>", unfolded n,
      OF demo_started(1) [unfolded demo_co_fields] demo_started(4) demo_tick demo_next_same [of 30 30]
        demo_next_run, folded demo_nats_on_def]
  show "job_ok [freeze_of demo_five] (na_co demo_nats_on)"
    "as_done (co_snap (na_co demo_nats_on)) = Some (Running (fst (beginSnapshot demo_five)))"
    "as_path (co_snap (na_co demo_nats_on)) = ''s''" using J demo_tick demo_started(5) by simp_all
qed

definition demo_nats_files :: files where
  "demo_nats_files = co_files (background demo_mo WriteOk (na_co demo_nats_on))"

lemma demo_nats_files: "demo_nats_files ''s'' = Some (GobSnapshot (freeze_of demo_five))"
  unfolding demo_nats_files_def
  using finished_job [OF demo_nats_job(1,2) demo_background [OF demo_nats_job(1,2)]] by (simp add: demo_nats_job(3))

theorem nats_restart_is_exact_witness:
  "\<exists>j. natsStart demo_mo demo_nats_cfg (demo_broker 6) 60 demo_nats_files demo_engine = Inr (6, j) \<and>
    c_watermark (co_core (na_co (projr (natsRun (demo_next 90) j)))) = c_watermark (co_core (na_co demo_nats_on))"
proof -
  have ok: "fst (Restore demo_mo (GobSnapshot (freeze_of demo_five)) demo_engine) = Inr (c_lastSeq demo_five)"
    by (rule restore_succeeds [OF demo_five_reach demo_five_fields(1)])
  obtain seq j where j: "natsStart demo_mo demo_nats_cfg (demo_broker 6) 60 demo_nats_files demo_engine = Inr (seq, j)"
    using ok demo_nats_files by (cases "Restore demo_mo (GobSnapshot (freeze_of demo_five)) demo_engine")
      (simp add: natsStart_def natsRestore_def demo_nats_cfg_def demo_broker_def Let_def)
  have n: "na_co demo_nats = demo_co" by (simp add: demo_nats_def)
  have e: "unat (sm_epoch (c_store demo_engine)) + length (demo_next 30) < 2 ^ 64"
    by (simp add: demo_engine_fields empty_store_def demo_next_def)
  have "seq = c_lastSeq (co_core demo_co) + 1 \<and> (let c = co_core (na_co demo_nats_on);
      c' = co_core (na_co (projr (natsRun (demo_next 90) j)))
    in members_view (c_store c') = members_view (c_store c) \<and> c_watermark c' = c_watermark c \<and> c_lastSeq c' = c_lastSeq c)"
    by (rule nats_restart_is_exact [where n = demo_nats and clk = demo_clk and d = demo_engine, unfolded n,
          OF demo_co_reach demo_co_epoch demo_co_fields(2) refl demo_tick demo_next_run [of 30 "demo_nats\<lparr>na_co := tick demo_clk demo_co\<rparr>", folded demo_nats_on_def] refl
          demo_background [OF demo_nats_job(1,2)] _ _ demo_orders(2) j [unfolded demo_nats_files_def] demo_engine_reach e
          _ _ _ _ demo_next_same demo_next_run])
      (simp_all add: demo_five_fields demo_nats_cfg_def demo_engine_fields)
  then show ?thesis using j by (auto simp: Let_def demo_five_fields)
qed

end
