(* ===== verification/ProcessWitness.thy ===== *)
theory ProcessWitness
  imports Process StartupWitness ConsumerWitness
begin

text \<open>Two lives of a sample process: the first reads one event, writes a snapshot in the background and is killed;
  the second restores it and reads on.\<close>

definition demo_dp :: deployment where
  "demo_dp = \<lparr>dp_env = [''SNAPSHOT_DIR'' \<mapsto> ''s''], dp_ctx = demo_ctx 0, dp_px = demo_px, dp_rules = [], dp_patterns = []\<rparr>"

definition demo_minute :: int where
  "demo_minute = 60 * Second"

definition demo_config :: Config where
  "demo_config = \<lparr>cg_App = \<lparr>ap_Addr = '':8080''\<rparr>, cg_DB = \<lparr>db_Host = ''db'', db_User = ''rules'', db_Password = ''secret'',
     db_DBName = ''rules'', db_Port = 5432, db_SSLMode = ''disable'', db_TimeZone = ''UTC'', db_MaxOpenConns = 0,
     db_MaxIdleConns = 0, db_ConnMaxLifetimeSec = 0\<rparr>, cg_Log = \<lparr>lc_Level = ''info''\<rparr>\<rparr>"

definition demo_world :: "uint64 \<Rightarrow> nats_input list \<Rightarrow> world" where
  "demo_world lastSeq ins = \<lparr>w_read = ConfigRead, w_config = Some demo_config, w_dbOpens = True, w_dbUnderlying = True, w_connected = True, w_now = 0, w_orders = demo_mo,
     w_natsBroker = demo_broker lastSeq, w_natsInputs = ins, w_endOffset = Inr 0, w_kafkaInputs = []\<rparr>"

definition demo_first_inputs :: "nats_input list" where
  "demo_first_inputs = [demo_receive demo_minute (demo_message 1 demo_login), NBackground demo_mo WriteOk]"

definition demo_second_inputs :: "nats_input list" where
  "demo_second_inputs = map (demo_receive 0) [demo_message 2 (demo_ping ''bob'')]"

definition demo_source :: source where
  "demo_source = [(JsonEvent demo_login, 1), (JsonEvent (demo_ping ''bob''), 2)]"

definition demo_bare :: core where
  "demo_bare = NewCore 0 \<lparr>rs_Strategies = [], rs_MaxWindow = MaxWindowFromKeys []\<rparr> []"

definition demo_one :: core where
  "demo_one = (snd (ProcessEvent demo_lo demo_login demo_bare))\<lparr>c_lastSeq := 1\<rparr>"

definition demo_left :: files where
  "demo_left = snd (coreMain demo_dp (demo_world 0 demo_first_inputs) Map.empty)"

section \<open>The engine\<close>

lemma demo_dp_simps: "shard_of_env demo_dp = 0" "snapshot_file demo_dp = ''s/shard_0.snap''"
    "env_Str (dp_env demo_dp) ''BACKEND'' ''nats'' = ''nats''"
proof -
  have "fmt_int 0 = ''0''" by code_simp
  then show "shard_of_env demo_dp = 0" "snapshot_file demo_dp = ''s/shard_0.snap''"
    "env_Str (dp_env demo_dp) ''BACKEND'' ''nats'' = ''nats''"
    by (simp_all add: demo_dp_def shard_of_env_def snapshot_file_def env_Int_def env_Str_def snapshotPathOf_def)
qed

lemma demo_dp_ok: "deployment_ok demo_dp"
  by (simp add: deployment_ok_def demo_dp_def demo_px)

lemma demo_bare_engine: "engine_of demo_dp = Inr demo_bare"
  unfolding engine_of_def demo_dp_simps
  by (simp add: demo_dp_def startEngine_def NewRuleStrategyUsecaseWith_def ListActiveCompiled_def compileAndCache_def
      ListActive_def RuleStrategyRepo_def repo_List_def compile_rules_def ListActivePatterns_def demo_px_def demo_bare_def
      CollectUniqueAggregateKeys_def)

lemma demo_bare_fields: "c_patterns demo_bare = []" "c_negDeadlines demo_bare = []" "c_store demo_bare = empty_store"
    "c_lastSeq demo_bare = 0" "c_watermark demo_bare = 0"
  by (simp_all add: demo_bare_def NewCore_def Let_def)

lemma demo_bare_reach: "shard_reach demo_bare (\<lambda>_. [])"
  unfolding demo_bare_def by (rule reach_new)

lemma demo_one_reach: "\<exists>hist. shard_reach demo_one hist"
  unfolding demo_one_def using reach_lastSeq [OF reach_event [OF demo_bare_reach demo_orders(1) prod.collapse [symmetric]]] by blast

text \<open>Without patterns no progress is ever opened.\<close>

lemma demo_one_view:
  assumes "members_view (c_store demo_one) m = Some ms"
  shows "ms_Progresses ms = Map.empty"
proof -
  let ?c1 = "snd (ProcessEvent demo_lo demo_login demo_bare)"
  note inv = reach_facts(1) [OF demo_bare_reach]
  note r = prod.collapse [of "ProcessEvent demo_lo demo_login demo_bare", symmetric]
  have m: "members_view (c_store ?c1) m = Some ms" using assms by (simp add: demo_one_def)
  have p: "ms_Progresses (view_or_new Map.empty x) = Map.empty" for x by (simp add: view_or_new_def newMemberState_def)
  have e: "lo_progresses demo_lo {} = []" using enumeratesD [of "lo_progresses demo_lo" "{}"] demo_orders(1) by (auto simp: orders_ok_def)
  have d: "map_delete_if P (\<lambda>x. None) = (\<lambda>x. None)" for P by (simp add: map_delete_if_def fun_eq_iff)
  have c: "processCEP [] (lo_progresses demo_lo) ms0 x wm [] = ([], ms0\<lparr>ms_Progresses := Map.empty\<rparr>, [])"
    if "ms_Progresses ms0 = Map.empty" for ms0 x wm
    using that e by (simp add: processCEP_def sweepExpiredProgresses_def Let_def d)
  show ?thesis
  proof (cases "isLate demo_bare (ev_OccurredAt demo_login)")
    case True
    then show ?thesis using m late_step(4) [OF inv r True] p by (auto simp: demo_bare_fields split: if_splits)
  next
    case False
    obtain ps ms1 W h where W: "W = (members_view (c_store demo_bare))(ev_MemberID demo_login \<mapsto> ms1)"
      "processCEP (c_patterns demo_bare) (lo_progresses demo_lo)
         (foldEvent (c_maxWindow demo_bare) demo_login (view_or_new (members_view (c_store demo_bare)) (ev_MemberID demo_login)))
         (cepEvent demo_login) (c_watermark ?c1) (c_negDeadlines demo_bare) = (ps, ms1, h)"
      "members_view (c_store ?c1) = drop_progresses (overdue W (c_watermark ?c1)) W"
      by (rule on_time_step [OF inv r False])
    have F: "ms_Progresses (foldEvent (c_maxWindow demo_bare) demo_login
        (view_or_new (members_view (c_store demo_bare)) (ev_MemberID demo_login))) = Map.empty"
      by (simp add: p demo_bare_fields)
    have "ms_Progresses ms1 = Map.empty" using W(2) unfolding demo_bare_fields(1,2) c [OF F] by auto
    then show ?thesis using m unfolding W(3)
      by (auto simp: W(1) demo_bare_fields drop_progresses_def split: if_splits)
  qed
qed

section \<open>Two lives\<close>

lemma demo_gob_one: "gob_encode demo_mo (freeze_of demo_one) = Inr (GobSnapshot (freeze_of demo_one))"
proof -
  obtain hist where "shard_reach demo_one hist" using demo_one_reach by blast
  then show ?thesis by (rule gob_freeze) (use demo_one_view in fastforce)
qed

lemma demo_opens: "openDB (demo_world q ins) = None"
  by (simp add: openDB_ok demo_world_def config_Load_def)

lemma demo_first_start: "\<exists>n. coreStart demo_dp (demo_world 0 ins) Map.empty = Inr (OnNATS 1 n) \<and>
    na_co n = \<lparr>co_core = demo_bare, co_snap = newAsyncSnapshotter ''s/shard_0.snap'' demo_minute 0, co_files = Map.empty, co_log = []\<rparr> \<and>
    \<not> na_replaying n"
proof -
  have b: "setupBackend (dp_env demo_dp) (dp_ctx demo_dp) (dp_px demo_dp) (NewRuleStrategyUsecaseWith RuleStrategyRepo (dp_rules demo_dp))
      (dp_patterns demo_dp) = Inr (NATS (setupNATSConsumer 0 ''s/shard_0.snap'', demo_bare))"
    using demo_bare_engine demo_dp_simps unfolding setupBackend_def engine_of_def shard_of_env_def snapshot_file_def Let_def by simp
  show ?thesis
    by (simp add: coreStart_def b demo_opens) (simp add: demo_world_def natsStart_def natsRestore_def setupNATSConsumer_def demo_broker_def Let_def demo_minute_def)
qed

lemma demo_left: "coreMain demo_dp (demo_world 0 demo_first_inputs) Map.empty =
    (fst (coreMain demo_dp (demo_world 0 demo_first_inputs) Map.empty), demo_left)"
    "demo_left ''s/shard_0.snap'' = Some (GobSnapshot (freeze_of demo_one))"
proof -
  show "coreMain demo_dp (demo_world 0 demo_first_inputs) Map.empty =
    (fst (coreMain demo_dp (demo_world 0 demo_first_inputs) Map.empty), demo_left)" by (simp add: demo_left_def)
  obtain n where n: "coreStart demo_dp (demo_world 0 demo_first_inputs) Map.empty = Inr (OnNATS 1 n)"
      "na_co n = \<lparr>co_core = demo_bare, co_snap = newAsyncSnapshotter ''s/shard_0.snap'' demo_minute 0, co_files = Map.empty, co_log = []\<rparr>"
      "\<not> na_replaying n" using demo_first_start by blast
  obtain f c1 where b: "beginSnapshot demo_one = (f, c1)" by fastforce
  obtain hist where R: "shard_reach demo_one hist" using demo_one_reach by blast
  have "sm_epoch (c_store demo_one) = sm_epoch (c_store demo_bare)"
    using epoch.ProcessEvent_rel [OF reach_facts(1) [OF demo_bare_reach] prod.collapse [symmetric], of demo_lo demo_login]
    by (simp add: demo_one_def)
  then have "sm_epoch (c_store demo_one) < sm_epoch (c_store demo_one) + 1" by (simp add: demo_bare_fields empty_store_def)
  note F = begin_freeze(2) [OF reach_facts(1) [OF R] this b]
  have enc: "encode demo_mo f (c_store c1) = Inr (GobSnapshot (freeze_of demo_one))"
    using demo_gob_one F by (simp add: encode_def)
  have dec: "decodeEvent (JsonEvent demo_login) = Inr demo_login" by (simp add: demo_login_def demo_decodes)
  obtain n1 where M: "natsMessage demo_lo (demo_message 1 demo_login) n = Inr (True, n1)"
      "na_co n1 = (na_co n)\<lparr>co_core := demo_one\<rparr>"
  proof -
    have "\<exists>n1. natsMessage demo_lo (demo_message 1 demo_login) n = Inr (True, n1)"
      by (simp add: natsMessage_def demo_message_def dec Let_def)
    then obtain n1 where t: "natsMessage demo_lo (demo_message 1 demo_login) n = Inr (True, n1)" by blast
    from natsMessage_co [OF t, of demo_login 1] show thesis
      using that t n(2,3) by (simp add: demo_message_def dec demo_one_def)
  qed
  have late: "\<not> time_sub demo_minute 0 < demo_minute" "demo_minute > 0" by (simp_all add: time_sub_def demo_minute_def Second_def)
  let ?co = "(na_co n1)\<lparr>co_core := c1, co_snap := (co_snap (na_co n1))\<lparr>as_last := demo_minute, as_done := Some (Running f)\<rparr>\<rparr>"
  have T: "tick (demo_minute, demo_minute, demo_minute) (na_co n1) = ?co"
    using late by (simp add: tick_def M(2) n(2) newAsyncSnapshotter_def startSnapshot_def Let_def b)
  have B: "co_files (background demo_mo WriteOk ?co) ''s/shard_0.snap'' = Some (GobSnapshot (freeze_of demo_one))"
    by (simp add: background_def enc writeSnapshotFile_def M(2) n(2) newAsyncSnapshotter_def Let_def)
  show "demo_left ''s/shard_0.snap'' = Some (GobSnapshot (freeze_of demo_one))"
    using B by (simp add: demo_left_def coreMain_def n(1)) (simp add: demo_world_def demo_first_inputs_def demo_receive_def natsStep_def M(1) T)
qed

lemma demo_worlds: "world_ok (demo_world 0 demo_first_inputs)" "world_ok (demo_world 2 demo_second_inputs)"
  by (simp_all add: world_ok_def demo_world_def demo_first_inputs_def demo_second_inputs_def demo_receive_def demo_message_def
      demo_orders)

lemma demo_decoded: "decodeEvent (JsonEvent demo_login) = Inr demo_login" "decodeEvent (JsonEvent (demo_ping ''bob'')) = Inr (demo_ping ''bob'')"
  by (simp_all add: demo_login_def demo_ping_def decodeEvent_def at_second_def)

lemma demo_source_ok: "source_ok demo_source"
  by (simp add: source_ok_def demo_source_def)

lemma demo_lives: "core_lives demo_dp demo_source demo_left"
proof (rule lives_next [OF lives_first demo_worlds(1) demo_left(1)])
  fix p assume p: "coreStart demo_dp (demo_world 0 demo_first_inputs) Map.empty = Inr p"
  obtain n where "p = OnNATS 1 n" using demo_first_start [of demo_first_inputs] p by auto
  then show "prefix (read_by p (demo_world 0 demo_first_inputs)) (from_pos (start_of p) demo_source)"
    by (simp add: demo_world_def demo_first_inputs_def demo_receive_def nats_source_def demo_message_def from_pos_def
        demo_source_def stream_seq_def)
qed simp

lemma demo_second_start: "\<exists>n. coreStart demo_dp (demo_world 2 demo_second_inputs) demo_left = Inr (OnNATS 2 n)"
proof -
  have b: "setupBackend (dp_env demo_dp) (dp_ctx demo_dp) (dp_px demo_dp) (NewRuleStrategyUsecaseWith RuleStrategyRepo (dp_rules demo_dp))
      (dp_patterns demo_dp) = Inr (NATS (setupNATSConsumer 0 ''s/shard_0.snap'', demo_bare))"
    using demo_bare_engine demo_dp_simps unfolding setupBackend_def engine_of_def shard_of_env_def snapshot_file_def Let_def by simp
  obtain hist where R: "shard_reach demo_one hist" using demo_one_reach by blast
  have pats: "c_patterns demo_bare = c_patterns demo_one"
    using ProcessEvent_frame(1) [OF reach_facts(1) [OF demo_bare_reach] prod.collapse [symmetric], of demo_lo demo_login]
    by (simp add: demo_one_def)
  obtain r d where r: "Restore demo_mo (GobSnapshot (freeze_of demo_one)) demo_bare = (r, d)" by fastforce
  have "r = Inr 1"
    using restored_freeze(1) [OF reach_inv [OF R] reach_inv [OF demo_bare_reach] pats demo_orders(2) r] by (simp add: demo_one_def)
  then show ?thesis
    by (simp add: coreStart_def b demo_opens) (simp add: demo_world_def natsStart_def natsRestore_def setupNATSConsumer_def demo_broker_def Let_def
        demo_left(2) r)
qed



end
