(* ===== verification/Spec2Isabelle.thy ===== *)
theory Spec2Isabelle
  imports BenchMain ApiMain ProcessWitness
begin

text \<open>
  A verification development for the in-memory rule engine of this repository.

  \<^bold>\<open>The program.\<close> Producers publish behaviour events to NATS or Kafka, each to the shard that owns
  its member. A shard is one \<^verbatim>\<open>Core\<close> (\<^verbatim>\<open>service/engine/core\<close>): a consumer
  loop decodes the messages of the shard and calls \<^verbatim>\<open>ProcessEvent\<close>, which counts the event into the
  time buckets of its member, evaluates the compiled rules over window aggregates, advances the sequence
  patterns of the member, moves the watermark and reports the patterns whose forbidden event did not come in
  time. Snapshots freeze the state by epochs and copy on write, are encoded in the background, and bring a
  restarted shard back together with a silent replay of the events since. Rules and patterns come from two
  tables; rules are edited over an HTTP API that keeps a cache of the compiled rule set.

  \<^bold>\<open>Theories and sources.\<close>
  \<^item> \<open>Prelude\<close>: strings, 64-bit integers (\<open>i64\<close> wraps), and \<open>enumerates\<close>: a Go loop over a map visits every key
    once in an order that is a parameter, so what is proved holds for every order. \<open>GoFloat\<close>, \<open>FloatMul\<close>:
    \<^verbatim>\<open>float64\<close> as executable binary64 with its rounding errors. \<open>GoValue\<close>: \<^verbatim>\<open>any\<close>,
    its formatting, times and durations.
  \<^item> \<open>KeyGroup\<close>: \<^verbatim>\<open>keygroup.go\<close>. \<open>RuleModel\<close>: \<^verbatim>\<open>base/rule/model\<close>
    (rule trees, aggregate keys, validation). \<open>RuleEval\<close>, \<open>RuleFacts\<close>: \<^verbatim>\<open>compile.go\<close>,
    \<^verbatim>\<open>rule.go\<close>, \<^verbatim>\<open>aggregate.go\<close>, \<^verbatim>\<open>preloaded\_context.go\<close> and what holds of them.
  \<^item> \<open>State\<close>: the structs of events, patterns, progresses, buckets and members. \<open>Aggregation\<close>:
    \<^verbatim>\<open>aggregation.go\<close>. \<open>MemberStore\<close>: \<^verbatim>\<open>state.go\<close>, with pointers as addresses.
    \<open>NegQueue\<close>: \<^verbatim>\<open>negative\_queue.go\<close> over the sift loops of \<^verbatim>\<open>container/heap\<close>.
    \<open>Cep\<close>, \<open>CepFacts\<close>: \<^verbatim>\<open>cep.go\<close>.
  \<^item> \<open>Core\<close>, \<open>ShardFacts\<close>: \<^verbatim>\<open>core.go\<close>, \<^verbatim>\<open>eval.go\<close>,
    \<^verbatim>\<open>watermark.go\<close> and the drain of the deadlines. \<open>Snapshot\<close>: \<^verbatim>\<open>snapshot.go\<close>.
    \<open>Shard\<close>: the states a shard can reach, by an inductive relation over all its operations, and its properties.
  \<^item> \<open>Consumer\<close>, \<open>KafkaConsumer\<close>, \<open>NatsConsumer\<close>: \<^verbatim>\<open>consumer.go\<close> and the two loops, with the
    background snapshot as a step of its own between any two steps of the loop. \<open>Producer\<close>: the two producers.
  \<^item> \<open>RuleStore\<close>: the rule table, its repository and usecase and the HTTP handlers. \<open>Startup\<close>: the pattern table
    and \<^verbatim>\<open>cmd/rule-engine-core\<close>. \<open>LoadGen\<close>: \<^verbatim>\<open>cmd/event-producer\<close>.
    \<open>LatencyStats\<close>, \<open>Bench\<close>, \<open>BenchMain\<close>: \<^verbatim>\<open>cmd/bench\<close>.
  \<^item> \<open>Api\<close>: the routes of \<^verbatim>\<open>service/bff/apis\<close> over the handlers, as one service. \<open>ApiMain\<close>: \<^verbatim>\<open>cmd/apis\<close>
    over any number of its lives, and what a shard started from the table they left decides.
    \<open>Settings\<close>: \<^verbatim>\<open>pkg/env\<close> for durations, \<^verbatim>\<open>pkg/db\<close> and
    \<^verbatim>\<open>config\<close>. \<open>Recovery\<close>: what a source of events and a snapshot file determine, for any
    consumer. \<open>Process\<close>: \<^verbatim>\<open>main\<close> of \<^verbatim>\<open>cmd/rule-engine-core\<close> up to its exit,
    and any number of its lives one after another.
  \<^item> \<open>ShardWitness\<close>, \<open>ConsumerWitness\<close>, \<open>StartupWitness\<close>, \<open>ProcessWitness\<close>: concrete runs at which the properties apply; the
    other theories end with their own.

  \<^bold>\<open>What the groups of lemmas show.\<close>
  \<^item> Rules: a compiled rule answers as the tree walk does, error for error; collected keys, windows and the cache key
    do what the evaluation relies on; the rules an event reports are the true ones.
  \<^item> Aggregates: COUNT, SUM, MAX and MIN are those of the distinct events of the window, in whatever order they
    came, and redelivery changes nothing.
  \<^item> State: the store with its pointers refines a plain map of members under writes, freezes and releases, and a
    frozen view never changes.
  \<^item> Patterns: every progress is explained by events of its member; every match is justified; a progress parked
    on a negative state is reported at the very event that lifts the watermark past its deadline, unless an event
    of the member itself sweeps it away first, which is shown to happen.
  \<^item> Recovery: snapshot, restore and replay give the decisions and the state of a shard that never stopped, for the
    core and for both consumer loops; the snapshot file is never torn; side effects come from live events only.
    Composed over any number of lives of the process, crashed, stopped or refused at start, a running shard is in the
    state of one engine that read its source once; no file of an earlier life blocks a start.
  \<^item> Rule store: a load returns the compilation of the active rows whatever was cached; from the table to the verdict
    of a started shard. The HTTP service answers as a map from IDs to rules, errors included, over
    all its lives; what its editors asked for is what a shard that starts later reports.
  \<^item> Tools: the load generator and the send loop of a benchmark stage return, having sent what they should; the
    percentiles are the nearest ranks in spite of the floating-point index.

  \<^bold>\<open>Interfaces.\<close> Locales state what clients rely on, and each is interpreted on the model's definitions:
  \<open>eval_context\<close> (the two evaluation contexts), \<open>deadline_queue\<close> (the heap), \<open>member_updates\<close> and
  \<open>store_relation\<close> (the store), \<open>running_best\<close> (maxima and minima), \<open>event_consumer\<close> (the two loops),
  \<open>rule_repository\<close> (the table), \<open>event_producer\<close> (the two producers) and \<open>restartable\<close> (a process of
  either backend, which survives its crashes).

  \<^bold>\<open>Parameters and bounds.\<close> Orders of map loops, clock readings, random draws, UUIDs, and what brokers, files and
  the database answer are arguments. Loops over input end with the input; the heap loops and the drain have
  measures; the send loop of the benchmark is partial, and is proved to return for targets below \<open>2^52\<close>. Sums are
  exact below \<open>2^53\<close>, ranks below \<open>2^31\<close> samples; epochs and positions are 64-bit words, and where a proof
  needs that a counter does not wrap, the theorem says so.

  \<^bold>\<open>Not modelled.\<close> The bytes of gob and JSON (a file is the structure it transfers, with the values it refuses),
  the regular expression engine behind the identifier check, times outside 64-bit nanoseconds, data races (one
  goroutine writes a core), logging, profiling, the printed reports, what happens inside viper, gorm and the broker
  clients (their outcomes are arguments), listening on HTTP, and the wiring generated for dependency injection.
\<close>

end
